(* ===== verification/Prelude.thy ===== *)
theory Prelude
  imports Main "HOL-Library.Multiset"
begin

text \<open>
  Shared vocabulary of the development: the table operations every SQL statement of the
  program is written with (UPDATE ... WHERE, ORDER BY ... LIMIT 1, lookup by primary key),
  Unicode strings, and two interfaces stated as locales: a table with a primary key
  (\<open>keyed_rows\<close>), and a retry counter with a limit (\<open>retry_counter\<close>).  The components
  interpret the locales on their own rows.

  \<^item> \<open>table_simps\<close> collects facts about the table operations;
  \<^item> \<open>frame_simps\<close> collects the "this operation leaves that field alone" facts.
\<close>

named_theorems table_simps
named_theorems frame_simps

section \<open>Strings\<close>

text \<open>
  A string of the program (a JavaScript string, a Postgres text or varchar value) is the
  list of its Unicode code points; \<open>lit\<close> writes an ASCII literal.
\<close>

type_synonym ustring = "nat list"

definition lit :: "string \<Rightarrow> ustring" where
  "lit s = map of_char s"

lemma lit_Nil [simp]: "lit [] = []"
  by (simp add: lit_def)

lemma lit_Cons: "lit (c # s) = of_char c # lit s"
  by (simp add: lit_def)

lemma lit_append: "lit (s @ t) = lit s @ lit t"
  by (simp add: lit_def)

lemma lit_eq_iff [simp]: "lit s = lit t \<longleftrightarrow> s = t"
  unfolding lit_def by (rule inj_map_eq_map) (simp add: inj_on_def)

lemma lit_eq_Nil_iff [simp]: "lit s = [] \<longleftrightarrow> s = []"
  by (simp add: lit_def)

lemma length_lit [simp]: "length (lit s) = length s"
  by (simp add: lit_def)

section \<open>Tables\<close>

text \<open>
  A table is the list of its rows in physical order; nothing is proved that depends on
  that order beyond the order in which ties of an ORDER BY are broken, which SQL leaves
  open and the theorems quantify over.
\<close>

definition update_where :: "('r \<Rightarrow> bool) \<Rightarrow> ('r \<Rightarrow> 'r) \<Rightarrow> 'r list \<Rightarrow> 'r list" where
  "update_where P f rows = map (\<lambda>r. if P r then f r else r) rows"

definition delete_where :: "('r \<Rightarrow> bool) \<Rightarrow> 'r list \<Rightarrow> 'r list" where
  "delete_where P rows = filter (\<lambda>r. \<not> P r) rows"

text \<open>ORDER BY rank LIMIT 1: the first row of least rank.\<close>

fun first_min :: "('r \<Rightarrow> 'k::linorder) \<Rightarrow> 'r list \<Rightarrow> 'r option" where
  "first_min rank [] = None"
| "first_min rank (r # rs) =
     (case first_min rank rs of
        None \<Rightarrow> Some r
      | Some m \<Rightarrow> if rank m < rank r then Some m else Some r)"

lemma first_min_None_iff [simp]: "first_min rank rs = None \<longleftrightarrow> rs = []"
  by (cases rs) (auto split: option.splits)

lemma first_min_in: "first_min rank rs = Some m \<Longrightarrow> m \<in> set rs"
  by (induction rs arbitrary: m) (auto split: option.splits if_splits)

lemma first_min_le: "first_min rank rs = Some m \<Longrightarrow> r \<in> set rs \<Longrightarrow> rank m \<le> rank r"
proof (induction rs arbitrary: m r)
  case Nil
  then show ?case by simp
next
  case (Cons x xs)
  show ?case
  proof (cases "first_min rank xs")
    case None
    with Cons.prems show ?thesis by auto
  next
    case (Some y)
    with Cons show ?thesis by (fastforce split: if_splits)
  qed
qed

lemma first_min_ex: "rs \<noteq> [] \<Longrightarrow> \<exists>m. first_min rank rs = Some m"
  by (metis first_min_None_iff not_Some_eq)

lemma update_where_id [table_simps]:
  "(\<And>r. r \<in> set rows \<Longrightarrow> \<not> P r) \<Longrightarrow> update_where P f rows = rows"
  by (simp add: update_where_def map_idI)

lemma update_where_Nil [simp]: "update_where P f [] = []"
  by (simp add: update_where_def)

lemma update_where_Cons [simp]:
  "update_where P f (r # rs) = (if P r then f r else r) # update_where P f rs"
  by (simp add: update_where_def)

lemma set_update_where [table_simps]:
  "set (update_where P f rows) = (\<lambda>r. if P r then f r else r) ` set rows"
  by (simp add: update_where_def)

lemma length_update_where [simp]: "length (update_where P f rows) = length rows"
  by (simp add: update_where_def)

lemma map_update_where [table_simps]:
  "(\<And>r. g (f r) = g r) \<Longrightarrow> map g (update_where P f rows) = map g rows"
  by (simp add: update_where_def)

lemma image_update_where [table_simps]:
  "(\<And>r. g (f r) = g r) \<Longrightarrow> g ` set (update_where P f rows) = g ` set rows"
  by (simp only: set_map[symmetric] map_update_where)

lemma filter_update_where:
  "(\<And>r. Q (f r) = Q r) \<Longrightarrow>
     filter Q (update_where P f rows) = update_where P f (filter Q rows)"
  by (induction rows) auto

lemma update_where_cong_rows:
  "(\<And>r. r \<in> set rows \<Longrightarrow> P r = Q r) \<Longrightarrow> (\<And>r. r \<in> set rows \<Longrightarrow> P r \<Longrightarrow> f r = g r) \<Longrightarrow>
     update_where P f rows = update_where Q g rows"
  by (simp add: update_where_def)

lemma in_update_whereE:
  assumes "r \<in> set (update_where P f rows)"
  obtains "r \<in> set rows" "\<not> P r" | r0 where "r0 \<in> set rows" "P r0" "r = f r0"
  using assms by (auto simp: set_update_where split: if_splits)

lemma delete_where_Nil [simp]: "delete_where P [] = []"
  by (simp add: delete_where_def)

lemma set_delete_where [simp]: "set (delete_where P rows) = {r \<in> set rows. \<not> P r}"
  by (simp add: delete_where_def)

text \<open>A nullable column compared with \<open><\<close>: NULL compares to NULL, which WHERE rejects.\<close>

definition null_less :: "int option \<Rightarrow> int \<Rightarrow> bool" where
  "null_less x y = (case x of None \<Rightarrow> False | Some v \<Rightarrow> v < y)"

lemma null_less_simps [simp]:
  "\<not> null_less None y"
  "null_less (Some v) y \<longleftrightarrow> v < y"
  by (simp_all add: null_less_def)

text \<open>COALESCE of a nullable column and a value.\<close>

definition coalesce :: "'a option \<Rightarrow> 'a \<Rightarrow> 'a option" where
  "coalesce x d = (case x of None \<Rightarrow> Some d | Some v \<Rightarrow> Some v)"

lemma coalesce_simps [simp]:
  "coalesce None d = Some d"
  "coalesce (Some v) d = Some v"
  by (simp_all add: coalesce_def)

lemma coalesce_not_None [simp]: "coalesce x d \<noteq> None" "\<exists>y. coalesce x d = Some y"
  by (cases x; simp)+

section \<open>Interface: rows with a primary key\<close>

locale keyed_rows =
  fixes key :: "'r \<Rightarrow> 'k"
begin

lemma key_unique:
  assumes "distinct (map key rows)" "r \<in> set rows" "s \<in> set rows" "key r = key s"
  shows "r = s"
  using assms by (auto simp: distinct_map dest: inj_onD)

lemma key_ex:
  assumes "distinct (map key rows)" "r \<in> set rows"
  shows "(\<exists>q \<in> set rows. key q = key r \<and> Q q) \<longleftrightarrow> Q r"
  using assms(2) key_unique[OF assms(1) _ assms(2)] by metis

lemma distinct_update:
  assumes "\<And>r. key (f r) = key r"
  shows "distinct (map key (update_where P f rows)) = distinct (map key rows)"
  using assms by (simp add: map_update_where)

lemma distinct_delete:
  "distinct (map key rows) \<Longrightarrow> distinct (map key (delete_where P rows))"
  by (simp add: delete_where_def distinct_map_filter)

lemma update_key:
  assumes "distinct (map key rows)" "r \<in> set rows"
  shows "set (update_where (\<lambda>x. key x = key r) f rows) = insert (f r) (set rows - {r})"
proof -
  have eq: "(key x = key r) = (x = r)" if "x \<in> set rows" for x
    using key_unique[OF assms(1) that assms(2)] by blast
  have "update_where (\<lambda>x. key x = key r) f rows = update_where (\<lambda>x. x = r) f rows"
    by (rule update_where_cong_rows) (simp_all add: eq)
  moreover have "set (update_where (\<lambda>x. x = r) f rows) = insert (f r) (set rows - {r})"
    unfolding set_update_where using assms(2) by (auto simp: image_iff)
  ultimately show ?thesis by simp
qed

lemma update_key_absent:
  "k \<notin> key ` set rows \<Longrightarrow> update_where (\<lambda>x. key x = k) f rows = rows"
  by (rule update_where_id) auto

lemma filter_key:
  assumes "distinct (map key rows)" "r \<in> set rows"
  shows "filter (\<lambda>x. key x = key r) rows = [r]"
proof -
  have "distinct rows" using assms(1) by (simp add: distinct_map)
  have eq: "filter (\<lambda>x. key x = key r) rows = filter (\<lambda>x. x = r) rows"
    by (rule filter_cong) (use key_unique[OF assms(1) _ assms(2)] in auto)
  have "filter (\<lambda>x. x = r) rows = [r]"
    using \<open>distinct rows\<close> assms(2) by (induction rows) (auto simp: filter_empty_conv)
  with eq show ?thesis by simp
qed

lemma find_key:
  assumes "distinct (map key rows)" "r \<in> set rows"
  shows "find (\<lambda>x. key x = key r) rows = Some r"
proof -
  have "find (\<lambda>x. key x = key r) rows \<noteq> None"
    using assms(2) by (auto simp: find_None_iff)
  then obtain s where s: "find (\<lambda>x. key x = key r) rows = Some s" by blast
  then have "s \<in> set rows" "key s = key r" by (auto simp: find_Some_iff)
  with assms key_unique[of rows s r] s show ?thesis by simp
qed

lemma find_key_iff:
  assumes "distinct (map key rows)"
  shows "find (\<lambda>x. key x = k) rows = Some r \<longleftrightarrow> r \<in> set rows \<and> key r = k"
  using find_key[OF assms] by (auto simp: find_Some_iff)

end

section \<open>Interface: a retry counter with a limit\<close>

text \<open>
  Both queues of the program retry a row until its counter reaches its limit:
  \<^verbatim>\<open>status = CASE WHEN retry_count + 1 >= max_retries THEN 'failed' ELSE 'pending' END,
  retry_count = retry_count + 1\<close>.
\<close>

locale retry_counter =
  fixes count :: "'r \<Rightarrow> int"
    and limit :: "'r \<Rightarrow> int"
    and dead :: "'r \<Rightarrow> bool"
    and waiting :: "'r \<Rightarrow> bool"
    and fail :: "'c \<Rightarrow> 'r \<Rightarrow> 'r"
  assumes count_fail: "count (fail c r) = count r + 1"
    and limit_fail: "limit (fail c r) = limit r"
    and dead_fail: "dead (fail c r) \<longleftrightarrow> limit r \<le> count r + 1"
    and waiting_fail: "waiting (fail c r) \<longleftrightarrow> \<not> limit r \<le> count r + 1"
begin

lemma count_fails: "count (fold fail cs r) = count r + int (length cs)"
  by (induction cs arbitrary: r) (simp_all add: count_fail)

lemma limit_fails: "limit (fold fail cs r) = limit r"
  by (induction cs arbitrary: r) (simp_all add: limit_fail)

lemma fails_outcome:
  assumes "cs \<noteq> []"
  shows "dead (fold fail cs r) \<longleftrightarrow> limit r \<le> count r + int (length cs)"
    and "waiting (fold fail cs r) \<longleftrightarrow> count r + int (length cs) < limit r"
proof -
  from assms obtain ds c where cs: "cs = ds @ [c]" by (metis rev_exhaust)
  have *: "fold fail cs r = fail c (fold fail ds r)" by (simp add: cs)
  show "dead (fold fail cs r) \<longleftrightarrow> limit r \<le> count r + int (length cs)"
    unfolding * dead_fail limit_fails count_fails by (simp add: cs algebra_simps)
  show "waiting (fold fail cs r) \<longleftrightarrow> count r + int (length cs) < limit r"
    unfolding * waiting_fail limit_fails count_fails by (simp add: cs algebra_simps not_le)
qed

end

end
