(* ===== verification/Schema.thy ===== *)
theory Schema
  imports Prelude
begin

text \<open>
  The database: one record per entity of src/src/database/entities, with the columns the
  entity declares, and the record \<open>db\<close> of all tables.  Column names are the source's, with
  the table's initial in front where two tables share a name.

  Values: a uuid is a number drawn from the generator \<open>next_uuid\<close> (the database's random
  uuid, of which only freshness is used); a timestamptz is a number of microseconds; an
  \<open>int\<close> column is an integer; a nullable column is an option; a jsonb value is a \<open>json\<close>.
  The comment of database-seed.service.ts names the statuses of jobs and runs: pending,
  running, success, failed, cancelled.

  Beside the tables, \<open>db\<close> holds what else of Postgres the program uses: the rows locked by
  statements of other sessions that are still running (what SKIP LOCKED skips), the
  advisory locks
  held per session (with multiplicity: an advisory lock may be taken again by its holder),
  the installed triggers, the notifications sent on the channel job_logs, the materialized
  view pipeline_stats.
\<close>

section \<open>Values\<close>

type_synonym uuid = nat
type_synonym timestamp = int
type_synonym session = nat

definition seconds :: "int \<Rightarrow> timestamp" where
  "seconds n = n * 1000000"

lemma seconds_less_iff [simp]: "seconds m < seconds n \<longleftrightarrow> m < n"
  by (simp add: seconds_def)

lemma seconds_pos_iff [simp]: "0 < seconds n \<longleftrightarrow> 0 < n"
  by (simp add: seconds_def)

text \<open>The values of an integer column.\<close>

definition fits_int4 :: "int \<Rightarrow> bool" where
  "fits_int4 n \<longleftrightarrow> - (2 ^ 31) \<le> n \<and> n < 2 ^ 31"

datatype json =
    JNull
  | JBool bool
  | JNum int
  | JStr ustring
  | JArr "json list"
  | JObj "(ustring \<times> json) list"

text \<open>Reading a property of a JavaScript value; the value undefined is \<open>None\<close>.\<close>

definition js_prop :: "json \<Rightarrow> string \<Rightarrow> json option" where
  "js_prop v k = (case v of JObj fs \<Rightarrow> map_of fs (lit k) | _ \<Rightarrow> None)"

lemma js_prop_simps [simp]:
  "js_prop JNull k = None" "js_prop (JBool b) k = None" "js_prop (JNum n) k = None"
  "js_prop (JStr s) k = None" "js_prop (JArr xs) k = None"
  "js_prop (JObj fs) k = map_of fs (lit k)"
  by (simp_all add: js_prop_def)

datatype run_status = Pending | Running | Success | Failed | Cancelled

datatype hook_status = Hook_Pending | Processing | Processed | Hook_Failed

section \<open>Rows\<close>

record pipeline =
  p_id :: uuid
  p_name :: ustring
  p_repository :: ustring
  p_config :: json
  p_created_at :: timestamp
  p_updated_at :: timestamp

record pipeline_run =
  r_id :: uuid
  r_pipeline_id :: uuid
  r_trigger_type :: ustring
  r_trigger_metadata :: json
  r_status :: run_status
  r_started_at :: "timestamp option"
  r_completed_at :: "timestamp option"
  r_created_at :: timestamp

record job =
  j_id :: uuid
  j_pipeline_run_id :: uuid
  j_stage :: ustring
  j_stage_order :: int
  j_step_name :: ustring
  j_step_order :: int
  j_command :: ustring
  j_status :: run_status
  j_priority :: int
  j_claimed_by :: "ustring option"
  j_claimed_at :: "timestamp option"
  j_heartbeat_at :: "timestamp option"
  j_retry_count :: int
  j_max_retries :: int
  j_exit_code :: "int option"
  j_started_at :: "timestamp option"
  j_completed_at :: "timestamp option"
  j_created_at :: timestamp

record job_log =
  l_id :: nat
  l_job_id :: uuid
  l_log_line :: ustring
  l_log_level :: ustring
  l_timestamp :: timestamp

record deployment_lock =
  dl_environment :: ustring
  dl_locked_by :: "uuid option"
  dl_locked_at :: timestamp
  dl_expires_at :: "timestamp option"

record webhook_outbox =
  w_id :: uuid
  w_event_type :: ustring
  w_payload :: "(ustring \<times> json) list"
  w_webhook_url :: ustring
  w_status :: hook_status
  w_retry_count :: int
  w_max_retries :: int
  w_next_retry_at :: timestamp
  w_created_at :: timestamp
  w_processed_at :: "timestamp option"

record pipeline_stats_row =
  ps_pipeline_id :: uuid
  ps_name :: ustring
  ps_total_runs :: nat
  ps_success_count :: nat
  ps_failure_count :: nat
  ps_avg_duration_seconds :: "int option"
  ps_last_run_at :: "timestamp option"

text \<open>The JSON object the trigger on job_logs builds for a notification.\<close>

record log_event =
  ev_job_id :: uuid
  ev_log_line :: ustring
  ev_log_level :: ustring
  ev_timestamp :: timestamp
  ev_id :: nat

section \<open>The database\<close>

record db =
  pipelines :: "pipeline list"
  pipeline_runs :: "pipeline_run list"
  jobs :: "job list"
  job_logs :: "job_log list"
  deployment_locks :: "deployment_lock list"
  webhooks_outbox :: "webhook_outbox list"
  next_uuid :: uuid
  next_log_id :: nat
  row_locks :: "uuid set"
  advisory :: "(session \<times> int) list"
  run_trigger :: bool
  log_trigger :: bool
  notifications :: "log_event list"
  pipeline_stats :: "pipeline_stats_row list option"

definition empty_db :: db where
  "empty_db = \<lparr>pipelines = [], pipeline_runs = [], jobs = [], job_logs = [],
     deployment_locks = [], webhooks_outbox = [], next_uuid = 1, next_log_id = 1,
     row_locks = {}, advisory = [], run_trigger = False, log_trigger = False, notifications = [],
     pipeline_stats = None\<rparr>"

lemma db_write_back [simp]: "d\<lparr>jobs := jobs d\<rparr> = d"
  by (cases d) simp

text \<open>What a statement may fail with, each a documented Postgres error.\<close>

datatype db_error =
    Foreign_Key_Violation
  | Not_Null_Violation
  | String_Too_Long
  | Invalid_Input
  | Out_Of_Range
  | Undefined_Table
  | Payload_Too_Long
  | Concurrent_Refresh_Failed

interpretation pipeline_rows: keyed_rows p_id .
interpretation run_rows: keyed_rows r_id .
interpretation job_rows: keyed_rows j_id .
interpretation hook_rows: keyed_rows w_id .
interpretation lock_rows: keyed_rows dl_environment .

end
