(* ===== verification/Effects.thy ===== *)
theory Effects
  imports Schema
begin

text \<open>
  How the TypeScript code runs: an asynchronous function is an action on the \<open>world\<close> that
  ends in an outcome.  An outcome is a value, a thrown error, or \<open>Hangs\<close> for a promise that
  never settles.

  The code awaits one statement at a time, and between two statements every other process
  of the system may run.  The world therefore carries a script of what happens around each
  of its statements: \<open>ev_other\<close> is what the other processes commit before it (any function
  on the database), \<open>ev_now\<close> the value NOW() then has, \<open>ev_fate\<close> whether the connection
  survives the statement, \<open>ev_abort\<close> whether the process was asked to shut down.  With the
  empty script nothing interferes and the clock stands still.  Theorems that quantify over
  the script hold for every interleaving and every connection failure.

  \<open>clients\<close> are the dedicated connections the process has checked out of its pool of raw
  pg clients.
\<close>

datatype js_error =
    Query_Failed db_error
  | Connection_Lost
  | Type_Error
  | Error_Message ustring
  | Not_Found_Exception ustring
  | Bad_Request_Exception ustring
  | Http_Error int
  | Fetch_Rejected

datatype 'a outcome = Done 'a | Threw js_error | Hangs

text \<open>
  \<open>Lost_Request\<close>: the connection broke before the server ran the statement;
  \<open>Lost_Reply\<close>: the server committed it and the answer was lost.  Both throw.
\<close>

datatype fate = Delivered | Lost_Request | Lost_Reply

record env_event =
  ev_other :: "db \<Rightarrow> db"
  ev_now :: timestamp
  ev_fate :: fate
  ev_abort :: bool

record world =
  the_db :: db
  clock :: timestamp
  aborted :: bool
  clients :: "session set"
  script :: "env_event list"

type_synonym 'a act = "world \<Rightarrow> 'a outcome \<times> world"

type_synonym 'a stmt = "timestamp \<Rightarrow> db \<Rightarrow> db_error + 'a \<times> db"

definition ret :: "'a \<Rightarrow> 'a act" where
  "ret x w = (Done x, w)"

definition throw :: "js_error \<Rightarrow> 'a act" where
  "throw e w = (Threw e, w)"

definition hang :: "'a act" where
  "hang w = (Hangs, w)"

text \<open>\<open>await m\<close> followed by the rest of the function.\<close>

definition seq :: "'a act \<Rightarrow> ('a \<Rightarrow> 'b act) \<Rightarrow> 'b act" where
  "seq m k w = (case m w of
      (Done x, w') \<Rightarrow> k x w'
    | (Threw e, w') \<Rightarrow> (Threw e, w')
    | (Hangs, w') \<Rightarrow> (Hangs, w'))"

text \<open>\<open>try { m } catch { h }\<close>\<close>

definition try_catch :: "'a act \<Rightarrow> 'a act \<Rightarrow> 'a act" where
  "try_catch m h w = (case m w of
      (Threw e, w') \<Rightarrow> h w'
    | (Done x, w') \<Rightarrow> (Done x, w')
    | (Hangs, w') \<Rightarrow> (Hangs, w'))"

text \<open>\<open>try { m } finally { f }\<close>: an error of \<open>f\<close> replaces the outcome of \<open>m\<close>.\<close>

definition try_finally :: "'a act \<Rightarrow> unit act \<Rightarrow> 'a act" where
  "try_finally m f w = (case m w of
      (Done x, w') \<Rightarrow> seq f (\<lambda>_. ret x) w'
    | (Threw e, w') \<Rightarrow> seq f (\<lambda>_. throw e) w'
    | (Hangs, w') \<Rightarrow> (Hangs, w'))"

text \<open>\<open>m.catch(() => {})\<close>\<close>

definition ignore_error :: "unit act \<Rightarrow> unit act" where
  "ignore_error m = try_catch m (ret ())"

text \<open>What happens elsewhere up to the next statement of this process.\<close>

definition elapse :: "world \<Rightarrow> fate \<times> world" where
  "elapse w = (case script w of
      [] \<Rightarrow> (Delivered, w)
    | e # es \<Rightarrow> (ev_fate e,
        w\<lparr>the_db := ev_other e (the_db w), clock := ev_now e,
          aborted := aborted w \<or> ev_abort e, script := es\<rparr>))"

text \<open>One awaited SQL statement, run in its own transaction.\<close>

definition query :: "'a stmt \<Rightarrow> 'a act" where
  "query st w = (case elapse w of (f, w1) \<Rightarrow>
     (if f = Lost_Request then (Threw Connection_Lost, w1)
      else (case st (clock w1) (the_db w1) of
          Inl e \<Rightarrow> (if f = Lost_Reply then Threw Connection_Lost else Threw (Query_Failed e), w1)
        | Inr (x, d) \<Rightarrow>
            (if f = Lost_Reply then Threw Connection_Lost else Done x, w1\<lparr>the_db := d\<rparr>))))"

text \<open>\<open>await sleep(ms)\<close>: time passes, the other processes run.\<close>

definition sleep :: "unit act" where
  "sleep w = (Done (), snd (elapse w))"

definition is_aborted :: "bool act" where
  "is_aborted w = (Done (aborted w), w)"

section \<open>Results of an UPDATE ... RETURNING\<close>

text \<open>One element of the array \<open>dataSource.query\<close> returns.\<close>

datatype 'r cell = Row 'r | Row_Array "'r list" | Affected nat

type_synonym 'r shape = "'r list \<Rightarrow> 'r cell list"

text \<open>
  \<open>plain_rows\<close> is the array of rows that the source's \<open>result[0]\<close> reckons with, \<open>rows_and_count\<close> the
  pair of the rows and their number that TypeORM 0.3 documents for UPDATE and DELETE.  The
  actions take the shape as a parameter.
\<close>

definition plain_rows :: "'r shape" where
  "plain_rows rows = map Row rows"

definition rows_and_count :: "'r shape" where
  "rows_and_count rows = [Row_Array rows, Affected (length rows)]"

text \<open>\<open>const row = result[0] ?? null; if (!row) return null\<close>: arrays and objects are truthy.\<close>

fun first_cell :: "'r cell list \<Rightarrow> 'r cell option" where
  "first_cell [] = None"
| "first_cell (Affected n # _) = (if n = 0 then None else Some (Affected n))"
| "first_cell (c # _) = Some c"

section \<open>Laws\<close>

lemma seq_ret [simp]: "seq (ret x) k = k x"
  by (rule ext) (simp add: seq_def ret_def)

lemma seq_throw [simp]: "seq (throw e) k = throw e"
  by (rule ext) (simp add: seq_def throw_def)

lemma seq_ret_right [simp]: "seq m ret = m"
  by (rule ext) (simp add: seq_def ret_def split: prod.split outcome.split)

lemma seq_assoc: "seq (seq m k) h = seq m (\<lambda>x. seq (k x) h)"
  by (rule ext) (simp add: seq_def split: prod.split outcome.split)

lemma try_catch_ret [simp]: "try_catch (ret x) h = ret x"
  by (rule ext) (simp add: try_catch_def ret_def)

lemma try_catch_throw [simp]: "try_catch (throw e) h = h"
  by (rule ext) (simp add: try_catch_def throw_def)

lemma try_finally_ret: "try_finally (ret x) f = seq f (\<lambda>_. ret x)"
  by (rule ext) (simp add: try_finally_def ret_def)

lemma try_finally_throw: "try_finally (throw e) f = seq f (\<lambda>_. throw e)"
  by (rule ext) (simp add: try_finally_def throw_def)

lemma ignore_error_not_threw [simp]: "ignore_error m w \<noteq> (Threw e, w')"
  by (simp add: ignore_error_def try_catch_def ret_def split: prod.split outcome.split)

lemma try_catch_threwE:
  assumes "try_catch m h w = (Threw e, w')"
  obtains e0 w0 where "m w = (Threw e0, w0)" "h w0 = (Threw e, w')"
  using assms by (auto simp: try_catch_def split: prod.splits outcome.splits)

lemma seq_doneE:
  assumes "seq m k w = (Done y, w')"
  obtains x w0 where "m w = (Done x, w0)" "k x w0 = (Done y, w')"
  using assms by (auto simp: seq_def split: prod.splits outcome.splits)

lemma elapse_Nil [simp]: "script w = [] \<Longrightarrow> elapse w = (Delivered, w)"
  by (simp add: elapse_def)

text \<open>With nothing interfering, an awaited statement is the statement.\<close>

lemma query_quiet:
  assumes "script w = []"
  shows "query st w = (case st (clock w) (the_db w) of
           Inl e \<Rightarrow> (Threw (Query_Failed e), w)
         | Inr (x, d) \<Rightarrow> (Done x, w\<lparr>the_db := d\<rparr>))"
  using assms by (simp add: query_def split: sum.splits prod.splits)

section \<open>What an action can do to the database\<close>

text \<open>
  \<open>moves R w w'\<close>: between \<open>w\<close> and \<open>w'\<close> the database changed only by steps of \<open>R\<close>, whether
  steps of this process or (through the script) of others.  \<open>within R m\<close>: the action \<open>m\<close>
  changes the database by steps of \<open>R\<close> only, as long as the others do.
\<close>

definition others :: "(db \<Rightarrow> db \<Rightarrow> bool) \<Rightarrow> world \<Rightarrow> bool" where
  "others R w \<longleftrightarrow> (\<forall>e \<in> set (script w). \<forall>d. R\<^sup>*\<^sup>* d (ev_other e d))"

definition within :: "(db \<Rightarrow> db \<Rightarrow> bool) \<Rightarrow> 'a act \<Rightarrow> bool" where
  "within R m \<longleftrightarrow> (\<forall>w. others R w \<longrightarrow>
     others R (snd (m w)) \<and> R\<^sup>*\<^sup>* (the_db w) (the_db (snd (m w))))"

named_theorems within_intros

lemma withinD:
  assumes "within R m" "others R w" "m w = (x, w')"
  shows "others R w'" "R\<^sup>*\<^sup>* (the_db w) (the_db w')"
  using assms unfolding within_def by (metis snd_conv)+

lemma within_ret [within_intros]: "within R (ret x)"
  by (simp add: within_def ret_def)

lemma within_throw [within_intros]: "within R (throw e)"
  by (simp add: within_def throw_def)

lemma within_hang [within_intros]: "within R hang"
  by (simp add: within_def hang_def)

lemma within_is_aborted [within_intros]: "within R is_aborted"
  by (simp add: within_def is_aborted_def)

lemma within_seq [within_intros]:
  assumes "within R m" "\<And>x. within R (k x)"
  shows "within R (seq m k)"
  unfolding within_def
proof (intro allI impI)
  fix w assume w: "others R w"
  obtain x w1 where m: "m w = (x, w1)" by fastforce
  note 1 = withinD[OF assms(1) w m]
  show "others R (snd (seq m k w)) \<and> R\<^sup>*\<^sup>* (the_db w) (the_db (snd (seq m k w)))"
  proof (cases x)
    case (Done a)
    obtain y w2 where k: "k a w1 = (y, w2)" by fastforce
    from withinD[OF assms(2) 1(1) k] 1 show ?thesis
      by (auto simp: seq_def m Done k intro: rtranclp_trans)
  qed (use 1 m in \<open>simp_all add: seq_def\<close>)
qed

lemma within_try_catch [within_intros]:
  assumes "within R m" "within R h"
  shows "within R (try_catch m h)"
  unfolding within_def
proof (intro allI impI)
  fix w assume w: "others R w"
  obtain x w1 where m: "m w = (x, w1)" by fastforce
  note 1 = withinD[OF assms(1) w m]
  show "others R (snd (try_catch m h w)) \<and> R\<^sup>*\<^sup>* (the_db w) (the_db (snd (try_catch m h w)))"
  proof (cases x)
    case (Threw e)
    obtain y w2 where h: "h w1 = (y, w2)" by fastforce
    from withinD[OF assms(2) 1(1) h] 1 show ?thesis
      by (auto simp: try_catch_def m Threw h intro: rtranclp_trans)
  qed (use 1 m in \<open>simp_all add: try_catch_def\<close>)
qed

lemma within_ignore_error [within_intros]: "within R m \<Longrightarrow> within R (ignore_error m)"
  unfolding ignore_error_def by (intro within_intros)

lemma within_try_finally [within_intros]:
  assumes "within R m" "within R f"
  shows "within R (try_finally m f)"
  unfolding within_def
proof (intro allI impI)
  fix w assume w: "others R w"
  obtain x w1 where m: "m w = (x, w1)" by fastforce
  note 1 = withinD[OF assms(1) w m]
  have f: "within R (seq f (\<lambda>_. ret a))" "within R (seq f (\<lambda>_. throw e))" for a :: 'a and e
    by (intro within_intros assms)+
  show "others R (snd (try_finally m f w)) \<and>
    R\<^sup>*\<^sup>* (the_db w) (the_db (snd (try_finally m f w)))"
  proof (cases x)
    case (Done a)
    obtain y w2 where k: "seq f (\<lambda>_. ret a) w1 = (y, w2)" by fastforce
    from withinD[OF f(1) 1(1) k] 1 show ?thesis
      by (auto simp: try_finally_def m Done k intro: rtranclp_trans)
  next
    case (Threw e)
    obtain y w2 where k: "seq f (\<lambda>_. throw e) w1 = (y :: 'a outcome, w2)" by fastforce
    from withinD[OF f(2) 1(1) k] 1 show ?thesis
      by (auto simp: try_finally_def m Threw k intro: rtranclp_trans)
  qed (use 1 m in \<open>simp_all add: try_finally_def\<close>)
qed

lemma within_elapse:
  assumes "others R w" "elapse w = (f, w1)"
  shows "others R w1" "R\<^sup>*\<^sup>* (the_db w) (the_db w1)"
  using assms by (auto simp: others_def elapse_def split: list.splits)

lemma within_sleep [within_intros]: "within R sleep"
  unfolding within_def sleep_def
  by (metis within_elapse snd_conv prod.collapse)

lemma within_query:
  assumes "\<And>now d x d'. st now d = Inr (x, d') \<Longrightarrow> R\<^sup>*\<^sup>* d d'"
  shows "within R (query st)"
  unfolding within_def
proof (intro allI impI)
  fix w assume w: "others R w"
  obtain f w1 where e: "elapse w = (f, w1)" by fastforce
  note 1 = within_elapse[OF w e]
  show "others R (snd (query st w)) \<and> R\<^sup>*\<^sup>* (the_db w) (the_db (snd (query st w)))"
    using 1 assms[of "clock w1" "the_db w1"]
    by (auto simp: query_def e others_def split: sum.splits prod.splits
          intro: rtranclp_trans)
qed

text \<open>An invariant of the steps holds at every point an action reaches.\<close>

lemma within_invariant:
  assumes "within R m" "others R w" "m w = (x, w')" "I (the_db w)"
    and step: "\<And>d d'. R d d' \<Longrightarrow> I d \<Longrightarrow> I d'"
  shows "I (the_db w')"
proof -
  from withinD(2)[OF assms(1-3)] have "R\<^sup>*\<^sup>* (the_db w) (the_db w')" .
  then show ?thesis using assms(4) by (induction) (auto intro: step)
qed

section \<open>Facts about the world an action keeps\<close>

definition stays :: "(world \<Rightarrow> bool) \<Rightarrow> 'a act \<Rightarrow> bool" where
  "stays P m \<longleftrightarrow> (\<forall>w. P w \<longrightarrow> P (snd (m w)))"

named_theorems stays_intros

lemma staysD: "stays P m \<Longrightarrow> P w \<Longrightarrow> m w = (x, w') \<Longrightarrow> P w'"
  unfolding stays_def by (metis snd_conv)

lemma stays_ret [stays_intros]: "stays P (ret x)"
  and stays_throw [stays_intros]: "stays P (throw e)"
  and stays_hang [stays_intros]: "stays P hang"
  and stays_is_aborted [stays_intros]: "stays P is_aborted"
  by (simp_all add: stays_def ret_def throw_def hang_def is_aborted_def)

lemma stays_seq [stays_intros]:
  assumes "stays P m" "\<And>x. stays P (k x)"
  shows "stays P (seq m k)"
  using assms by (fastforce simp: stays_def seq_def split: prod.splits outcome.splits)

lemma stays_try_catch [stays_intros]:
  assumes "stays P m" "stays P h"
  shows "stays P (try_catch m h)"
  using assms by (fastforce simp: stays_def try_catch_def split: prod.splits outcome.splits)

lemma stays_ignore_error [stays_intros]: "stays P m \<Longrightarrow> stays P (ignore_error m)"
  unfolding ignore_error_def by (intro stays_intros)

lemma stays_try_finally [stays_intros]:
  assumes "stays P m" "stays P f"
  shows "stays P (try_finally m f)"
  unfolding stays_def
proof (intro allI impI)
  fix w assume "P w"
  obtain x w1 where m: "m w = (x, w1)" by fastforce
  have 1: "P w1" by (rule staysD[OF assms(1) \<open>P w\<close> m])
  have "stays P (seq f k)" if "\<And>u. stays P (k u)" for k :: "unit \<Rightarrow> 'a act"
    using that by (intro stays_seq assms)
  then have "P (snd (seq f (\<lambda>_. ret a) w1))" "P (snd ((seq f (\<lambda>_. throw e) :: 'a act) w1))"
    for a :: 'a and e
    using 1 by (simp_all add: stays_def stays_ret[unfolded stays_def] stays_throw[unfolded stays_def])
  with 1 show "P (snd (try_finally m f w))"
    by (auto simp: try_finally_def m split: outcome.splits)
qed

lemma stays_case_option [stays_intros]:
  "stays P m \<Longrightarrow> (\<And>x. stays P (k x)) \<Longrightarrow> stays P (case v of None \<Rightarrow> m | Some x \<Rightarrow> k x)"
  by (cases v) simp_all

lemma stays_if [stays_intros]: "stays P m \<Longrightarrow> stays P n \<Longrightarrow> stays P (if b then m else n)"
  by simp

text \<open>For facts that include "nothing interferes", a statement is judged by itself.\<close>

lemma stays_query:
  assumes "\<And>w. P w \<Longrightarrow> script w = []"
    and "\<And>w x d. P w \<Longrightarrow> st (clock w) (the_db w) = Inr (x, d) \<Longrightarrow> P (w\<lparr>the_db := d\<rparr>)"
  shows "stays P (query st)"
  using assms by (auto simp: stays_def query_quiet split: sum.splits prod.splits)

lemma stays_sleep:
  "(\<And>w. P w \<Longrightarrow> script w = []) \<Longrightarrow> stays P sleep"
  by (simp add: stays_def sleep_def)

end
