(* ===== verification/RunStatus.thy ===== *)
theory RunStatus
  imports Effects
begin

text \<open>
  The trigger function of src/src/database/database-seed.service.ts that keeps
  pipeline_runs.status, started_at and completed_at in step with the jobs of the run, and
  the contract it implements: \<open>run_synced\<close>.
\<close>

definition terminal :: "run_status \<Rightarrow> bool" where
  "terminal s \<longleftrightarrow> s = Success \<or> s = Failed \<or> s = Cancelled"

definition run_jobs :: "db \<Rightarrow> uuid \<Rightarrow> job list" where
  "run_jobs d run_id = filter (\<lambda>j. j_pipeline_run_id j = run_id) (jobs d)"

text \<open>
  \<open>sync_pipeline_run_status_from_jobs\<close>: any running job makes the run running; otherwise,
  when every job is terminal, the run is failed or success; otherwise nothing.
\<close>

definition sync_pipeline_run_status :: "timestamp \<Rightarrow> uuid \<Rightarrow> db \<Rightarrow> db" where
  "sync_pipeline_run_status now run_id d =
     (let js = run_jobs d run_id;
          has_running = (\<exists>j \<in> set js. j_status j = Running);
          all_terminal = (\<not> (\<exists>j \<in> set js. \<not> terminal (j_status j)));
          has_failed = (\<exists>j \<in> set js. j_status j = Failed)
      in if has_running then
           d\<lparr>pipeline_runs := update_where
               (\<lambda>r. r_id r = run_id \<and> (r_status r \<noteq> Running \<or> r_started_at r = None))
               (\<lambda>r. r\<lparr>r_status := Running, r_started_at := coalesce (r_started_at r) now\<rparr>)
               (pipeline_runs d)\<rparr>
         else if all_terminal then
           d\<lparr>pipeline_runs := update_where
               (\<lambda>r. r_id r = run_id)
               (\<lambda>r. r\<lparr>r_status := (if has_failed then Failed else Success),
                       r_completed_at := coalesce (r_completed_at r) now\<rparr>)
               (pipeline_runs d)\<rparr>
         else d)"

text \<open>
  \<open>AFTER INSERT OR UPDATE OF status ... FOR EACH ROW\<close>: once the statement has changed all
  its rows, the function runs for each of them, if the trigger is installed.
\<close>

definition fire_run_trigger :: "timestamp \<Rightarrow> uuid list \<Rightarrow> db \<Rightarrow> db" where
  "fire_run_trigger now run_ids d =
     (if run_trigger d then fold (sync_pipeline_run_status now) run_ids d else d)"

lemma fire_no_rows [simp]: "fire_run_trigger now [] d = d"
  by (cases "run_trigger d") (simp_all add: fire_run_trigger_def)

section \<open>What the trigger leaves alone\<close>

lemma sync_frame [frame_simps]:
  "jobs (sync_pipeline_run_status now i d) = jobs d"
  "pipelines (sync_pipeline_run_status now i d) = pipelines d"
  "job_logs (sync_pipeline_run_status now i d) = job_logs d"
  "deployment_locks (sync_pipeline_run_status now i d) = deployment_locks d"
  "webhooks_outbox (sync_pipeline_run_status now i d) = webhooks_outbox d"
  "next_uuid (sync_pipeline_run_status now i d) = next_uuid d"
  "next_log_id (sync_pipeline_run_status now i d) = next_log_id d"
  "row_locks (sync_pipeline_run_status now i d) = row_locks d"
  "advisory (sync_pipeline_run_status now i d) = advisory d"
  "run_trigger (sync_pipeline_run_status now i d) = run_trigger d"
  "log_trigger (sync_pipeline_run_status now i d) = log_trigger d"
  "notifications (sync_pipeline_run_status now i d) = notifications d"
  by (simp_all add: sync_pipeline_run_status_def Let_def)

lemma sync_fold_frame [frame_simps]:
  "jobs (fold (sync_pipeline_run_status now) is d) = jobs d"
  "pipelines (fold (sync_pipeline_run_status now) is d) = pipelines d"
  "job_logs (fold (sync_pipeline_run_status now) is d) = job_logs d"
  "deployment_locks (fold (sync_pipeline_run_status now) is d) = deployment_locks d"
  "webhooks_outbox (fold (sync_pipeline_run_status now) is d) = webhooks_outbox d"
  "next_uuid (fold (sync_pipeline_run_status now) is d) = next_uuid d"
  "next_log_id (fold (sync_pipeline_run_status now) is d) = next_log_id d"
  "row_locks (fold (sync_pipeline_run_status now) is d) = row_locks d"
  "advisory (fold (sync_pipeline_run_status now) is d) = advisory d"
  "run_trigger (fold (sync_pipeline_run_status now) is d) = run_trigger d"
  "log_trigger (fold (sync_pipeline_run_status now) is d) = log_trigger d"
  "notifications (fold (sync_pipeline_run_status now) is d) = notifications d"
  by (induction "is" arbitrary: d) (simp_all add: frame_simps)

lemma fire_frame [frame_simps]:
  "jobs (fire_run_trigger now is d) = jobs d"
  "pipelines (fire_run_trigger now is d) = pipelines d"
  "job_logs (fire_run_trigger now is d) = job_logs d"
  "deployment_locks (fire_run_trigger now is d) = deployment_locks d"
  "webhooks_outbox (fire_run_trigger now is d) = webhooks_outbox d"
  "next_uuid (fire_run_trigger now is d) = next_uuid d"
  "next_log_id (fire_run_trigger now is d) = next_log_id d"
  "row_locks (fire_run_trigger now is d) = row_locks d"
  "advisory (fire_run_trigger now is d) = advisory d"
  "run_trigger (fire_run_trigger now is d) = run_trigger d"
  "log_trigger (fire_run_trigger now is d) = log_trigger d"
  "notifications (fire_run_trigger now is d) = notifications d"
  by (simp_all add: fire_run_trigger_def frame_simps)

section \<open>The contract\<close>

text \<open>
  A run and its jobs agree: a running job means a running, started run; all jobs terminal
  means a completed run, failed exactly when a job failed.  A run without jobs, and one
  whose jobs wait, promise nothing.
\<close>

definition run_synced :: "job list \<Rightarrow> pipeline_run \<Rightarrow> bool" where
  "run_synced js r \<longleftrightarrow>
     ((\<exists>j \<in> set js. j_status j = Running) \<longrightarrow>
        r_status r = Running \<and> r_started_at r \<noteq> None) \<and>
     (js \<noteq> [] \<and> (\<forall>j \<in> set js. terminal (j_status j)) \<longrightarrow>
        r_status r = (if \<exists>j \<in> set js. j_status j = Failed then Failed else Success) \<and>
        r_completed_at r \<noteq> None)"

definition all_runs_synced :: "db \<Rightarrow> bool" where
  "all_runs_synced d \<longleftrightarrow>
     (\<forall>r \<in> set (pipeline_runs d). run_synced (run_jobs d (r_id r)) r)"

lemma terminal_simps [simp]:
  "\<not> terminal Running" "\<not> terminal Pending"
  "terminal Success" "terminal Failed" "terminal Cancelled"
  by (simp_all add: terminal_def)

lemma run_jobs_frame [frame_simps]:
  "run_jobs (sync_pipeline_run_status now k d) i = run_jobs d i"
  "run_jobs (fold (sync_pipeline_run_status now) ks d) i = run_jobs d i"
  "run_jobs (fire_run_trigger now ks d) i = run_jobs d i"
  by (simp_all add: run_jobs_def frame_simps)

text \<open>Only the set of statuses matters.\<close>

lemma run_synced_statuses:
  assumes "j_status ` set js = j_status ` set ks"
  shows "run_synced js r = run_synced ks r"
proof -
  have 1: "(\<exists>j \<in> set xs. j_status j = s) \<longleftrightarrow> s \<in> j_status ` set xs" for xs s by auto
  have 2: "(\<forall>j \<in> set xs. terminal (j_status j)) \<longleftrightarrow> (\<forall>s \<in> j_status ` set xs. terminal s)"
    for xs by simp
  have 3: "xs \<noteq> [] \<longleftrightarrow> j_status ` set xs \<noteq> {}" for xs by simp
  show ?thesis unfolding run_synced_def 1 2 3 assms ..
qed

text \<open>One run of the function, row by row.\<close>

definition sync_row :: "timestamp \<Rightarrow> job list \<Rightarrow> pipeline_run \<Rightarrow> pipeline_run" where
  "sync_row now js r =
     (if \<exists>j \<in> set js. j_status j = Running then
        (if r_status r \<noteq> Running \<or> r_started_at r = None
         then r\<lparr>r_status := Running, r_started_at := coalesce (r_started_at r) now\<rparr> else r)
      else if \<forall>j \<in> set js. terminal (j_status j) then
        r\<lparr>r_status := (if \<exists>j \<in> set js. j_status j = Failed then Failed else Success),
          r_completed_at := coalesce (r_completed_at r) now\<rparr>
      else r)"

lemma sync_runs:
  "pipeline_runs (sync_pipeline_run_status now i d) =
     update_where (\<lambda>r. r_id r = i) (sync_row now (run_jobs d i)) (pipeline_runs d)"
proof -
  let ?js = "run_jobs d i"
  consider (running) "\<exists>j \<in> set ?js. j_status j = Running"
    | (complete) "\<not> (\<exists>j \<in> set ?js. j_status j = Running)" "\<forall>j \<in> set ?js. terminal (j_status j)"
    | (waiting) "\<not> (\<exists>j \<in> set ?js. j_status j = Running)"
        "\<not> (\<forall>j \<in> set ?js. terminal (j_status j))"
    by blast
  then show ?thesis
  proof cases
    case running
    then show ?thesis
      by (simp add: sync_pipeline_run_status_def sync_row_def update_where_def)
  next
    case complete
    then have "\<forall>j \<in> set ?js. j_status j \<noteq> Running" by blast
    with complete show ?thesis
      by (simp add: sync_pipeline_run_status_def sync_row_def update_where_def)
  next
    case waiting
    then have *: "sync_row now ?js r = r" for r
      by (simp only: sync_row_def if_False)
    from waiting show ?thesis
      unfolding sync_pipeline_run_status_def * Let_def
      by (auto simp: update_where_def)
  qed
qed

lemma sync_row_id [simp]: "r_id (sync_row now js r) = r_id r"
  by (simp add: sync_row_def)

lemma sync_row_pipeline [simp]: "r_pipeline_id (sync_row now js r) = r_pipeline_id r"
  by (simp add: sync_row_def)

lemma sync_row_created [simp]: "r_created_at (sync_row now js r) = r_created_at r"
  by (simp add: sync_row_def)

lemma sync_row_synced: "run_synced js (sync_row now js r)"
proof (cases "\<exists>j \<in> set js. j_status j = Running")
  case True
  then obtain j where "j \<in> set js" "\<not> terminal (j_status j)" by force
  with True show ?thesis by (auto simp: run_synced_def sync_row_def)
next
  case False
  then show ?thesis by (auto simp: run_synced_def sync_row_def)
qed

lemma sync_keeps_run_ids: "map r_id (pipeline_runs (sync_pipeline_run_status now i d)) =
    map r_id (pipeline_runs d)"
  by (simp add: sync_runs map_update_where)

lemma fire_keeps_run_ids [frame_simps]:
  "map r_id (pipeline_runs (fire_run_trigger now is d)) = map r_id (pipeline_runs d)"
proof -
  have "map r_id (pipeline_runs (fold (sync_pipeline_run_status now) is d)) =
      map r_id (pipeline_runs d)"
    by (induction "is" arbitrary: d) (simp_all add: sync_keeps_run_ids)
  then show ?thesis by (simp add: fire_run_trigger_def)
qed

lemma fire_keeps_run_pipelines [frame_simps]:
  "map r_pipeline_id (pipeline_runs (fire_run_trigger now is d)) =
     map r_pipeline_id (pipeline_runs d)"
proof -
  have "map r_pipeline_id (pipeline_runs (fold (sync_pipeline_run_status now) is d)) =
      map r_pipeline_id (pipeline_runs d)"
    by (induction "is" arbitrary: d) (simp_all add: sync_runs map_update_where)
  then show ?thesis by (simp add: fire_run_trigger_def)
qed

text \<open>Firing for a list of runs synchronises these and keeps the others.\<close>

lemma fold_sync_synced:
  assumes "\<And>r. r \<in> set (pipeline_runs d) \<Longrightarrow> r_id r \<notin> S \<Longrightarrow> run_synced (run_jobs d (r_id r)) r"
    and "r \<in> set (pipeline_runs (fold (sync_pipeline_run_status now) is d))"
    and "r_id r \<notin> S - set is"
  shows "run_synced (run_jobs d (r_id r)) r"
  using assms
proof (induction "is" arbitrary: d S)
  case Nil
  then show ?case by auto
next
  case (Cons i "is")
  let ?d = "sync_pipeline_run_status now i d"
  have rj: "run_jobs ?d k = run_jobs d k" for k
    by (simp add: frame_simps)
  have "run_synced (run_jobs ?d (r_id r)) r"
  proof (rule Cons.IH[where S = "S - {i}"])
    fix r assume r: "r \<in> set (pipeline_runs ?d)" "r_id r \<notin> S - {i}"
    from r(1)[unfolded sync_runs] show "run_synced (run_jobs ?d (r_id r)) r"
    proof (cases rule: in_update_whereE)
      case 1
      with r(2) Cons.prems(1) show ?thesis by (auto simp: rj)
    next
      case (2 r0)
      then show ?thesis by (auto simp: rj sync_row_synced)
    qed
  next
    show "r \<in> set (pipeline_runs (fold (sync_pipeline_run_status now) is ?d))"
      using Cons.prems(2) by simp
    show "r_id r \<notin> S - {i} - set is"
      using Cons.prems(3) by auto
  qed
  then show ?case by (simp add: rj)
qed

text \<open>
  The use the job queue makes of it: a statement that changed the jobs of the runs
  \<open>is\<close> only, on a database whose runs were in step, leaves every run in step.
\<close>

lemma fire_run_trigger_synced:
  assumes trig: "run_trigger d'" and old: "all_runs_synced d"
    and runs: "pipeline_runs d' = pipeline_runs d"
    and same: "\<And>k. k \<notin> set is \<Longrightarrow> run_jobs d' k = run_jobs d k"
  shows "all_runs_synced (fire_run_trigger now is d')"
  unfolding all_runs_synced_def
proof
  fix r assume r: "r \<in> set (pipeline_runs (fire_run_trigger now is d'))"
  have "run_synced (run_jobs d' (r_id r)) r"
  proof (rule fold_sync_synced[where S = "set is"])
    show "r \<in> set (pipeline_runs (fold (sync_pipeline_run_status now) is d'))"
      using r trig by (simp add: fire_run_trigger_def)
    show "r_id r \<notin> set is - set is" by simp
    fix s assume "s \<in> set (pipeline_runs d')" "r_id s \<notin> set is"
    with old runs same show "run_synced (run_jobs d' (r_id s)) s"
      by (simp add: all_runs_synced_def)
  qed
  then show "run_synced (run_jobs (fire_run_trigger now is d') (r_id r)) r"
    by (simp add: frame_simps)
qed

text \<open>The trigger leaves the rows of the other runs alone.\<close>

lemma sync_run_of_other:
  assumes "r_id r \<noteq> i"
  shows "r \<in> set (pipeline_runs (sync_pipeline_run_status now i d)) \<longleftrightarrow>
    r \<in> set (pipeline_runs d)"
proof
  assume "r \<in> set (pipeline_runs (sync_pipeline_run_status now i d))"
  then show "r \<in> set (pipeline_runs d)"
    unfolding sync_runs by (cases rule: in_update_whereE) (use assms in auto)
next
  assume "r \<in> set (pipeline_runs d)"
  with assms show "r \<in> set (pipeline_runs (sync_pipeline_run_status now i d))"
    unfolding sync_runs set_update_where by (intro image_eqI[where x = r]) simp_all
qed

lemma fire_run_of_other:
  assumes "r_id r \<notin> set is"
  shows "r \<in> set (pipeline_runs (fire_run_trigger now is d)) \<longleftrightarrow> r \<in> set (pipeline_runs d)"
proof -
  have "r \<in> set (pipeline_runs (fold (sync_pipeline_run_status now) is d)) \<longleftrightarrow>
      r \<in> set (pipeline_runs d)"
    using assms
  proof (induction "is" arbitrary: d)
    case Nil
    then show ?case by simp
  next
    case (Cons i "is")
    then show ?case by (simp add: sync_run_of_other)
  qed
  then show ?thesis by (simp add: fire_run_trigger_def)
qed

end
