(* ===== verification/ClaimQueue.thy ===== *)
theory ClaimQueue
  imports Prelude
begin

text \<open>
  The claim statement both queues of the program are built on,
  \<^verbatim>\<open>UPDATE t SET ... WHERE id = (SELECT id FROM t WHERE ready ORDER BY rank
  FOR UPDATE SKIP LOCKED LIMIT 1) RETURNING ...\<close>,
  and its contract as a locale: what the rows must satisfy (\<open>claim_queue\<close>) and what a
  claim, and a sequence of claims by any number of workers, then guarantees.  The parameter
  \<open>c\<close> is the context of one claim (who claims, at which time).
\<close>

text \<open>
  The subquery: the first row in the ORDER BY that is ready and that no other session has
  locked.
\<close>

definition pick_row ::
  "('r \<Rightarrow> 'i) \<Rightarrow> ('c \<Rightarrow> 'r list \<Rightarrow> 'r \<Rightarrow> bool) \<Rightarrow> ('r \<Rightarrow> 'k::linorder) \<Rightarrow>
     'i set \<Rightarrow> 'c \<Rightarrow> 'r list \<Rightarrow> 'r option" where
  "pick_row ident ready rank locked c rows =
     first_min rank (filter (\<lambda>r. ready c rows r \<and> ident r \<notin> locked) rows)"

text \<open>The whole statement: the returned rows and the table after it.\<close>

definition claim_row ::
  "('r \<Rightarrow> 'i) \<Rightarrow> ('c \<Rightarrow> 'r list \<Rightarrow> 'r \<Rightarrow> bool) \<Rightarrow> ('r \<Rightarrow> 'k::linorder) \<Rightarrow> ('c \<Rightarrow> 'r \<Rightarrow> 'r) \<Rightarrow>
     'i set \<Rightarrow> 'c \<Rightarrow> 'r list \<Rightarrow> 'r list \<times> 'r list" where
  "claim_row ident ready rank take_row locked c rows =
     (case pick_row ident ready rank locked c rows of
        None \<Rightarrow> ([], rows)
      | Some r \<Rightarrow>
          (map (take_row c) (filter (\<lambda>x. ident x = ident r) rows),
           update_where (\<lambda>x. ident x = ident r) (take_row c) rows))"

text \<open>Claims in sequence, each with its own locked rows and context: the ids handed out.\<close>

fun claim_many ::
  "('r \<Rightarrow> 'i) \<Rightarrow> ('c \<Rightarrow> 'r list \<Rightarrow> 'r \<Rightarrow> bool) \<Rightarrow> ('r \<Rightarrow> 'k::linorder) \<Rightarrow> ('c \<Rightarrow> 'r \<Rightarrow> 'r) \<Rightarrow>
     ('i set \<times> 'c) list \<Rightarrow> 'r list \<Rightarrow> 'i list" where
  "claim_many ident ready rank take_row [] rows = []"
| "claim_many ident ready rank take_row ((locked, c) # cs) rows =
     (case claim_row ident ready rank take_row locked c rows of
        (got, rows') \<Rightarrow> map ident got @ claim_many ident ready rank take_row cs rows')"

lemma pick_row_Some:
  assumes "pick_row ident ready rank locked c rows = Some r"
  shows "r \<in> set rows" "ready c rows r" "ident r \<notin> locked"
    and "\<And>x. x \<in> set rows \<Longrightarrow> ready c rows x \<Longrightarrow> ident x \<notin> locked \<Longrightarrow> rank r \<le> rank x"
proof -
  let ?P = "\<lambda>r. ready c rows r \<and> ident r \<notin> locked"
  have m: "first_min rank (filter ?P rows) = Some r"
    using assms by (simp add: pick_row_def)
  from first_min_in[OF m] show "r \<in> set rows" "ready c rows r" "ident r \<notin> locked" by auto
  fix x assume "x \<in> set rows" "ready c rows x" "ident x \<notin> locked"
  then show "rank r \<le> rank x" using first_min_le[OF m, of x] by simp
qed

lemma pick_row_None_iff:
  "pick_row ident ready rank locked c rows = None \<longleftrightarrow>
     (\<forall>x \<in> set rows. ready c rows x \<longrightarrow> ident x \<in> locked)"
  by (auto simp: pick_row_def filter_empty_conv)

locale claim_queue = keyed_rows ident for ident :: "'r \<Rightarrow> 'i" +
  fixes ready :: "'c \<Rightarrow> 'r list \<Rightarrow> 'r \<Rightarrow> bool"
    and rank :: "'r \<Rightarrow> 'k::linorder"
    and take_row :: "'c \<Rightarrow> 'r \<Rightarrow> 'r"
    and taken :: "'r \<Rightarrow> bool"
  assumes ident_take: "ident (take_row c r) = ident r"
    and taken_take: "taken (take_row c r)"
    and taken_not_ready: "taken r \<Longrightarrow> \<not> ready c rows r"
begin

lemma claim_keeps_idents:
  "claim_row ident ready rank take_row locked c rows = (got, rows') \<Longrightarrow>
     map ident rows' = map ident rows"
  by (auto simp: claim_row_def ident_take map_update_where split: option.splits)

lemma claim_outcome:
  assumes "distinct (map ident rows)"
    and "claim_row ident ready rank take_row locked c rows = (got, rows')"
  shows "(got = [] \<and> rows' = rows \<and> (\<forall>x \<in> set rows. ready c rows x \<longrightarrow> ident x \<in> locked)) \<or>
    (\<exists>r. r \<in> set rows \<and> ready c rows r \<and> ident r \<notin> locked \<and>
       (\<forall>x \<in> set rows. ready c rows x \<longrightarrow> ident x \<notin> locked \<longrightarrow> rank r \<le> rank x) \<and>
       got = [take_row c r] \<and>
       rows' = update_where (\<lambda>x. ident x = ident r) (take_row c) rows \<and>
       set rows' = insert (take_row c r) (set rows - {r}))"
proof (cases "pick_row ident ready rank locked c rows")
  case None
  with assms(2) show ?thesis
    using pick_row_None_iff[of ident ready rank locked c rows] by (auto simp: claim_row_def)
next
  case (Some r)
  note r = pick_row_Some[OF Some]
  have "filter (\<lambda>x. ident x = ident r) rows = [r]"
    by (rule filter_key[OF assms(1) r(1)])
  with assms(2) Some r update_key[OF assms(1) r(1)] show ?thesis
    by (auto simp: claim_row_def)
qed

lemma taken_stays:
  assumes "claim_row ident ready rank take_row locked c rows = (got, rows')"
    and "\<forall>r \<in> set rows. ident r \<in> T \<longrightarrow> taken r"
  shows "\<forall>r \<in> set rows'. ident r \<in> T \<union> set (map ident got) \<longrightarrow> taken r"
proof (cases "pick_row ident ready rank locked c rows")
  case None
  with assms show ?thesis by (simp add: claim_row_def)
next
  case (Some r)
  with assms show ?thesis
    by (auto simp: claim_row_def set_update_where ident_take taken_take)
qed

lemma claim_not_taken:
  assumes "distinct (map ident rows)"
    and "claim_row ident ready rank take_row locked c rows = (got, rows')"
    and "\<forall>r \<in> set rows. ident r \<in> T \<longrightarrow> taken r"
  shows "set (map ident got) \<inter> T = {}" "distinct (map ident got)"
  using claim_outcome[OF assms(1,2)] assms(3) taken_not_ready by (auto simp: ident_take)

lemma claim_many_distinct_aux:
  assumes "distinct (map ident rows)" "\<forall>r \<in> set rows. ident r \<in> T \<longrightarrow> taken r"
  shows "distinct (claim_many ident ready rank take_row cs rows) \<and>
    set (claim_many ident ready rank take_row cs rows) \<inter> T = {}"
  using assms
proof (induction cs arbitrary: rows T)
  case Nil
  then show ?case by simp
next
  case (Cons lc cs)
  obtain locked c where lc: "lc = (locked, c)" by fastforce
  obtain got rows' where g: "claim_row ident ready rank take_row locked c rows = (got, rows')"
    by fastforce
  have d: "distinct (map ident rows')"
    using claim_keeps_idents[OF g] Cons.prems(1) by simp
  from Cons.IH[OF d taken_stays[OF g Cons.prems(2)]]
    claim_not_taken[OF Cons.prems(1) g Cons.prems(2)]
  show ?case by (auto simp: lc g)
qed

text \<open>However many workers claim, in whatever order: no row is handed out twice.\<close>

lemma claim_many_distinct:
  "distinct (map ident rows) \<Longrightarrow> distinct (claim_many ident ready rank take_row cs rows)"
  using claim_many_distinct_aux[of rows "{}"] by blast

end

end
