(* ===== verification/JobQueue.thy ===== *)
theory JobQueue
  imports RunStatus ClaimQueue
begin

text \<open>
  \<open>JobQueueService\<close> (src/src/queue/job-queue.service.ts): the SQL statement of each method
  as a function on the database, and the method around it as an action.

  Two libraries the methods call are parameters.  \<open>sh\<close> is what TypeORM's
  \<open>dataSource.query\<close> makes of the rows an UPDATE ... RETURNING returns: \<open>plain_rows\<close>, the
  array of the rows the method reads, or \<open>rows_and_count\<close>, the pair of that array and the
  number of affected rows.  \<open>pg_driver\<close> is how the driver turns a JavaScript value into a
  column value.
\<close>

section \<open>Order of claims\<close>

text \<open>ORDER BY j.stage_order, j.step_order, j.priority DESC, j.created_at ASC\<close>

datatype claim_rank = Claim_Rank (rank_stage: int) (rank_step: int) (rank_priority: int)
    (rank_created: int)

instantiation claim_rank :: linorder
begin

definition less_claim_rank :: "claim_rank \<Rightarrow> claim_rank \<Rightarrow> bool" where
  "less_claim_rank x y \<longleftrightarrow>
     rank_stage x < rank_stage y \<or> rank_stage x = rank_stage y \<and>
     (rank_step x < rank_step y \<or> rank_step x = rank_step y \<and>
     (rank_priority y < rank_priority x \<or> rank_priority x = rank_priority y \<and>
      rank_created x < rank_created y))"

definition less_eq_claim_rank :: "claim_rank \<Rightarrow> claim_rank \<Rightarrow> bool" where
  "less_eq_claim_rank x y \<longleftrightarrow> x < y \<or> x = (y :: claim_rank)"

instance
proof
  fix x y z :: claim_rank
  show "x < y \<longleftrightarrow> x \<le> y \<and> \<not> y \<le> x"
    by (auto simp: less_claim_rank_def less_eq_claim_rank_def)
  show "x \<le> x" by (simp add: less_eq_claim_rank_def)
  show "x \<le> z" if "x \<le> y" "y \<le> z"
    using that by (auto simp: less_claim_rank_def less_eq_claim_rank_def)
  show "x = y" if "x \<le> y" "y \<le> x"
    using that by (auto simp: less_claim_rank_def less_eq_claim_rank_def)
  show "x \<le> y \<or> y \<le> x"
    by (cases x; cases y) (auto simp: less_claim_rank_def less_eq_claim_rank_def)
qed

end

definition claim_rank_of :: "job \<Rightarrow> claim_rank" where
  "claim_rank_of j = Claim_Rank (j_stage_order j) (j_step_order j) (j_priority j) (j_created_at j)"

text \<open>The row comparison (prev.stage_order, prev.step_order) < (j.stage_order, j.step_order).\<close>

definition earlier_step :: "job \<Rightarrow> job \<Rightarrow> bool" where
  "earlier_step prev j \<longleftrightarrow>
     j_stage_order prev < j_stage_order j \<or>
     j_stage_order prev = j_stage_order j \<and> j_step_order prev < j_step_order j"

text \<open>
  The WHERE clause of the subquery: the job is pending and no earlier job of its run is
  still open.  The context of a claim is the worker and the time.
\<close>

definition claimable :: "ustring \<times> timestamp \<Rightarrow> job list \<Rightarrow> job \<Rightarrow> bool" where
  "claimable c rows j \<longleftrightarrow>
     j_status j = Pending \<and>
     \<not> (\<exists>prev \<in> set rows. j_pipeline_run_id prev = j_pipeline_run_id j \<and>
          earlier_step prev j \<and> \<not> terminal (j_status prev))"

section \<open>The SET clauses\<close>

fun claim_set :: "ustring \<times> timestamp \<Rightarrow> job \<Rightarrow> job" where
  "claim_set (workerId, now) j =
     j\<lparr>j_claimed_by := Some workerId, j_claimed_at := Some now, j_heartbeat_at := Some now,
       j_started_at := Some now, j_status := Running\<rparr>"

definition heartbeat_set :: "timestamp \<Rightarrow> job \<Rightarrow> job" where
  "heartbeat_set now j = j\<lparr>j_heartbeat_at := Some now\<rparr>"

definition completed_set :: "int \<Rightarrow> timestamp \<Rightarrow> job \<Rightarrow> job" where
  "completed_set exitCode now j =
     j\<lparr>j_status := Success, j_exit_code := Some exitCode, j_completed_at := Some now\<rparr>"

definition failed_set :: "int \<Rightarrow> job \<Rightarrow> job" where
  "failed_set exitCode j =
     j\<lparr>j_status := (if j_retry_count j + 1 \<ge> j_max_retries j then Failed else Pending),
       j_retry_count := j_retry_count j + 1,
       j_exit_code := Some exitCode,
       j_claimed_by := None,
       j_claimed_at := None\<rparr>"

definition reclaim_set :: "job \<Rightarrow> job" where
  "reclaim_set j =
     j\<lparr>j_status := Pending, j_claimed_by := None, j_claimed_at := None,
       j_retry_count := j_retry_count j + 1\<rparr>"

text \<open>The WHERE clause of the reclaim statement, for a timeout in seconds.\<close>

definition stuck :: "int \<Rightarrow> timestamp \<Rightarrow> job \<Rightarrow> bool" where
  "stuck timeoutSeconds now j \<longleftrightarrow>
     j_status j = Running \<and>
     null_less (j_heartbeat_at j) (now - seconds timeoutSeconds) \<and>
     j_retry_count j < j_max_retries j"

section \<open>The statements\<close>

text \<open>An UPDATE of jobs that sets the status column: the trigger runs for every row hit.\<close>

definition update_jobs :: "timestamp \<Rightarrow> (job \<Rightarrow> bool) \<Rightarrow> (job \<Rightarrow> job) \<Rightarrow> db \<Rightarrow> db" where
  "update_jobs now P f d =
     fire_run_trigger now (map j_pipeline_run_id (filter P (jobs d)))
       (d\<lparr>jobs := update_where P f (jobs d)\<rparr>)"

definition sql_insert_job ::
  "uuid \<Rightarrow> ustring \<Rightarrow> ustring \<Rightarrow> ustring \<Rightarrow> int \<Rightarrow> int \<Rightarrow> int \<Rightarrow> job stmt" where
  "sql_insert_job pipelineRunId stage stepName command priority stageOrder stepOrder now d =
     (if \<not> (fits_int4 priority \<and> fits_int4 stageOrder \<and> fits_int4 stepOrder) then Inl Out_Of_Range
      else if length stage > 100 \<or> length stepName > 255 then Inl String_Too_Long
      else if pipelineRunId \<notin> r_id ` set (pipeline_runs d) then Inl Foreign_Key_Violation
      else let j = \<lparr>j_id = next_uuid d, j_pipeline_run_id = pipelineRunId, j_stage = stage,
                j_stage_order = stageOrder, j_step_name = stepName, j_step_order = stepOrder,
                j_command = command, j_status = Pending, j_priority = priority,
                j_claimed_by = None, j_claimed_at = None, j_heartbeat_at = None,
                j_retry_count = 0, j_max_retries = 3, j_exit_code = None,
                j_started_at = None, j_completed_at = None, j_created_at = now\<rparr>
           in Inr (j, fire_run_trigger now [pipelineRunId]
                (d\<lparr>jobs := jobs d @ [j], next_uuid := next_uuid d + 1\<rparr>)))"

text \<open>claimed_by is a varchar(100): a longer worker id fails the statement on a hit.\<close>

definition sql_claim_next_job :: "ustring \<Rightarrow> job list stmt" where
  "sql_claim_next_job workerId now d =
     (case claim_row j_id claimable claim_rank_of claim_set (row_locks d) (workerId, now) (jobs d)
      of (got, rows) \<Rightarrow>
        (if got \<noteq> [] \<and> length workerId > 100 then Inl String_Too_Long
         else Inr (got, fire_run_trigger now (map j_pipeline_run_id got) (d\<lparr>jobs := rows\<rparr>))))"

text \<open>A parameter that is null equals nothing.\<close>

definition is_row :: "uuid option \<Rightarrow> uuid \<Rightarrow> bool" where
  "is_row p i \<longleftrightarrow> p = Some i"

definition sql_update_heartbeat :: "uuid option \<Rightarrow> unit stmt" where
  "sql_update_heartbeat jobId now d =
     Inr ((), d\<lparr>jobs := update_where (\<lambda>j. is_row jobId (j_id j)) (heartbeat_set now) (jobs d)\<rparr>)"

definition sql_mark_completed :: "uuid option \<Rightarrow> int \<Rightarrow> unit stmt" where
  "sql_mark_completed jobId exitCode now d =
     Inr ((), update_jobs now (\<lambda>j. is_row jobId (j_id j)) (completed_set exitCode now) d)"

definition sql_mark_failed :: "uuid option \<Rightarrow> int \<Rightarrow> unit stmt" where
  "sql_mark_failed jobId exitCode now d =
     Inr ((), update_jobs now (\<lambda>j. is_row jobId (j_id j)) (failed_set exitCode) d)"

definition sql_reclaim_stuck_jobs :: "int \<Rightarrow> unit stmt" where
  "sql_reclaim_stuck_jobs timeoutSeconds now d =
     Inr ((), update_jobs now (stuck timeoutSeconds now) reclaim_set d)"

section \<open>The methods\<close>

text \<open>
  The job as the worker receives it: the fields it reads, each undefined when the object
  does not have it.
\<close>

record job_object =
  jo_id :: "uuid option"
  jo_pipeline_run_id :: "uuid option"
  jo_command :: ustring
  jo_stage :: ustring

text \<open>
  \<open>normalizeJobRow\<close>: the spread copies the columns of a row; an array or a number has no
  property id, command or stage (the upper-case spellings exist nowhere).
\<close>

fun normalizeJobRow :: "job cell \<Rightarrow> job_object" where
  "normalizeJobRow (Row j) =
     \<lparr>jo_id = Some (j_id j), jo_pipeline_run_id = Some (j_pipeline_run_id j),
      jo_command = j_command j, jo_stage = j_stage j\<rparr>"
| "normalizeJobRow _ = \<lparr>jo_id = None, jo_pipeline_run_id = None, jo_command = [], jo_stage = []\<rparr>"

definition claimNextJob :: "job shape \<Rightarrow> ustring \<Rightarrow> job_object option act" where
  "claimNextJob sh workerId =
     seq (query (sql_claim_next_job workerId)) (\<lambda>rows.
       ret (map_option normalizeJobRow (first_cell (sh rows))))"

definition updateHeartbeat :: "uuid option \<Rightarrow> unit act" where
  "updateHeartbeat jobId = query (sql_update_heartbeat jobId)"

definition markCompleted :: "uuid option \<Rightarrow> int \<Rightarrow> unit act" where
  "markCompleted jobId exitCode = query (sql_mark_completed jobId exitCode)"

definition markFailed :: "uuid option \<Rightarrow> int \<Rightarrow> unit act" where
  "markFailed jobId exitCode = query (sql_mark_failed jobId exitCode)"

definition reclaimStuckJobs :: "int \<Rightarrow> unit act" where
  "reclaimStuckJobs timeoutSeconds = query (sql_reclaim_stuck_jobs timeoutSeconds)"

text \<open>
  The driver: \<open>text_of\<close> is the text a non-null value is sent as, \<open>int_of\<close> the integer the
  server reads from it, if it is one.
\<close>

record pg_driver =
  text_of :: "json \<Rightarrow> ustring"
  int_of :: "json \<Rightarrow> int option"

text \<open>What the driver documents of strings and numbers.\<close>

definition driver_ok :: "pg_driver \<Rightarrow> bool" where
  "driver_ok b \<longleftrightarrow> (\<forall>s. text_of b (JStr s) = s) \<and> (\<forall>n. fits_int4 n \<longrightarrow> int_of b (JNum n) = Some n)"

text \<open>A value bound to a NOT NULL column: undefined and null are sent as NULL.\<close>

fun bind_text :: "pg_driver \<Rightarrow> json option \<Rightarrow> db_error + ustring" where
  "bind_text b None = Inl Not_Null_Violation"
| "bind_text b (Some JNull) = Inl Not_Null_Violation"
| "bind_text b (Some v) = Inr (text_of b v)"

fun bind_int :: "pg_driver \<Rightarrow> json option \<Rightarrow> db_error + int" where
  "bind_int b None = Inl Not_Null_Violation"
| "bind_int b (Some JNull) = Inl Not_Null_Violation"
| "bind_int b (Some v) = (case int_of b v of
     None \<Rightarrow> Inl Invalid_Input
   | Some n \<Rightarrow> Inr n)"

definition insertNewJob ::
  "pg_driver \<Rightarrow> uuid \<Rightarrow> json option \<Rightarrow> json option \<Rightarrow> json option \<Rightarrow> json option \<Rightarrow> int \<Rightarrow> int \<Rightarrow>
     job act" where
  "insertNewJob b pipelineRunId stage stepName command priority stageOrder stepOrder =
     query (\<lambda>now d.
       case bind_text b stage of Inl e \<Rightarrow> Inl e | Inr st \<Rightarrow>
       case bind_text b stepName of Inl e \<Rightarrow> Inl e | Inr sn \<Rightarrow>
       case bind_text b command of Inl e \<Rightarrow> Inl e | Inr cmd \<Rightarrow>
       case bind_int b priority of Inl e \<Rightarrow> Inl e | Inr p \<Rightarrow>
         sql_insert_job pipelineRunId st sn cmd p stageOrder stepOrder now d)"

end
