(* ===== verification/JobFacts.thy ===== *)
theory JobFacts
  imports JobQueue
begin

text \<open>
  Facts about the statements of \<open>JobQueueService\<close> that the later theories share: the
  interpretations of the two contracts on the jobs table, what each statement leaves alone,
  the well-formedness of a job row (\<open>job_ok\<close>) and of the tables (\<open>jobs_inv\<close>), which every
  statement keeps, and the run status kept in step (\<open>all_runs_synced\<close>).
\<close>

section \<open>The contracts\<close>

interpretation jq: claim_queue j_id claimable claim_rank_of claim_set "\<lambda>j. j_status j \<noteq> Pending"
  by unfold_locales (auto simp: claimable_def)

interpretation jr: retry_counter j_retry_count j_max_retries
    "\<lambda>j. j_status j = Failed" "\<lambda>j. j_status j = Pending" failed_set
  by unfold_locales (auto simp: failed_set_def)

declare claim_set.simps [simp del]

lemma set_clause_ids [simp]:
  "j_id (claim_set c j) = j_id j" "j_id (heartbeat_set now j) = j_id j"
  "j_id (completed_set e now j) = j_id j" "j_id (failed_set e j) = j_id j"
  "j_id (reclaim_set j) = j_id j"
  by (cases c; simp add: claim_set.simps heartbeat_set_def completed_set_def failed_set_def reclaim_set_def)+

lemma set_clause_runs [simp]:
  "j_pipeline_run_id (claim_set c j) = j_pipeline_run_id j"
  "j_pipeline_run_id (heartbeat_set now j) = j_pipeline_run_id j"
  "j_pipeline_run_id (completed_set e now j) = j_pipeline_run_id j"
  "j_pipeline_run_id (failed_set e j) = j_pipeline_run_id j"
  "j_pipeline_run_id (reclaim_set j) = j_pipeline_run_id j"
  by (cases c; simp add: claim_set.simps heartbeat_set_def completed_set_def failed_set_def reclaim_set_def)+

lemma set_clause_orders [simp]:
  "j_stage_order (claim_set c j) = j_stage_order j"
  "j_stage_order (heartbeat_set now j) = j_stage_order j"
  "j_stage_order (completed_set e now j) = j_stage_order j"
  "j_stage_order (failed_set e j) = j_stage_order j"
  "j_stage_order (reclaim_set j) = j_stage_order j"
  "j_step_order (claim_set c j) = j_step_order j"
  "j_step_order (heartbeat_set now j) = j_step_order j"
  "j_step_order (completed_set e now j) = j_step_order j"
  "j_step_order (failed_set e j) = j_step_order j"
  "j_step_order (reclaim_set j) = j_step_order j"
  by (cases c; simp add: claim_set.simps heartbeat_set_def completed_set_def failed_set_def reclaim_set_def)+

lemma set_clause_status [simp]:
  "j_status (claim_set c j) = Running"
  "j_status (heartbeat_set now j) = j_status j"
  "j_status (completed_set e now j) = Success"
  "j_status (reclaim_set j) = Pending"
  by (cases c; simp add: claim_set.simps heartbeat_set_def completed_set_def reclaim_set_def)+

lemma earlier_step_set [simp]:
  "earlier_step (claim_set c j) k = earlier_step j k"
  "earlier_step k (claim_set c j) = earlier_step k j"
  by (simp_all add: earlier_step_def)

lemma earlier_step_irrefl [simp]: "\<not> earlier_step j j"
  by (simp add: earlier_step_def)

section \<open>Frames\<close>

lemma update_jobs_frame [frame_simps]:
  "jobs (update_jobs now P f d) = update_where P f (jobs d)"
  "pipelines (update_jobs now P f d) = pipelines d"
  "job_logs (update_jobs now P f d) = job_logs d"
  "deployment_locks (update_jobs now P f d) = deployment_locks d"
  "webhooks_outbox (update_jobs now P f d) = webhooks_outbox d"
  "next_uuid (update_jobs now P f d) = next_uuid d"
  "row_locks (update_jobs now P f d) = row_locks d"
  "advisory (update_jobs now P f d) = advisory d"
  "run_trigger (update_jobs now P f d) = run_trigger d"
  "log_trigger (update_jobs now P f d) = log_trigger d"
  "map r_id (pipeline_runs (update_jobs now P f d)) = map r_id (pipeline_runs d)"
  by (simp_all add: update_jobs_def frame_simps)

lemma run_ids_set:
  "map r_id (pipeline_runs d') = map r_id (pipeline_runs d) \<Longrightarrow>
     r_id ` set (pipeline_runs d') = r_id ` set (pipeline_runs d)"
  by (metis set_map)

text \<open>The claim statement either does nothing or is an UPDATE of one picked row.\<close>

lemma claim_statement:
  assumes "sql_claim_next_job workerId now d = Inr (got, d')"
  shows "(pick_row j_id claimable claim_rank_of (row_locks d) (workerId, now) (jobs d) = None \<and>
       got = [] \<and> d' = d) \<or>
    (\<exists>j. pick_row j_id claimable claim_rank_of (row_locks d) (workerId, now) (jobs d) = Some j \<and>
       length workerId \<le> 100 \<and>
       got = map (claim_set (workerId, now)) (filter (\<lambda>x. j_id x = j_id j) (jobs d)) \<and>
       d' = update_jobs now (\<lambda>x. j_id x = j_id j) (claim_set (workerId, now)) d)"
proof (cases "pick_row j_id claimable claim_rank_of (row_locks d) (workerId, now) (jobs d)")
  case None
  with assms show ?thesis
    by (simp add: sql_claim_next_job_def claim_row_def)
next
  case (Some j)
  let ?hit = "filter (\<lambda>x. j_id x = j_id j) (jobs d)"
  from pick_row_Some(1)[OF Some] have ne: "?hit \<noteq> []"
    by (auto simp: filter_empty_conv)
  have runs: "map j_pipeline_run_id (map (claim_set (workerId, now)) ?hit) =
      map j_pipeline_run_id ?hit"
    by (simp add: comp_def)
  from assms Some ne show ?thesis
    unfolding sql_claim_next_job_def claim_row_def update_jobs_def option.case prod.case runs
    by (auto simp: comp_def split: if_splits)
qed

text \<open>On a table with a primary key it returns the picked row, alone.\<close>

lemma claim_statement_keyed:
  assumes "distinct (map j_id (jobs d))"
    and "sql_claim_next_job workerId now d = Inr (got, d')"
  obtains (none) "got = []" "d' = d"
      "\<And>x. x \<in> set (jobs d) \<Longrightarrow> claimable (workerId, now) (jobs d) x \<Longrightarrow> j_id x \<in> row_locks d"
  | (one) j where "j \<in> set (jobs d)" "claimable (workerId, now) (jobs d) j"
      "j_id j \<notin> row_locks d" "got = [claim_set (workerId, now) j]"
      "\<And>x. x \<in> set (jobs d) \<Longrightarrow> claimable (workerId, now) (jobs d) x \<Longrightarrow>
         j_id x \<notin> row_locks d \<Longrightarrow> claim_rank_of j \<le> claim_rank_of x"
      "d' = update_jobs now (\<lambda>x. j_id x = j_id j) (claim_set (workerId, now)) d"
      "set (jobs d') = insert (claim_set (workerId, now) j) (set (jobs d) - {j})"
proof -
  let ?c = "(workerId, now)"
  from claim_statement[OF assms(2)] show thesis
  proof (elim disjE exE conjE)
    assume n: "pick_row j_id claimable claim_rank_of (row_locks d) ?c (jobs d) = None"
      and g: "got = []" "d' = d"
    from n have "\<And>x. x \<in> set (jobs d) \<Longrightarrow> claimable ?c (jobs d) x \<Longrightarrow> j_id x \<in> row_locks d"
      unfolding pick_row_None_iff by blast
    with g show thesis by (rule none)
  next
    fix j assume p: "pick_row j_id claimable claim_rank_of (row_locks d) ?c (jobs d) = Some j"
      and g: "got = map (claim_set ?c) (filter (\<lambda>x. j_id x = j_id j) (jobs d))"
      and d': "d' = update_jobs now (\<lambda>x. j_id x = j_id j) (claim_set ?c) d"
    note j = pick_row_Some[OF p]
    have got: "got = [claim_set ?c j]"
      by (simp add: g job_rows.filter_key[OF assms(1) j(1)])
    have "set (jobs d') = insert (claim_set ?c j) (set (jobs d) - {j})"
      unfolding d' by (simp add: frame_simps job_rows.update_key[OF assms(1) j(1)])
    with j(1-3) got j(4) d' show thesis by (rule one)
  qed
qed

section \<open>Run status\<close>

lemma update_jobs_synced:
  assumes "run_trigger d" "all_runs_synced d"
    and run: "\<And>j. j_pipeline_run_id (f j) = j_pipeline_run_id j"
  shows "all_runs_synced (update_jobs now P f d)"
  unfolding update_jobs_def
proof (rule fire_run_trigger_synced[OF _ assms(2)])
  fix k assume k: "k \<notin> set (map j_pipeline_run_id (filter P (jobs d)))"
  have "run_jobs (d\<lparr>jobs := update_where P f (jobs d)\<rparr>) k =
      update_where P f (filter (\<lambda>j. j_pipeline_run_id j = k) (jobs d))"
    by (simp add: run_jobs_def filter_update_where run)
  also have "\<dots> = run_jobs d k"
    unfolding run_jobs_def using k by (intro update_where_id) auto
  finally show "run_jobs (d\<lparr>jobs := update_where P f (jobs d)\<rparr>) k = run_jobs d k" .
qed (use assms(1) in simp_all)

lemma claim_synced:
  assumes "sql_claim_next_job workerId now d = Inr (got, d')" "run_trigger d" "all_runs_synced d"
  shows "all_runs_synced d'"
  using claim_statement[OF assms(1)] update_jobs_synced[OF assms(2,3)] assms(3) by auto

lemma insert_synced:
  assumes "sql_insert_job rid st sn cmd p so sp now d = Inr (j, d')"
    and "run_trigger d" "all_runs_synced d"
  shows "all_runs_synced d'"
proof -
  from assms(1) have d': "d' = fire_run_trigger now [rid]
      (d\<lparr>jobs := jobs d @ [j], next_uuid := next_uuid d + 1\<rparr>)" and r: "j_pipeline_run_id j = rid"
    by (auto simp: sql_insert_job_def Let_def split: if_splits)
  show ?thesis
    unfolding d'
    by (rule fire_run_trigger_synced[OF _ assms(3)]) (use assms(2) r in \<open>auto simp: run_jobs_def\<close>)
qed

lemma heartbeat_run_synced:
  "run_synced (update_where P (heartbeat_set now) js) r = run_synced js r"
proof (rule run_synced_statuses)
  have "(\<lambda>j. j_status (if P j then heartbeat_set now j else j)) = j_status" by auto
  then show "j_status ` set (update_where P (heartbeat_set now) js) = j_status ` set js"
    by (simp only: set_update_where image_image)
qed

lemma heartbeat_synced:
  assumes "sql_update_heartbeat i now d = Inr (u, d')" "all_runs_synced d"
  shows "all_runs_synced d'"
proof -
  from assms(1) have d': "d' = d\<lparr>jobs :=
      update_where (\<lambda>j. is_row i (j_id j)) (heartbeat_set now) (jobs d)\<rparr>"
    by (simp add: sql_update_heartbeat_def)
  have "run_jobs d' k =
      update_where (\<lambda>j. is_row i (j_id j)) (heartbeat_set now) (run_jobs d k)" for k
    by (simp add: run_jobs_def d' filter_update_where)
  with assms(2) show ?thesis
    by (simp add: all_runs_synced_def d' heartbeat_run_synced)
qed

section \<open>Rows\<close>

text \<open>
  What each status says of the other columns: a running job has a worker and its
  timestamps, a waiting or failed job has no worker, a failed job has used up its retries
  and a waiting or running one has not passed them, a succeeded job has its completion.
  No statement of the program writes the status cancelled.
\<close>

definition job_ok :: "job \<Rightarrow> bool" where
  "job_ok j \<longleftrightarrow>
     j_max_retries j = 3 \<and> 0 \<le> j_retry_count j \<and>
     (case j_status j of
        Pending \<Rightarrow> j_claimed_by j = None \<and> j_claimed_at j = None \<and>
          j_retry_count j \<le> j_max_retries j
      | Running \<Rightarrow> j_claimed_by j \<noteq> None \<and> j_claimed_at j \<noteq> None \<and> j_heartbeat_at j \<noteq> None \<and>
          j_started_at j \<noteq> None \<and> j_retry_count j \<le> j_max_retries j
      | Success \<Rightarrow> j_completed_at j \<noteq> None \<and> j_exit_code j \<noteq> None
      | Failed \<Rightarrow> j_claimed_by j = None \<and> j_claimed_at j = None \<and> j_exit_code j \<noteq> None \<and>
          j_max_retries j \<le> j_retry_count j
      | Cancelled \<Rightarrow> False)"

lemma job_ok_claim: "job_ok j \<Longrightarrow> j_status j = Pending \<Longrightarrow> job_ok (claim_set c j)"
  by (cases c) (simp add: job_ok_def claim_set.simps)

lemma job_ok_heartbeat: "job_ok j \<Longrightarrow> job_ok (heartbeat_set now j)"
  by (auto simp: job_ok_def heartbeat_set_def split: run_status.splits)

lemma job_ok_completed: "job_ok j \<Longrightarrow> job_ok (completed_set e now j)"
  by (simp add: job_ok_def completed_set_def)

lemma job_ok_failed: "job_ok j \<Longrightarrow> job_ok (failed_set e j)"
  by (simp add: job_ok_def failed_set_def)

lemma job_ok_reclaim: "job_ok j \<Longrightarrow> stuck t now j \<Longrightarrow> job_ok (reclaim_set j)"
  by (simp add: job_ok_def reclaim_set_def stuck_def)

section \<open>Tables\<close>

text \<open>Primary keys are unique and below the generator, and every job has its run.\<close>

definition keys_ok :: "db \<Rightarrow> bool" where
  "keys_ok d \<longleftrightarrow>
     distinct (map j_id (jobs d)) \<and> (\<forall>j \<in> set (jobs d). j_id j < next_uuid d) \<and>
     distinct (map r_id (pipeline_runs d)) \<and>
     (\<forall>r \<in> set (pipeline_runs d). r_id r < next_uuid d) \<and>
     (\<forall>j \<in> set (jobs d). j_pipeline_run_id j \<in> r_id ` set (pipeline_runs d))"

definition jobs_inv :: "db \<Rightarrow> bool" where
  "jobs_inv d \<longleftrightarrow> keys_ok d \<and> (\<forall>j \<in> set (jobs d). job_ok j)"

lemma jobs_invD:
  assumes "jobs_inv d"
  shows "distinct (map j_id (jobs d))" "keys_ok d" "\<And>j. j \<in> set (jobs d) \<Longrightarrow> job_ok j"
  using assms by (auto simp: jobs_inv_def keys_ok_def)

lemma keys_ok_jobs_update:
  fixes f :: "job \<Rightarrow> job" and d d' :: db
  assumes "keys_ok d" "next_uuid d' = next_uuid d"
    and "map r_id (pipeline_runs d') = map r_id (pipeline_runs d)"
    and "jobs d' = update_where P f (jobs d)"
    and f: "\<And>j. j_id (f j) = j_id j" "\<And>j. j_pipeline_run_id (f j) = j_pipeline_run_id j"
  shows "keys_ok d'"
proof -
  have ids: "map j_id (jobs d') = map j_id (jobs d)"
    and runs: "map j_pipeline_run_id (jobs d') = map j_pipeline_run_id (jobs d)"
    by (simp_all add: assms(4) update_where_def f)
  have sets: "r_id ` set (pipeline_runs d') = r_id ` set (pipeline_runs d)"
    "j_id ` set (jobs d') = j_id ` set (jobs d)"
    "j_pipeline_run_id ` set (jobs d') = j_pipeline_run_id ` set (jobs d)"
    using assms(3) ids runs by (metis set_map)+
  have below: "(\<forall>x \<in> set xs. g x < n) = (\<forall>k \<in> g ` set xs. k < n)" for xs and g :: "'x \<Rightarrow> uuid" and n
    by simp
  have inside: "(\<forall>x \<in> set xs. g x \<in> K) = (g ` set xs \<subseteq> K)" for xs and g :: "'x \<Rightarrow> uuid" and K
    by blast
  show ?thesis
    using assms(1) unfolding keys_ok_def below inside assms(2) sets ids assms(3) .
qed

lemma jobs_inv_update:
  fixes f :: "job \<Rightarrow> job" and d d' :: db
  assumes "jobs_inv d" "next_uuid d' = next_uuid d"
    and "map r_id (pipeline_runs d') = map r_id (pipeline_runs d)"
    and "jobs d' = update_where P f (jobs d)"
    and "\<And>j. j_id (f j) = j_id j" "\<And>j. j_pipeline_run_id (f j) = j_pipeline_run_id j"
    and "\<And>j. j \<in> set (jobs d) \<Longrightarrow> job_ok j \<Longrightarrow> P j \<Longrightarrow> job_ok (f j)"
  shows "jobs_inv d'"
proof -
  from assms(1) have "keys_ok d" by (rule jobs_invD)
  then have "keys_ok d'" by (rule keys_ok_jobs_update[OF _ assms(2-6)])
  moreover have "job_ok j" if "j \<in> set (jobs d')" for j
    using that[unfolded assms(4)]
    by (cases rule: in_update_whereE) (use assms(1,7) in \<open>auto simp: jobs_inv_def\<close>)
  ultimately show ?thesis by (simp add: jobs_inv_def)
qed

lemma jobs_inv_update_jobs:
  assumes "jobs_inv d"
    and "\<And>j. j_id (f j) = j_id j" "\<And>j. j_pipeline_run_id (f j) = j_pipeline_run_id j"
    and "\<And>j. j \<in> set (jobs d) \<Longrightarrow> job_ok j \<Longrightarrow> P j \<Longrightarrow> job_ok (f j)"
  shows "jobs_inv (update_jobs now P f d)"
  by (rule jobs_inv_update[OF assms(1), where P = P and f = f]) (simp_all add: frame_simps assms)

lemma claim_jobs_inv:
  assumes "sql_claim_next_job workerId now d = Inr (got, d')" "jobs_inv d"
  shows "jobs_inv d'"
  using jobs_invD(1)[OF assms(2)] assms(1)
proof (cases rule: claim_statement_keyed)
  case none
  with assms show ?thesis by simp
next
  case (one j)
  show ?thesis
    unfolding one(6)
  proof (rule jobs_inv_update_jobs[OF assms(2)])
    fix x assume "x \<in> set (jobs d)" "job_ok x" "j_id x = j_id j"
    then have "x = j" "job_ok j"
      using job_rows.key_unique[OF jobs_invD(1)[OF assms(2)]] one(1) by blast+
    with one(2) show "job_ok (claim_set (workerId, now) x)"
      by (simp add: job_ok_claim claimable_def)
  qed simp_all
qed

lemma insert_jobs_inv:
  assumes "sql_insert_job rid st sn cmd p so sp now d = Inr (j, d')" "jobs_inv d"
  shows "jobs_inv d'"
proof -
  let ?d = "d\<lparr>jobs := jobs d @ [j], next_uuid := next_uuid d + 1\<rparr>"
  from assms(1) have d': "d' = fire_run_trigger now [rid] ?d" and ok: "job_ok j"
    and j: "j_id j = next_uuid d" "j_pipeline_run_id j \<in> r_id ` set (pipeline_runs d)"
    by (auto simp: sql_insert_job_def Let_def job_ok_def split: if_splits)
  have "keys_ok ?d"
    using jobs_invD(2)[OF assms(2)] j by (fastforce simp: keys_ok_def)
  then have "keys_ok (fire_run_trigger now [rid] ?d)"
    by (rule keys_ok_jobs_update[where P = "\<lambda>_. False" and f = id])
      (simp_all add: frame_simps table_simps)
  then show ?thesis
    using assms(2) ok by (auto simp: d' jobs_inv_def frame_simps)
qed

lemma heartbeat_jobs_inv:
  assumes "sql_update_heartbeat i now d = Inr (u, d')" "jobs_inv d"
  shows "jobs_inv d'"
  using assms(1)
  by (intro jobs_inv_update[OF assms(2), where P = "\<lambda>j. is_row i (j_id j)" and f = "heartbeat_set now"])
    (auto simp: sql_update_heartbeat_def job_ok_heartbeat)

lemma completed_jobs_inv:
  assumes "sql_mark_completed i e now d = Inr (u, d')" "jobs_inv d"
  shows "jobs_inv d'"
  using assms(1) jobs_inv_update_jobs[OF assms(2)]
  by (auto simp: sql_mark_completed_def job_ok_completed)

lemma failed_jobs_inv:
  assumes "sql_mark_failed i e now d = Inr (u, d')" "jobs_inv d"
  shows "jobs_inv d'"
  using assms(1) jobs_inv_update_jobs[OF assms(2)]
  by (auto simp: sql_mark_failed_def job_ok_failed)

lemma reclaim_jobs_inv:
  assumes "sql_reclaim_stuck_jobs t now d = Inr (u, d')" "jobs_inv d"
  shows "jobs_inv d'"
  using assms(1) jobs_inv_update_jobs[OF assms(2)]
  by (auto simp: sql_reclaim_stuck_jobs_def job_ok_reclaim)

lemmas statement_jobs_inv = claim_jobs_inv insert_jobs_inv heartbeat_jobs_inv
  completed_jobs_inv failed_jobs_inv reclaim_jobs_inv

lemma mark_synced:
  "sql_mark_completed i e now d = Inr (u, d') \<Longrightarrow> run_trigger d \<Longrightarrow> all_runs_synced d \<Longrightarrow>
     all_runs_synced d'"
  "sql_mark_failed i e now d = Inr (u, d') \<Longrightarrow> run_trigger d \<Longrightarrow> all_runs_synced d \<Longrightarrow>
     all_runs_synced d'"
  "sql_reclaim_stuck_jobs t now d = Inr (u, d') \<Longrightarrow> run_trigger d \<Longrightarrow> all_runs_synced d \<Longrightarrow>
     all_runs_synced d'"
  by (auto simp: sql_mark_completed_def sql_mark_failed_def sql_reclaim_stuck_jobs_def
        intro: update_jobs_synced)

lemmas statement_synced = claim_synced insert_synced heartbeat_synced mark_synced

end
