(* ===== verification/Heartbeat.thy ===== *)
theory Heartbeat
  imports JobFacts
begin

text \<open>
  \<open>HeartbeatService\<close> (src/src/worker/heartbeat.service.ts): the tick a worker sends while it
  runs a job, and the loop of every process that puts jobs with an old heartbeat back into
  the queue.  The timers of the process are the list \<open>intervals\<close> of active \<open>setInterval\<close>s.
\<close>

definition DEFAULT_TIMEOUT_SECONDS :: int where
  "DEFAULT_TIMEOUT_SECONDS = 30"

definition DEFAULT_RECLAIM_INTERVAL_MS :: int where
  "DEFAULT_RECLAIM_INTERVAL_MS = 15000"

definition tick :: "uuid option \<Rightarrow> unit act" where
  "tick jobId = updateHeartbeat jobId"

definition runReclaimOnce :: "int \<Rightarrow> unit act" where
  "runReclaimOnce timeoutSeconds = reclaimStuckJobs timeoutSeconds"

text \<open>An active interval: its handle, its period and the timeout its callback reclaims with.\<close>

record interval =
  handle :: nat
  interval_ms :: int
  timeout_seconds :: int

record heartbeat_service =
  reclaimTimer :: "nat option"
  intervals :: "interval list"
  next_handle :: nat

definition new_heartbeat_service :: heartbeat_service where
  "new_heartbeat_service = \<lparr>reclaimTimer = None, intervals = [], next_handle = 0\<rparr>"

definition stopReclaimLoop :: "heartbeat_service \<Rightarrow> heartbeat_service" where
  "stopReclaimLoop s = (case reclaimTimer s of
      None \<Rightarrow> s
    | Some h \<Rightarrow> s\<lparr>intervals := filter (\<lambda>i. handle i \<noteq> h) (intervals s), reclaimTimer := None\<rparr>)"

definition startReclaimLoop :: "int \<Rightarrow> int \<Rightarrow> heartbeat_service \<Rightarrow> heartbeat_service" where
  "startReclaimLoop intervalMs timeoutSeconds s0 =
     (let s = stopReclaimLoop s0; h = next_handle s
      in s\<lparr>intervals := intervals s @
             [\<lparr>handle = h, interval_ms = intervalMs, timeout_seconds = timeoutSeconds\<rparr>],
           reclaimTimer := Some h, next_handle := h + 1\<rparr>)"

definition heartbeatOnModuleInit :: "heartbeat_service \<Rightarrow> heartbeat_service" where
  "heartbeatOnModuleInit = startReclaimLoop DEFAULT_RECLAIM_INTERVAL_MS DEFAULT_TIMEOUT_SECONDS"

definition heartbeatOnModuleDestroy :: "heartbeat_service \<Rightarrow> heartbeat_service" where
  "heartbeatOnModuleDestroy s = stopReclaimLoop s"

text \<open>The callback of the interval.\<close>

definition reclaim_callback :: "interval \<Rightarrow> unit act" where
  "reclaim_callback i = ignore_error (runReclaimOnce (timeout_seconds i))"

section \<open>The loop\<close>

text \<open>At most one reclaim loop runs, and it is the one the service can stop.\<close>

definition timers_ok :: "heartbeat_service \<Rightarrow> bool" where
  "timers_ok s \<longleftrightarrow>
     (\<forall>i \<in> set (intervals s). handle i < next_handle s) \<and>
     map handle (intervals s) = (case reclaimTimer s of None \<Rightarrow> [] | Some h \<Rightarrow> [h])"

datatype timer_call = Start int int | Stop

fun timer_step :: "timer_call \<Rightarrow> heartbeat_service \<Rightarrow> heartbeat_service" where
  "timer_step (Start intervalMs timeoutSeconds) s = startReclaimLoop intervalMs timeoutSeconds s"
| "timer_step Stop s = stopReclaimLoop s"

lemma stop_timers_ok:
  assumes "timers_ok s"
  shows "timers_ok (stopReclaimLoop s)" "intervals (stopReclaimLoop s) = []"
    "reclaimTimer (stopReclaimLoop s) = None"
  using assms by (auto simp: timers_ok_def stopReclaimLoop_def filter_empty_conv map_eq_Cons_conv
      split: option.splits)

lemma start_timers_ok: "timers_ok s \<Longrightarrow> timers_ok (startReclaimLoop ms t s)"
  using stop_timers_ok[of s]
  by (simp add: startReclaimLoop_def Let_def timers_ok_def)

lemma timer_step_ok: "timers_ok s \<Longrightarrow> timers_ok (timer_step c s)"
  by (cases c) (simp_all add: start_timers_ok stop_timers_ok)

text \<open>
  Whatever sequence of starts and stops, at most one reclaim loop is active,
  and after a stop none is.
\<close>

theorem single_reclaim_loop:
  "length (intervals (fold timer_step cs new_heartbeat_service)) \<le> 1 \<and>
   intervals (stopReclaimLoop (fold timer_step cs new_heartbeat_service)) = []"
proof -
  have "timers_ok (fold timer_step cs s)" if "timers_ok s" for s
    using that by (induction cs arbitrary: s) (simp_all add: timer_step_ok)
  moreover have "timers_ok new_heartbeat_service"
    by (simp add: timers_ok_def new_heartbeat_service_def)
  ultimately have ok: "timers_ok (fold timer_step cs new_heartbeat_service)" by blast
  then have "length (map handle (intervals (fold timer_step cs new_heartbeat_service))) \<le> 1"
    unfolding timers_ok_def by (auto split: option.splits)
  with stop_timers_ok(2)[OF ok] show ?thesis by simp
qed

section \<open>A beating job is not reclaimed\<close>

text \<open>
  Ticks and reclaims as they reach the database, each at its time; \<open>beats_in_time i latest\<close>:
  at every reclaim, the latest tick of job \<open>i\<close> (the first of them at time \<open>latest\<close>) is at most
  the timeout ago.
\<close>

datatype beat = Beat uuid | Reclaim

fun beat_step :: "timestamp \<times> beat \<Rightarrow> db \<Rightarrow> db" where
  "beat_step (now, Beat k) d =
     (case sql_update_heartbeat (Some k) now d of Inr (_, d') \<Rightarrow> d' | Inl _ \<Rightarrow> d)"
| "beat_step (now, Reclaim) d =
     (case sql_reclaim_stuck_jobs DEFAULT_TIMEOUT_SECONDS now d of
        Inr (_, d') \<Rightarrow> d' | Inl _ \<Rightarrow> d)"

fun beats_in_time :: "uuid \<Rightarrow> timestamp \<Rightarrow> (timestamp \<times> beat) list \<Rightarrow> bool" where
  "beats_in_time i latest [] = True"
| "beats_in_time i latest ((now, Beat k) # es) = beats_in_time i (if k = i then now else latest) es"
| "beats_in_time i latest ((now, Reclaim) # es) =
     (now \<le> latest + seconds DEFAULT_TIMEOUT_SECONDS \<and> beats_in_time i latest es)"

lemma beat_row:
  "sql_update_heartbeat (Some k) now d =
     Inr ((), d\<lparr>jobs := update_where (\<lambda>j. j_id j = k) (heartbeat_set now) (jobs d)\<rparr>)"
  by (simp add: sql_update_heartbeat_def is_row_def eq_commute)

text \<open>
  Property C23.  A running job whose ticks reach the database in time, that is never more
  than 30 seconds before a reclaim, is still running under the same worker after any number
  of reclaims by any process.
\<close>

theorem heartbeat_protects:
  assumes "j \<in> set (jobs d)" "j_id j = i" "j_status j = Running" "j_heartbeat_at j = Some t"
    and "beats_in_time i t es"
  shows "\<exists>j' \<in> set (jobs (fold beat_step es d)). j_id j' = i \<and> j_status j' = Running \<and>
    j_claimed_by j' = j_claimed_by j \<and> j_retry_count j' = j_retry_count j"
  using assms
proof (induction i t es arbitrary: d j rule: beats_in_time.induct)
  case (1 i latest)
  then show ?case by auto
next
  case (2 i latest now k es)
  let ?d = "beat_step (now, Beat k) d"
  have jobs: "jobs ?d = update_where (\<lambda>j. j_id j = k) (heartbeat_set now) (jobs d)"
    by (simp add: beat_row)
  let ?j = "if j_id j = k then heartbeat_set now j else j"
  have "?j \<in> set (jobs ?d)" unfolding jobs set_update_where using 2(2) by auto
  moreover have "j_id ?j = i" "j_status ?j = Running" "j_claimed_by ?j = j_claimed_by j"
    "j_heartbeat_at ?j = Some (if k = i then now else latest)" "j_retry_count ?j = j_retry_count j"
    using 2(3-5) by (auto simp: heartbeat_set_def)
  ultimately show ?case using 2(1)[of ?j ?d] 2(6) by auto
next
  case (3 i latest now es)
  let ?d = "beat_step (now, Reclaim) d"
  have jobs: "jobs ?d = update_where (stuck 30 now) reclaim_set (jobs d)"
    by (simp add: sql_reclaim_stuck_jobs_def frame_simps DEFAULT_TIMEOUT_SECONDS_def)
  have "\<not> stuck 30 now j"
    using 3(5,6) by (simp add: stuck_def DEFAULT_TIMEOUT_SECONDS_def)
  then have "j \<in> set (jobs ?d)" unfolding jobs set_update_where using 3(2) by force
  with 3(1)[of j ?d] 3(3-6) show ?case by auto
qed


theorem heartbeat_protects_witness:
  "let j = \<lparr>j_id = 7, j_pipeline_run_id = 1, j_stage = [], j_stage_order = 0, j_step_name = [],
         j_step_order = 0, j_command = [], j_status = Running, j_priority = 5,
         j_claimed_by = Some [], j_claimed_at = Some 0, j_heartbeat_at = Some 0, j_retry_count = 1,
         j_max_retries = 3, j_exit_code = None, j_started_at = Some 0, j_completed_at = None,
         j_created_at = 0\<rparr>;
       es = [(seconds 10, Beat 7), (seconds 15, Reclaim), (seconds 20, Beat 7), (seconds 50, Reclaim)]
   in \<exists>j' \<in> set (jobs (fold beat_step es (empty_db\<lparr>jobs := [j]\<rparr>))). j_id j' = 7 \<and>
        j_status j' = Running \<and> j_claimed_by j' = j_claimed_by j \<and> j_retry_count j' = j_retry_count j"
  unfolding Let_def
  by (rule heartbeat_protects[where t = 0])
    (simp_all add: DEFAULT_TIMEOUT_SECONDS_def seconds_def)

section \<open>A dead worker's job is taken back in time\<close>

text \<open>When an interval that was set at time \<open>c\<close> calls back for the \<open>n\<close>-th time, from 0.\<close>

definition firing :: "timestamp \<Rightarrow> interval \<Rightarrow> nat \<Rightarrow> timestamp" where
  "firing c v n = c + (int n + 1) * (interval_ms v * 1000)"

lemma silent_before:
  assumes "j \<in> set (jobs d)" "j_status j = Running" "j_heartbeat_at j = Some t"
    and "\<forall>(u, e) \<in> set es. (case e of Beat k \<Rightarrow> k \<noteq> j_id j | Reclaim \<Rightarrow> u \<le> t + seconds 30)"
  shows "j \<in> set (jobs (fold beat_step es d))"
  using assms
proof (induction es arbitrary: d)
  case (Cons ue es)
  obtain u e where ue: "ue = (u, e)" by fastforce
  have "j \<in> set (jobs (beat_step ue d))"
  proof (cases e)
    case (Beat k)
    then have "jobs (beat_step ue d) = update_where (\<lambda>j. j_id j = k) (heartbeat_set u) (jobs d)"
      by (simp add: ue beat_row)
    moreover have "j_id j \<noteq> k" using Cons.prems(4) ue Beat by auto
    ultimately show ?thesis using Cons.prems(1) by (force simp: set_update_where)
  next
    case Reclaim
    then have "jobs (beat_step ue d) = update_where (stuck 30 u) reclaim_set (jobs d)"
      by (simp add: ue sql_reclaim_stuck_jobs_def frame_simps DEFAULT_TIMEOUT_SECONDS_def)
    moreover have "\<not> stuck 30 u j" using Cons.prems(3,4) ue Reclaim by (auto simp: stuck_def)
    ultimately show ?thesis using Cons.prems(1) by (force simp: set_update_where)
  qed
  with Cons.IH[of "beat_step ue d"] Cons.prems(2-4) show ?case by simp
qed simp

lemma firing_between:
  assumes "v \<in> set (intervals (heartbeatOnModuleInit new_heartbeat_service))" "c \<le> t + seconds 30"
  shows "\<exists>n. t + seconds 30 < firing c v n \<and> firing c v n \<le> t + seconds 45"
proof -
  have ms: "interval_ms v * 1000 = 15000000"
    using assms(1) by (simp add: heartbeatOnModuleInit_def startReclaimLoop_def stopReclaimLoop_def
        new_heartbeat_service_def DEFAULT_RECLAIM_INTERVAL_MS_def Let_def)
  let ?k = "(t + seconds 30 - c) div 15000000"
  have "0 \<le> ?k" using assms(2) by simp
  then have "int (nat ?k) = ?k" by simp
  then show ?thesis
    unfolding firing_def ms seconds_def by (intro exI[of _ "nat ?k"]) (simp add: seconds_def, linarith)
qed

text \<open>
  Property C22.  A job whose worker died with retries left is waiting again at most 45 seconds
  after its last heartbeat: some reclaim, by the loop that a live process started before or
  by an earlier one, finds it 30 seconds stale, gives it back unclaimed and counts one retry,
  whatever else the other workers' ticks and reclaims do meanwhile.
\<close>

theorem dead_worker_recovered:
  assumes "j \<in> set (jobs d)" "j_status j = Running" "j_heartbeat_at j = Some t"
    and "j_retry_count j < j_max_retries j"
    and "v \<in> set (intervals (heartbeatOnModuleInit new_heartbeat_service))" "c \<le> t + seconds 30"
    and "sorted (map fst es)" "\<forall>u. (u, Beat (j_id j)) \<notin> set es"
    and "\<forall>n. firing c v n \<le> t + seconds 45 \<longrightarrow> (firing c v n, Reclaim) \<in> set es"
  shows "\<exists>es1 u es2. es = es1 @ (u, Reclaim) # es2 \<and> t + seconds 30 < u \<and> u \<le> t + seconds 45 \<and>
    reclaim_set j \<in> set (jobs (fold beat_step (es1 @ [(u, Reclaim)]) d))"
proof -
  let ?late = "\<lambda>(u, e). e = Reclaim \<and> t + seconds 30 < u"
  obtain n where n: "t + seconds 30 < firing c v n" "firing c v n \<le> t + seconds 45"
    using firing_between[OF assms(5,6)] by blast
  with assms(9) have hit: "(firing c v n, Reclaim) \<in> set es" by blast
  with n(1) have "\<exists>x \<in> set es. ?late x" by force
  from split_list_first_prop[OF this] obtain es1 x es2
    where es: "es = es1 @ x # es2" "?late x" "\<forall>y \<in> set es1. \<not> ?late y" by blast
  then obtain u where x: "x = (u, Reclaim)" "t + seconds 30 < u" by (cases x) auto
  have "(firing c v n, Reclaim) \<notin> set es1" using es(3) n(1) by force
  with hit es(1) x have "firing c v n \<in> insert u (fst ` set es2)" by force
  with assms(7) es(1) x have "u \<le> firing c v n" by (auto simp: sorted_append)
  with n(2) have u: "u \<le> t + seconds 45" by simp
  have "\<forall>(w, e) \<in> set es1. (case e of Beat k \<Rightarrow> k \<noteq> j_id j | Reclaim \<Rightarrow> w \<le> t + seconds 30)"
    using es(1,3) assms(8) by (force split: beat.split)
  from silent_before[OF assms(1-3) this] have "j \<in> set (jobs (fold beat_step es1 d))" .
  moreover have "stuck 30 u j" using assms(2-4) x(2) by (simp add: stuck_def)
  ultimately have "reclaim_set j \<in> set (jobs (beat_step (u, Reclaim) (fold beat_step es1 d)))"
    by (force simp: sql_reclaim_stuck_jobs_def frame_simps DEFAULT_TIMEOUT_SECONDS_def set_update_where)
  with es(1) x u show ?thesis by (intro exI[of _ es1] exI[of _ u] exI[of _ es2]) simp
qed

theorem dead_worker_recovered_witness:
  "let j = \<lparr>j_id = 7, j_pipeline_run_id = 1, j_stage = [], j_stage_order = 0, j_step_name = [],
         j_step_order = 0, j_command = [], j_status = Running, j_priority = 5,
         j_claimed_by = Some [], j_claimed_at = Some 0, j_heartbeat_at = Some 0, j_retry_count = 1,
         j_max_retries = 3, j_exit_code = None, j_started_at = Some 0, j_completed_at = None,
         j_created_at = 0\<rparr>;
       es = [(seconds 15, Reclaim), (seconds 20, Beat 9), (seconds 30, Reclaim), (seconds 45, Reclaim)]
   in \<exists>es1 u es2. es = es1 @ (u, Reclaim) # es2 \<and> seconds 30 < u \<and>
        reclaim_set j \<in> set (jobs (fold beat_step (es1 @ [(u, Reclaim)]) (empty_db\<lparr>jobs := [j]\<rparr>)))"
proof -
  let ?j = "\<lparr>j_id = 7, j_pipeline_run_id = 1, j_stage = [], j_stage_order = 0, j_step_name = [],
         j_step_order = 0, j_command = [], j_status = Running, j_priority = 5,
         j_claimed_by = Some [], j_claimed_at = Some 0, j_heartbeat_at = Some 0, j_retry_count = 1,
         j_max_retries = 3, j_exit_code = None, j_started_at = Some 0, j_completed_at = None,
         j_created_at = 0\<rparr>"
  let ?es = "[(seconds 15, Reclaim), (seconds 20, Beat 9), (seconds 30, Reclaim), (seconds 45, Reclaim)]"
  let ?v = "\<lparr>handle = 0, interval_ms = 15000, timeout_seconds = 30\<rparr>"
  have "\<forall>n. firing 0 ?v n \<le> 0 + seconds 45 \<longrightarrow> (firing 0 ?v n, Reclaim) \<in> set ?es"
  proof (intro allI impI)
    fix n assume "firing 0 ?v n \<le> 0 + seconds 45"
    then have "n = 0 \<or> n = 1 \<or> n = 2" by (auto simp: firing_def seconds_def)
    then show "(firing 0 ?v n, Reclaim) \<in> set ?es" by (auto simp: firing_def seconds_def)
  qed
  from dead_worker_recovered[of ?j "empty_db\<lparr>jobs := [?j]\<rparr>" 0 ?v 0 ?es, OF _ _ _ _ _ _ _ _ this]
  have "\<exists>es1 u es2. ?es = es1 @ (u, Reclaim) # es2 \<and> 0 + seconds 30 < u \<and> u \<le> 0 + seconds 45 \<and>
      reclaim_set ?j \<in> set (jobs (fold beat_step (es1 @ [(u, Reclaim)]) (empty_db\<lparr>jobs := [?j]\<rparr>)))"
    by (simp add: heartbeatOnModuleInit_def startReclaimLoop_def stopReclaimLoop_def Let_def seconds_def
        new_heartbeat_service_def DEFAULT_RECLAIM_INTERVAL_MS_def DEFAULT_TIMEOUT_SECONDS_def del: append_Cons)
  then show ?thesis unfolding Let_def by auto
qed

end
