(* ===== verification/DeploymentLock.thy ===== *)
theory DeploymentLock
  imports Effects
begin

text \<open>
  \<open>DeploymentLockService\<close> (src/src/locks/deployment-lock.service.ts): one advisory lock per
  environment, held by a dedicated connection, with a row of deployment_locks beside it for
  the dashboard.

  Parameters: \<open>hashtext\<close> is Postgres's string hash; \<open>sess\<close> is the client the connection
  pool hands out, which the pool documents not to be checked out by anyone else.  The
  contract of the advisory locks is the locale \<open>advisory_locks\<close>, with mutual exclusion
  proved in it for any sequence of lock operations.
\<close>

section \<open>Advisory locks of Postgres\<close>

text \<open>
  A session-level advisory lock is granted unless another session holds it; its holder may
  take it again, and each taking needs a release of its own.
\<close>

definition pg_try_advisory_lock ::
  "session \<Rightarrow> int \<Rightarrow> (session \<times> int) list \<Rightarrow> bool \<times> (session \<times> int) list" where
  "pg_try_advisory_lock sess k held =
     (if \<exists>(s, k') \<in> set held. k' = k \<and> s \<noteq> sess then (False, held)
      else (True, (sess, k) # held))"

definition pg_advisory_unlock ::
  "session \<Rightarrow> int \<Rightarrow> (session \<times> int) list \<Rightarrow> (session \<times> int) list" where
  "pg_advisory_unlock sess k held = remove1 (sess, k) held"

text \<open>The end of a session releases what it held.\<close>

definition close_session :: "session \<Rightarrow> (session \<times> int) list \<Rightarrow> (session \<times> int) list" where
  "close_session sess held = filter (\<lambda>(s, k). s \<noteq> sess) held"

section \<open>Interface: exclusive locks\<close>

datatype ('s, 'k) lock_op = Try 's 'k | Unlock 's 'k | Disconnect 's

locale advisory_locks =
  fixes try_lock :: "'s \<Rightarrow> 'k \<Rightarrow> 'a \<Rightarrow> bool \<times> 'a"
    and unlock :: "'s \<Rightarrow> 'k \<Rightarrow> 'a \<Rightarrow> 'a"
    and close :: "'s \<Rightarrow> 'a \<Rightarrow> 'a"
    and holds :: "'a \<Rightarrow> 's \<Rightarrow> 'k \<Rightarrow> bool"
  assumes granted: "try_lock s k a = (True, a') \<Longrightarrow>
      (\<forall>t. t \<noteq> s \<longrightarrow> \<not> holds a t k) \<and>
      (\<forall>t l. holds a' t l \<longleftrightarrow> holds a t l \<or> t = s \<and> l = k)"
    and refused: "try_lock s k a = (False, a') \<Longrightarrow>
      a' = a \<and> (\<exists>t. t \<noteq> s \<and> holds a t k)"
    and unlock_less: "holds (unlock s k a) t l \<Longrightarrow> holds a t l"
    and unlock_frame: "t \<noteq> s \<or> l \<noteq> k \<Longrightarrow> holds a t l \<Longrightarrow> holds (unlock s k a) t l"
    and close_holds: "holds (close s a) t l \<longleftrightarrow> t \<noteq> s \<and> holds a t l"
begin

definition exclusive :: "'a \<Rightarrow> bool" where
  "exclusive a \<longleftrightarrow> (\<forall>s t k. holds a s k \<longrightarrow> holds a t k \<longrightarrow> s = t)"

fun lock_step :: "('s, 'k) lock_op \<Rightarrow> 'a \<Rightarrow> 'a" where
  "lock_step (Try s k) a = snd (try_lock s k a)"
| "lock_step (Unlock s k) a = unlock s k a"
| "lock_step (Disconnect s) a = close s a"

lemma try_exclusive: "exclusive a \<Longrightarrow> try_lock s k a = (b, a') \<Longrightarrow> exclusive a'"
proof (cases b)
  case True
  assume "exclusive a" "try_lock s k a = (b, a')"
  with True granted[of s k a a'] show ?thesis unfolding exclusive_def by metis
next
  case False
  assume "exclusive a" "try_lock s k a = (b, a')"
  with False refused[of s k a a'] show ?thesis by simp
qed

lemma unlock_exclusive: "exclusive a \<Longrightarrow> exclusive (unlock s k a)"
  unfolding exclusive_def by (metis unlock_less)

lemma close_exclusive: "exclusive a \<Longrightarrow> exclusive (close s a)"
  unfolding exclusive_def close_holds by blast

lemma step_exclusive: "exclusive a \<Longrightarrow> exclusive (lock_step op a)"
  by (cases op)
    (auto intro: unlock_exclusive close_exclusive try_exclusive[OF _ prod.collapse[symmetric]])

text \<open>Mutual exclusion after any operations of any sessions.\<close>

lemma run_exclusive: "exclusive a \<Longrightarrow> exclusive (fold lock_step ops a)"
  by (induction ops arbitrary: a) (simp_all add: step_exclusive)

text \<open>While one session holds a key, another one is refused.\<close>

lemma held_refused:
  assumes "holds a s k" "t \<noteq> s"
  shows "\<not> fst (try_lock t k a) \<and> snd (try_lock t k a) = a"
proof (cases "try_lock t k a")
  case (Pair b a')
  with assms granted[of t k a a'] refused[of t k a a'] show ?thesis by (cases b) auto
qed

lemma holder_keeps:
  assumes "holds a s k" "op \<noteq> Unlock s k" "op \<noteq> Disconnect s"
  shows "holds (lock_step op a) s k"
proof (cases op)
  case (Try t l)
  obtain b a' where t: "try_lock t l a = (b, a')" by fastforce
  with granted[of t l a a'] refused[of t l a a'] assms(1) show ?thesis
    by (cases b) (auto simp: Try)
qed (use assms unlock_frame close_holds in auto)

text \<open>
  From the moment a session is granted a key until it unlocks it or ends, whatever the
  other sessions do, nobody else is granted it.
\<close>

lemma granted_excludes:
  assumes "try_lock s k a = (True, a')" "Unlock s k \<notin> set ops" "Disconnect s \<notin> set ops" "t \<noteq> s"
  shows "\<not> fst (try_lock t k (fold lock_step ops a'))"
proof -
  have "holds (fold lock_step ops a') s k"
  proof -
    have "holds a' s k" using granted[OF assms(1)] by blast
    then show ?thesis
      using assms(2,3)
    proof (induction ops arbitrary: a')
      case (Cons op ops)
      then have "holds (lock_step op a') s k" by (intro holder_keeps) auto
      with Cons show ?case by simp
    qed simp
  qed
  with held_refused assms(4) show ?thesis by blast
qed

end

definition holds_lock :: "(session \<times> int) list \<Rightarrow> session \<Rightarrow> int \<Rightarrow> bool" where
  "holds_lock held s k \<longleftrightarrow> (s, k) \<in> set held"

interpretation al: advisory_locks pg_try_advisory_lock pg_advisory_unlock close_session holds_lock
proof unfold_locales
  fix s k held held'
  show "(\<forall>t. t \<noteq> s \<longrightarrow> \<not> holds_lock held t k) \<and>
      (\<forall>t l. holds_lock held' t l \<longleftrightarrow> holds_lock held t l \<or> t = s \<and> l = k)"
    if "pg_try_advisory_lock s k held = (True, held')"
    using that by (auto simp: pg_try_advisory_lock_def holds_lock_def split: if_splits)
  show "held' = held \<and> (\<exists>t. t \<noteq> s \<and> holds_lock held t k)"
    if "pg_try_advisory_lock s k held = (False, held')"
    using that by (auto simp: pg_try_advisory_lock_def holds_lock_def split: if_splits)
next
  fix s k held t l
  show "holds_lock held t l" if "holds_lock (pg_advisory_unlock s k held) t l"
    using that notin_set_remove1 by (fastforce simp: pg_advisory_unlock_def holds_lock_def)
  show "holds_lock (pg_advisory_unlock s k held) t l"
    if "t \<noteq> s \<or> l \<noteq> k" "holds_lock held t l"
    using that by (auto simp: pg_advisory_unlock_def holds_lock_def in_set_remove1)
  show "holds_lock (close_session s held) t l \<longleftrightarrow> t \<noteq> s \<and> holds_lock held t l"
    by (auto simp: close_session_def holds_lock_def)
qed

section \<open>The statements\<close>

definition LOCK_PREFIX :: ustring where
  "LOCK_PREFIX = lit ''deploy:''"

definition sql_try_lock :: "session \<Rightarrow> int \<Rightarrow> bool stmt" where
  "sql_try_lock sess k now d =
     (case pg_try_advisory_lock sess k (advisory d) of (acquired, held) \<Rightarrow>
        Inr (acquired, d\<lparr>advisory := held\<rparr>))"

definition sql_unlock :: "session \<Rightarrow> int \<Rightarrow> unit stmt" where
  "sql_unlock sess k now d =
     Inr ((), d\<lparr>advisory := pg_advisory_unlock sess k (advisory d)\<rparr>)"

text \<open>INSERT ... ON CONFLICT (environment) DO UPDATE\<close>

definition sql_insert_deployment_lock :: "ustring \<Rightarrow> uuid \<Rightarrow> unit stmt" where
  "sql_insert_deployment_lock environment pipelineRunId now d =
     (let row = \<lparr>dl_environment = environment, dl_locked_by = Some pipelineRunId,
            dl_locked_at = now, dl_expires_at = None\<rparr>
      in if length environment > 100 then Inl String_Too_Long
         else if pipelineRunId \<notin> r_id ` set (pipeline_runs d) then Inl Foreign_Key_Violation
         else if environment \<in> dl_environment ` set (deployment_locks d) then
           Inr ((), d\<lparr>deployment_locks :=
             update_where (\<lambda>l. dl_environment l = environment) (\<lambda>_. row) (deployment_locks d)\<rparr>)
         else Inr ((), d\<lparr>deployment_locks := deployment_locks d @ [row]\<rparr>))"

definition sql_delete_deployment_lock :: "ustring \<Rightarrow> unit stmt" where
  "sql_delete_deployment_lock environment now d =
     Inr ((), d\<lparr>deployment_locks :=
       delete_where (\<lambda>l. dl_environment l = environment) (deployment_locks d)\<rparr>)"

section \<open>The service\<close>

text \<open>
  A statement on a dedicated client: when the connection breaks, the server ends the
  session and with it its advisory locks.
\<close>

definition client_query :: "session \<Rightarrow> 'a stmt \<Rightarrow> 'a act" where
  "client_query sess st w = (case query st w of
      (Threw Connection_Lost, w') \<Rightarrow>
        (Threw Connection_Lost,
         w'\<lparr>the_db := (the_db w')\<lparr>advisory := close_session sess (advisory (the_db w'))\<rparr>\<rparr>)
    | r \<Rightarrow> r)"

text \<open>\<open>pool.connect()\<close> and \<open>client.release()\<close>\<close>

definition pool_connect :: "session \<Rightarrow> unit act" where
  "pool_connect sess w = (case elapse w of (f, w1) \<Rightarrow>
     if f = Delivered then (Done (), w1\<lparr>clients := insert sess (clients w1)\<rparr>)
     else (Threw Connection_Lost, w1))"

definition client_release :: "session \<Rightarrow> unit act" where
  "client_release sess w = (Done (), w\<lparr>clients := clients w - {sess}\<rparr>)"

text \<open>
  \<open>AcquireResult\<close>: the field \<open>release\<close> is a closure over the client, the environment and
  the key, or does nothing.
\<close>

datatype release_fun = No_Release | Release session ustring

record acquire_result =
  acquired :: bool
  release :: release_fun

text \<open>\<open>catch (err) { client.release(); throw err; }\<close>\<close>

definition release_and_rethrow :: "session \<Rightarrow> 'a act \<Rightarrow> 'a act" where
  "release_and_rethrow sess m w = (case m w of
      (Threw e, w') \<Rightarrow> seq (client_release sess) (\<lambda>_. throw e) w'
    | r \<Rightarrow> r)"

definition tryAcquire ::
  "(ustring \<Rightarrow> int) \<Rightarrow> session \<Rightarrow> ustring \<Rightarrow> uuid option \<Rightarrow> acquire_result act" where
  "tryAcquire hashtext sess environment pipelineRunId =
     (let key = LOCK_PREFIX @ environment in
      seq (pool_connect sess) (\<lambda>_.
      release_and_rethrow sess
        (seq (client_query sess (sql_try_lock sess (hashtext key))) (\<lambda>got.
         if \<not> got then
           seq (client_release sess) (\<lambda>_. ret \<lparr>acquired = False, release = No_Release\<rparr>)
         else
           seq (case pipelineRunId of
                  None \<Rightarrow> ret ()
                | Some run \<Rightarrow> client_query sess (sql_insert_deployment_lock environment run)) (\<lambda>_.
           ret \<lparr>acquired = True, release = Release sess environment\<rparr>)))))"

fun run_release :: "(ustring \<Rightarrow> int) \<Rightarrow> release_fun \<Rightarrow> unit act" where
  "run_release hashtext No_Release = ret ()"
| "run_release hashtext (Release sess environment) =
     try_finally
       (seq (client_query sess (sql_delete_deployment_lock environment)) (\<lambda>_.
        client_query sess (sql_unlock sess (hashtext (LOCK_PREFIX @ environment)))))
       (client_release sess)"

section \<open>Facts\<close>

lemma client_query_quiet:
  assumes "script w = []"
  shows "client_query sess st w = query st w"
  using assms by (auto simp: client_query_def query_quiet split: sum.splits prod.splits)

definition locks_exclusive :: "db \<Rightarrow> bool" where
  "locks_exclusive d \<longleftrightarrow> al.exclusive (advisory d)"

text \<open>How the acquisition ends when nothing interferes.\<close>

lemma tryAcquire_quiet:
  assumes "script w = []"
  shows "tryAcquire hashtext sess env run w =
    (let k = hashtext (LOCK_PREFIX @ env); d = the_db w;
         d1 = d\<lparr>advisory := (sess, k) # advisory d\<rparr>;
         wc = w\<lparr>clients := insert sess (clients w)\<rparr>;
         wr = w\<lparr>clients := clients w - {sess}\<rparr>;
         ok = \<lparr>acquired = True, release = Release sess env\<rparr>
     in if \<not> fst (pg_try_advisory_lock sess k (advisory d))
        then (Done \<lparr>acquired = False, release = No_Release\<rparr>, wr)
        else case run of
          None \<Rightarrow> (Done ok, wc\<lparr>the_db := d1\<rparr>)
        | Some r \<Rightarrow> (case sql_insert_deployment_lock env r (clock w) d1 of
            Inl e \<Rightarrow> (Threw (Query_Failed e), wr\<lparr>the_db := d1\<rparr>)
          | Inr (u, d2) \<Rightarrow> (Done ok, wc\<lparr>the_db := d2\<rparr>)))"
proof -
  have wb: "insert sess (clients w) - {sess} = clients w - {sess}" by blast
  show ?thesis
    using assms
    by (auto simp: tryAcquire_def Let_def seq_def pool_connect_def release_and_rethrow_def
          client_query_quiet query_quiet sql_try_lock_def pg_try_advisory_lock_def ret_def
          throw_def client_release_def wb split: option.split sum.split)
qed

end
