(* ===== verification/LogStream.thy ===== *)
theory LogStream
  imports Effects
begin

text \<open>
  \<open>LogStreamService\<close> and the trigger on job_logs
  (src/src/streaming/log-stream.service.ts): inserting a log line, the notification the
  trigger sends with it, and the installation of the trigger.  The listening side of the
  service is in \<open>LogService\<close>.

  The parameter \<open>fmt\<close> is how Postgres prints a uuid and a timestamp inside JSON.
\<close>

section \<open>The payload of a notification\<close>

record pg_format =
  uuid_text :: "uuid \<Rightarrow> ustring"
  time_text :: "timestamp \<Rightarrow> ustring"

text \<open>Bytes of a code point in UTF-8, and of a string.\<close>

definition utf8_width :: "nat \<Rightarrow> nat" where
  "utf8_width c = (if c < 128 then 1 else if c < 2048 then 2 else if c < 65536 then 3 else 4)"

definition byte_length :: "ustring \<Rightarrow> nat" where
  "byte_length s = sum_list (map utf8_width s)"

text \<open>A string inside JSON text, as Postgres escapes it.\<close>

definition hex_digit :: "nat \<Rightarrow> nat" where
  "hex_digit n = (if n < 10 then 48 + n else 87 + n)"

definition escape_char :: "nat \<Rightarrow> ustring" where
  "escape_char c =
     (if c = 8 then [92, 98] else if c = 12 then [92, 102] else if c = 10 then [92, 110]
      else if c = 13 then [92, 114] else if c = 9 then [92, 116]
      else if c = 34 then [92, 34] else if c = 92 then [92, 92]
      else if c < 32 then [92] @ lit ''u00'' @ [hex_digit (c div 16), hex_digit (c mod 16)]
      else [c])"

definition json_string :: "ustring \<Rightarrow> ustring" where
  "json_string s = [34] @ concat (map escape_char s) @ [34]"

fun decimal :: "nat \<Rightarrow> ustring" where
  "decimal n = (if n < 10 then [48 + n] else decimal (n div 10) @ [48 + n mod 10])"

declare decimal.simps [simp del]

text \<open>\<open>left(NEW.log_line, 7000)\<close>, with an ellipsis when something was cut off.\<close>

definition line_trunc :: "ustring \<Rightarrow> ustring" where
  "line_trunc log_line =
     (if length log_line > 7000 then take 7000 log_line @ [8230] else take 7000 log_line)"

definition log_event_of :: "job_log \<Rightarrow> log_event" where
  "log_event_of l = \<lparr>ev_job_id = l_job_id l, ev_log_line = line_trunc (l_log_line l),
     ev_log_level = l_log_level l, ev_timestamp = l_timestamp l, ev_id = l_id l\<rparr>"

text \<open>\<open>json_build_object(...)::text\<close>\<close>

definition payload_text :: "pg_format \<Rightarrow> log_event \<Rightarrow> ustring" where
  "payload_text fmt e =
     lit ''{'' @ json_string (lit ''job_id'') @ lit '' : '' @ json_string (uuid_text fmt (ev_job_id e)) @
     lit '', '' @ json_string (lit ''log_line'') @ lit '' : '' @ json_string (ev_log_line e) @
     lit '', '' @ json_string (lit ''log_level'') @ lit '' : '' @ json_string (ev_log_level e) @
     lit '', '' @ json_string (lit ''timestamp'') @ lit '' : '' @
       json_string (time_text fmt (ev_timestamp e)) @
     lit '', '' @ json_string (lit ''id'') @ lit '' : '' @ decimal (ev_id e) @ lit ''}''"

text \<open>\<open>pg_notify\<close> refuses a payload of 8000 bytes or more.\<close>

definition pg_notify :: "pg_format \<Rightarrow> log_event \<Rightarrow> db \<Rightarrow> db_error + db" where
  "pg_notify fmt e d =
     (if byte_length (payload_text fmt e) \<ge> 8000 then Inl Payload_Too_Long
      else Inr (d\<lparr>notifications := notifications d @ [e]\<rparr>))"

section \<open>Writing a log line\<close>

text \<open>A text with the character U+0000 is refused before anything else.\<close>

definition sql_insert_job_log :: "pg_format \<Rightarrow> uuid \<Rightarrow> ustring \<Rightarrow> ustring \<Rightarrow> nat stmt" where
  "sql_insert_job_log fmt jobId logLine logLevel now d =
     (if 0 \<in> set logLine \<or> 0 \<in> set logLevel then Inl Invalid_Input
      else if length logLevel > 20 then Inl String_Too_Long
      else if jobId \<notin> j_id ` set (jobs d) then Inl Foreign_Key_Violation
      else let l = \<lparr>l_id = next_log_id d, l_job_id = jobId, l_log_line = logLine,
                l_log_level = logLevel, l_timestamp = now\<rparr>;
               d1 = d\<lparr>job_logs := job_logs d @ [l], next_log_id := next_log_id d + 1\<rparr>
           in if log_trigger d then
                (case pg_notify fmt (log_event_of l) d1 of
                   Inl e \<Rightarrow> Inl e
                 | Inr d2 \<Rightarrow> Inr (l_id l, d2))
              else Inr (l_id l, d1))"

text \<open>\<open>appendLog\<close>; the id of the new row, or none for the empty id it returns without a job.\<close>

definition appendLog :: "pg_format \<Rightarrow> uuid option \<Rightarrow> ustring \<Rightarrow> ustring \<Rightarrow> nat option act" where
  "appendLog fmt jobId logLine logLevel =
     (case jobId of
        None \<Rightarrow> ret None
      | Some i \<Rightarrow> seq (query (sql_insert_job_log fmt i logLine logLevel)) (\<lambda>n. ret (Some n)))"

section \<open>The triggers' installation\<close>

text \<open>
  \<open>ensureNotifyTrigger\<close>: the advisory transaction lock is taken by a statement of its own,
  whose transaction ends with it; the DDL then runs in the next one.
\<close>

definition sql_xact_lock :: "int \<Rightarrow> unit stmt" where
  "sql_xact_lock k now d = Inr ((), d)"

definition sql_install_log_trigger :: "unit stmt" where
  "sql_install_log_trigger now d = Inr ((), d\<lparr>log_trigger := True\<rparr>)"

definition ensureNotifyTrigger :: "bool \<Rightarrow> unit act" where
  "ensureNotifyTrigger sync_database =
     (if \<not> sync_database then ret ()
      else seq (query (sql_xact_lock 123456789)) (\<lambda>_. query sql_install_log_trigger))"

section \<open>Facts\<close>

lemma byte_length_append [simp]: "byte_length (s @ t) = byte_length s + byte_length t"
  and byte_length_Cons [simp]: "byte_length (c # s) = utf8_width c + byte_length s"
  and byte_length_Nil [simp]: "byte_length [] = 0"
  by (simp_all add: byte_length_def)

lemma utf8_width_pos [simp]: "0 < utf8_width c" "1 \<le> utf8_width c"
  by (simp_all add: utf8_width_def)

lemma byte_length_ge: "length s \<le> byte_length s"
  by (induction s) (simp_all add: utf8_width_def)

lemma escape_width: "utf8_width c \<le> byte_length (escape_char c)"
  by (auto simp: escape_char_def utf8_width_def lit_def)

lemma json_string_ge: "byte_length s + 2 \<le> byte_length (json_string s)"
proof -
  have "byte_length s \<le> byte_length (concat (map escape_char s))"
  proof (induction s)
    case (Cons c s)
    then show ?case using escape_width[of c] by simp
  qed simp
  then show ?thesis by (simp add: json_string_def utf8_width_def)
qed

text \<open>Printable ASCII other than the quote and the backslash is sent as it is.\<close>

definition plain_ascii :: "ustring \<Rightarrow> bool" where
  "plain_ascii s \<longleftrightarrow> (\<forall>c \<in> set s. 32 \<le> c \<and> c < 127 \<and> c \<noteq> 34 \<and> c \<noteq> 92)"

lemma plain_ascii_no_null: "plain_ascii s \<Longrightarrow> 0 \<notin> set s"
  by (auto simp: plain_ascii_def)

lemma json_string_plain:
  assumes "plain_ascii s"
  shows "byte_length (json_string s) = length s + 2"
proof -
  have "byte_length (concat (map escape_char s)) = length s"
    using assms by (induction s) (auto simp: plain_ascii_def escape_char_def utf8_width_def)
  then show ?thesis by (simp add: json_string_def utf8_width_def)
qed

lemma plain_ascii_lit_byte_length: "plain_ascii s \<Longrightarrow> byte_length s = length s"
  by (induction s) (auto simp: plain_ascii_def utf8_width_def)

lemma decimal_length: "n < 10 ^ k \<Longrightarrow> 0 < k \<Longrightarrow> byte_length (decimal n) \<le> k"
proof (induction n arbitrary: k rule: decimal.induct)
  case (1 n)
  show ?case
  proof (cases "n < 10")
    case True
    with 1(3) show ?thesis by (simp add: decimal.simps[of n] utf8_width_def)
  next
    case False
    with 1(2) have k: "k \<noteq> 1" by auto
    with 1(3) have "0 < k - 1" by simp
    moreover have "n div 10 < 10 ^ (k - 1)"
      using 1(2,3) k by (metis div_less_iff_less_mult le_add_diff_inverse2 less_eq_Suc_le
          One_nat_def power_Suc2 add.commute plus_1_eq_Suc zero_less_numeral)
    ultimately have "byte_length (decimal (n div 10)) \<le> k - 1"
      using 1(1)[OF False] by blast
    moreover have "n mod 10 < 10" by simp
    then have "48 + n mod 10 < 128" by linarith
    then have "utf8_width (48 + n mod 10) = 1" by (simp add: utf8_width_def)
    ultimately show ?thesis
      using False 1(3) by (subst decimal.simps) simp
  qed
qed

lemma insert_job_log_frame:
  assumes "sql_insert_job_log fmt i line lvl now d = Inr (n, d')"
  shows "jobs d' = jobs d" "pipeline_runs d' = pipeline_runs d" "pipelines d' = pipelines d"
    "deployment_locks d' = deployment_locks d" "webhooks_outbox d' = webhooks_outbox d"
    "next_uuid d' = next_uuid d" "advisory d' = advisory d" "row_locks d' = row_locks d"
    "run_trigger d' = run_trigger d" "log_trigger d' = log_trigger d"
  using assms
  by (auto simp: sql_insert_job_log_def pg_notify_def Let_def split: if_splits)

lemma byte_length_replicate [simp]: "byte_length (replicate n c) = n * utf8_width c"
  by (induction n) simp_all

lemma payload_ge: "byte_length (ev_log_line e) \<le> byte_length (payload_text fmt e)"
  using json_string_ge[of "ev_log_line e"] by (simp add: payload_text_def)

lemma line_trunc_plain:
  assumes "plain_ascii line"
  shows "byte_length (json_string (line_trunc line)) \<le> 7005"
proof -
  have "byte_length (json_string (s @ [8230])) = length s + 5" if "plain_ascii s" for s
    using json_string_plain[OF that]
    by (simp add: json_string_def escape_char_def utf8_width_def)
  moreover have "plain_ascii (take 7000 line)"
    using assms set_take_subset[of 7000 line] by (auto simp: plain_ascii_def)
  moreover from this have "byte_length (json_string (take 7000 line)) \<le> 7002"
    using json_string_plain by force
  ultimately show ?thesis by (auto simp: line_trunc_def)
qed

lemma json_key_lengths:
  "byte_length (json_string (lit ''job_id'')) = 8"
  "byte_length (json_string (lit ''log_line'')) = 10"
  "byte_length (json_string (lit ''log_level'')) = 11"
  "byte_length (json_string (lit ''timestamp'')) = 11"
  "byte_length (json_string (lit ''id'')) = 4"
  by (subst json_string_plain; simp add: plain_ascii_def lit_def)+

lemma separator_lengths:
  "byte_length (lit ''{'') = 1" "byte_length (lit ''}'') = 1"
  "byte_length (lit '' : '') = 3" "byte_length (lit '', '') = 2"
  by (simp_all add: lit_def utf8_width_def)

text \<open>What the printed uuid, timestamp and level may need.\<close>

definition format_ok :: "pg_format \<Rightarrow> bool" where
  "format_ok fmt \<longleftrightarrow>
     (\<forall>i. plain_ascii (uuid_text fmt i) \<and> length (uuid_text fmt i) = 36) \<and>
     (\<forall>t. plain_ascii (time_text fmt t) \<and> length (time_text fmt t) \<le> 40)"

lemma payload_plain:
  assumes "format_ok fmt" "plain_ascii line" "plain_ascii lvl" "length lvl \<le> 20"
    and "i < 10 ^ 19"
  shows "byte_length (payload_text fmt (log_event_of
      \<lparr>l_id = i, l_job_id = jid, l_log_line = line, l_log_level = lvl, l_timestamp = t\<rparr>)) < 8000"
proof -
  have "byte_length (json_string (uuid_text fmt jid)) = 38"
    "byte_length (json_string (time_text fmt t)) \<le> 42"
    "byte_length (json_string lvl) \<le> 22"
    using assms(1,3,4) by (auto simp: format_ok_def json_string_plain)
  moreover have "byte_length (decimal i) \<le> 19"
    by (rule decimal_length[OF assms(5)]) simp
  moreover note line_trunc_plain[OF assms(2)]
  ultimately show ?thesis
    by (simp add: payload_text_def log_event_of_def json_key_lengths separator_lengths)
qed

text \<open>
  A line of printable ASCII, however long, is always stored, and its
  notification (cut to 7000 characters and an ellipsis) fits into the payload limit and is
  sent with it, in the same statement.
\<close>

theorem append_plain_line:
  assumes "format_ok fmt" "plain_ascii line" "plain_ascii lvl" "length lvl \<le> 20"
    and "next_log_id d < 10 ^ 19" "log_trigger d" "i \<in> j_id ` set (jobs d)"
  shows "\<exists>l d'. sql_insert_job_log fmt i line lvl now d = Inr (next_log_id d, d') \<and>
      l = \<lparr>l_id = next_log_id d, l_job_id = i, l_log_line = line, l_log_level = lvl,
           l_timestamp = now\<rparr> \<and>
      job_logs d' = job_logs d @ [l] \<and>
      notifications d' = notifications d @ [log_event_of l]"
  using assms(4-7) payload_plain[OF assms(1-5), of i now] assms(2,3)[THEN plain_ascii_no_null]
  by (simp add: sql_insert_job_log_def pg_notify_def Let_def)

theorem append_plain_line_witness:
  "let fmt = \<lparr>uuid_text = \<lambda>_. replicate 36 97, time_text = \<lambda>_. replicate 32 48\<rparr>;
       j = \<lparr>j_id = 7, j_pipeline_run_id = 1, j_stage = [], j_stage_order = 0, j_step_name = [],
         j_step_order = 0, j_command = [], j_status = Running, j_priority = 5,
         j_claimed_by = None, j_claimed_at = None, j_heartbeat_at = None, j_retry_count = 0,
         j_max_retries = 3, j_exit_code = None, j_started_at = None, j_completed_at = None,
         j_created_at = 0\<rparr>;
       d = empty_db\<lparr>log_trigger := True, jobs := [j]\<rparr>
   in \<exists>l d'. sql_insert_job_log fmt 7 (replicate 9000 120) (lit ''info'') 5 d =
          Inr (next_log_id d, d') \<and>
        l = \<lparr>l_id = next_log_id d, l_job_id = 7, l_log_line = replicate 9000 120,
             l_log_level = lit ''info'', l_timestamp = 5\<rparr> \<and>
        job_logs d' = job_logs d @ [l] \<and> notifications d' = notifications d @ [log_event_of l]"
  unfolding Let_def
  by (rule append_plain_line)
    (simp_all add: format_ok_def plain_ascii_def lit_def empty_db_def)

text \<open>
  The limit counts bytes and the truncation characters: a line whose first
  7000 characters take 8000 bytes or more cannot be stored while the trigger is
  installed; the whole INSERT fails and the line is in no table and no stream.
\<close>

theorem append_wide_line_fails:
  assumes "8000 \<le> byte_length (line_trunc line)" "length lvl \<le> 20" "log_trigger d"
    and "0 \<notin> set line" "0 \<notin> set lvl"
    and "i \<in> j_id ` set (jobs d)" "script w = []" "the_db w = d"
  shows "appendLog fmt (Some i) line lvl w = (Threw (Query_Failed Payload_Too_Long), w)"
proof -
  let ?l = "\<lparr>l_id = next_log_id d, l_job_id = i, l_log_line = line, l_log_level = lvl,
           l_timestamp = clock w\<rparr>"
  have "8000 \<le> byte_length (payload_text fmt (log_event_of ?l))"
    using payload_ge[of "log_event_of ?l" fmt] assms(1) by (simp add: log_event_of_def)
  with assms(2-8) show ?thesis
    by (simp add: appendLog_def seq_def query_quiet sql_insert_job_log_def pg_notify_def Let_def
          not_less)
qed

theorem append_wide_line_fails_witness:
  "let fmt = \<lparr>uuid_text = \<lambda>_. replicate 36 97, time_text = \<lambda>_. replicate 32 48\<rparr>;
       j = \<lparr>j_id = 7, j_pipeline_run_id = 1, j_stage = [], j_stage_order = 0, j_step_name = [],
         j_step_order = 0, j_command = [], j_status = Running, j_priority = 5,
         j_claimed_by = None, j_claimed_at = None, j_heartbeat_at = None, j_retry_count = 0,
         j_max_retries = 3, j_exit_code = None, j_started_at = None, j_completed_at = None,
         j_created_at = 0\<rparr>;
       w = \<lparr>the_db = empty_db\<lparr>log_trigger := True, jobs := [j]\<rparr>, clock = 5, aborted = False,
         clients = {}, script = []\<rparr>
   in appendLog fmt (Some 7) (replicate 4000 233) (lit ''info'') w =
        (Threw (Query_Failed Payload_Too_Long), w)"
  unfolding Let_def
  by (rule append_wide_line_fails)
    (simp_all add: line_trunc_def utf8_width_def lit_def empty_db_def)

end
