(* ===== verification/LineBuffer.thy ===== *)
theory LineBuffer
  imports Prelude
begin

text \<open>
  \<open>createLineBuffer\<close> (src/src/worker/job-executor.service.ts): the output of a job arrives
  in chunks cut anywhere, and the buffer hands on complete lines.  The main lemma says that
  the lines do not depend on where the output was cut.
\<close>

abbreviation (input) LF :: nat where "LF \<equiv> 10"
abbreviation (input) CR :: nat where "CR \<equiv> 13"

text \<open>\<open>split(/\r?\n/)\<close>\<close>

fun split_lines :: "ustring \<Rightarrow> ustring list" where
  "split_lines [] = [[]]"
| "split_lines [c] = (if c = 10 then [[], []] else [[c]])"
| "split_lines (c # c' # cs) =
     (if c = 10 then [] # split_lines (c' # cs)
      else if c = 13 \<and> c' = 10 then [] # split_lines cs
      else (case split_lines (c' # cs) of
              [] \<Rightarrow> [[c]]
            | p # ps \<Rightarrow> (c # p) # ps))"

text \<open>
  The closure holds \<open>buffer\<close>.  \<open>write\<close> and \<open>flush\<close> give the lines passed to \<open>onLine\<close> and
  the new buffer; \<open>parts.pop() ?? ''\<close> takes the last part off.
\<close>

definition pop_last :: "ustring list \<Rightarrow> ustring" where
  "pop_last parts = (if parts = [] then [] else last parts)"

definition lb_write :: "ustring \<Rightarrow> ustring \<Rightarrow> ustring list \<times> ustring" where
  "lb_write buffer chunk =
     (let parts = split_lines (buffer @ chunk) in (butlast parts, pop_last parts))"

definition lb_flush :: "ustring \<Rightarrow> ustring list \<times> ustring" where
  "lb_flush buffer = (if length buffer > 0 then ([buffer], []) else ([], []))"

fun lb_writes :: "ustring \<Rightarrow> ustring list \<Rightarrow> ustring list \<times> ustring" where
  "lb_writes buffer [] = ([], buffer)"
| "lb_writes buffer (chunk # chunks) =
     (case lb_write buffer chunk of (ls, buffer') \<Rightarrow>
        case lb_writes buffer' chunks of (ls', buffer'') \<Rightarrow> (ls @ ls', buffer''))"

text \<open>A whole output: every chunk written, then the flush when the process closes.\<close>

definition lb_run :: "ustring list \<Rightarrow> ustring list" where
  "lb_run chunks = (case lb_writes [] chunks of (ls, buffer) \<Rightarrow> ls @ fst (lb_flush buffer))"

section \<open>Splitting\<close>

lemma split_lines_nonempty [simp]: "split_lines s \<noteq> []"
  by (induction s rule: split_lines.induct) (auto split: list.splits)

lemma pop_last_split [simp]: "pop_last (split_lines s) = last (split_lines s)"
  by (simp add: pop_last_def)

lemma split_lines_LF [simp]: "split_lines (10 # s) = [] # split_lines s"
  by (cases s) simp_all

lemma split_lines_CRLF [simp]: "split_lines (13 # 10 # s) = [] # split_lines s"
  by simp

lemma split_lines_other:
  assumes "c \<noteq> 10" "\<not> (c = 13 \<and> s \<noteq> [] \<and> hd s = 10)"
  shows "split_lines (c # s) = (c # hd (split_lines s)) # tl (split_lines s)"
  using assms by (cases s) (auto split: list.splits)

lemma split_lines_cases [case_names Nil LF CRLF other]:
  assumes "s = [] \<Longrightarrow> P"
    and "\<And>t. s = 10 # t \<Longrightarrow> P"
    and "\<And>t. s = 13 # 10 # t \<Longrightarrow> P"
    and "\<And>c t. s = c # t \<Longrightarrow> c \<noteq> 10 \<Longrightarrow> \<not> (c = 13 \<and> t \<noteq> [] \<and> hd t = 10) \<Longrightarrow> P"
  shows P
proof (cases s)
  case (Cons c t)
  show ?thesis
  proof (cases "c = 10")
    case False
    show ?thesis
    proof (cases "c = 13 \<and> t \<noteq> [] \<and> hd t = 10")
      case True
      then have "s = 13 # 10 # tl t" using Cons by (cases t) auto
      then show ?thesis by (rule assms(3))
    qed (use Cons False assms(4) in blast)
  qed (use Cons assms(2) in simp)
qed (rule assms(1))

lemma split_lines_single: "split_lines s = [p] \<Longrightarrow> s = p"
proof (induction "length s" arbitrary: s p rule: less_induct)
  case less
  show ?case
  proof (cases s rule: split_lines_cases)
    case (other c u)
    obtain q qs where sp: "split_lines u = q # qs" by (cases "split_lines u") simp_all
    with less(2) have "split_lines u = [tl p]" "p \<noteq> []" "hd p = c"
      by (auto simp: other(1) split_lines_other[OF other(2,3)])
    moreover from this(1) have "u = tl p" using less(1)[of u] other(1) by simp
    ultimately show ?thesis using other(1) by (cases p) simp_all
  qed (use less(2) in simp_all)
qed

text \<open>Splitting a concatenation: the last part of the left is completed by the right.\<close>

lemma split_lines_append:
  "split_lines (s @ t) = butlast (split_lines s) @ split_lines (last (split_lines s) @ t)"
proof (induction "length s" arbitrary: s rule: less_induct)
  case less
  show ?case
  proof (cases s rule: split_lines_cases)
    case (LF u)
    with less[of u] show ?thesis by simp
  next
    case (CRLF u)
    with less[of u] show ?thesis by simp
  next
    case (other c u)
    note step = split_lines_other[OF other(2)]
    show ?thesis
    proof (cases "u = []")
      case True
      with other show ?thesis by simp
    next
      case False
      with other(3) have uc: "\<not> (c = 13 \<and> u \<noteq> [] \<and> hd u = 10)"
        "\<not> (c = 13 \<and> u @ t \<noteq> [] \<and> hd (u @ t) = 10)" by auto
      obtain p ps where sp: "split_lines u = p # ps"
        by (cases "split_lines u") simp_all
      have IH: "split_lines (u @ t) = butlast (p # ps) @ split_lines (last (p # ps) @ t)"
        using less[of u] other(1) by (simp add: sp)
      show ?thesis
      proof (cases "ps = []")
        case False
        with IH sp show ?thesis
          by (simp add: other(1) step[OF uc(1)] step[OF uc(2)])
      next
        case True
        with sp have "u = p" by (simp add: split_lines_single)
        with sp True step[OF uc(1)] have "split_lines s = [s]"
          by (simp only: other(1) list.sel)
        then show ?thesis by simp
      qed
    qed
  qed simp
qed

text \<open>What stays in the buffer holds no line break.\<close>

lemma split_lines_last [simp]: "split_lines (last (split_lines s)) = [last (split_lines s)]"
proof -
  have "butlast (split_lines s) @ split_lines (last (split_lines s)) = split_lines s"
    using split_lines_append[of s "[]"] by simp
  then show ?thesis
    by (metis append_butlast_last_id same_append_eq split_lines_nonempty)
qed

lemma lb_writes_parts:
  assumes "lb_writes buffer chunks = (ls, rest)" "split_lines buffer = [buffer]"
  shows "ls @ [rest] = split_lines (buffer @ concat chunks)"
  using assms
proof (induction chunks arbitrary: buffer ls rest)
  case Nil
  then show ?case by simp
next
  case (Cons chunk chunks)
  let ?parts = "split_lines (buffer @ chunk)"
  obtain ls2 where w: "lb_writes (last ?parts) chunks = (ls2, rest)" "ls = butlast ?parts @ ls2"
    using Cons.prems(1) by (auto simp: lb_write_def Let_def split: prod.splits)
  from Cons.IH[OF w(1)] have "ls2 @ [rest] = split_lines (last ?parts @ concat chunks)" by simp
  then show ?case
    using split_lines_append[of "buffer @ chunk" "concat chunks"] by (simp add: w(2))
qed

lemma lb_run_split:
  "lb_run chunks =
     (let parts = split_lines (concat chunks)
      in if last parts = [] then butlast parts else parts)"
proof -
  obtain ls rest where w: "lb_writes [] chunks = (ls, rest)" by fastforce
  from lb_writes_parts[OF w] have p: "split_lines (concat chunks) = ls @ [rest]" by simp
  show ?thesis by (simp add: lb_run_def w lb_flush_def p)
qed

text \<open>
  The lines a job's output is logged as are those of the whole output split
  at its line breaks (the unfinished last one kept unless empty), however the output was
  cut into chunks, also when a chunk ends between CR and LF.
\<close>

theorem lb_run_chunking:
  "lb_run chunks =
     (let parts = split_lines (concat chunks)
      in if last parts = [] then butlast parts else parts)"
  by (rule lb_run_split)

lemma split_lines_no_LF: "l \<in> set (split_lines s) \<Longrightarrow> 10 \<notin> set l"
proof (induction "length s" arbitrary: s l rule: less_induct)
  case less
  show ?case
  proof (cases s rule: split_lines_cases)
    case (other c u)
    obtain q qs where sp: "split_lines u = q # qs" by (cases "split_lines u") simp_all
    from less(2) have "l = c # q \<or> l \<in> set qs"
      by (simp add: other(1) split_lines_other[OF other(2,3)] sp)
    then show ?thesis using less(1)[of u] sp other(1,2) by auto
  next
    case (CRLF t)
    with less(2) show ?thesis using less(1)[of t l] by auto
  qed (use less in auto)
qed

lemma split_lines_line:
  assumes "10 \<notin> set l" "13 \<notin> set l"
  shows "split_lines (l @ 10 # s) = l # split_lines s"
    and "split_lines (l @ 13 # 10 # s) = l # split_lines s"
proof -
  show "split_lines (l @ 10 # s) = l # split_lines s"
    using assms
  proof (induction l)
    case (Cons c l)
    then show ?case using split_lines_other[of c "l @ 10 # s"] by auto
  qed simp
  show "split_lines (l @ 13 # 10 # s) = l # split_lines s"
    using assms
  proof (induction l)
    case (Cons c l)
    then show ?case using split_lines_other[of c "l @ 13 # 10 # s"] by auto
  qed simp
qed

text \<open>
  Lines printed one after the other, each ended by LF or CR LF and cut into
  chunks anywhere, are logged as exactly these lines, in this order.
\<close>

theorem lb_run_roundtrip:
  assumes "\<forall>l \<in> set ls. 10 \<notin> set l \<and> 13 \<notin> set l"
    and "list_all2 (\<lambda>l p. p = l @ [10] \<or> p = l @ [13, 10]) ls printed"
    and "concat chunks = concat printed"
  shows "lb_run chunks = ls"
proof -
  have "split_lines (concat printed) = ls @ [[]]"
    using assms(2,1)
  proof (induction rule: list_all2_induct)
    case (Cons l ls p ps)
    then show ?case using split_lines_line[of l "concat ps"] by auto
  qed simp
  then show ?thesis by (simp add: lb_run_chunking assms(3))
qed

theorem lb_run_roundtrip_witness:
  "lb_run [[104, 105, 13], [10, 120], [10]] = [[104, 105], [120]]"
  by (rule lb_run_roundtrip[where printed = "[[104, 105, 13, 10], [120, 10]]"]) simp_all

end
