(* ===== verification/DeployEnv.thy ===== *)
theory DeployEnv
  imports Prelude
begin

text \<open>
  \<open>guessDeployEnvironment\<close> (src/src/worker/job-executor.service.ts): which environment a
  deploy command is about.
\<close>

text \<open>The characters JavaScript's \<open>trim\<close> and \<open>\s\<close> take for white space.\<close>

definition is_space :: "nat \<Rightarrow> bool" where
  "is_space c \<longleftrightarrow> 9 \<le> c \<and> c \<le> 13 \<or> c = 32 \<or> c = 160 \<or> c = 5760 \<or> 8192 \<le> c \<and> c \<le> 8202 \<or>
     c = 8232 \<or> c = 8233 \<or> c = 8239 \<or> c = 8287 \<or> c = 12288 \<or> c = 65279"

definition trim :: "ustring \<Rightarrow> ustring" where
  "trim s = rev (dropWhile is_space (rev (dropWhile is_space s)))"

text \<open>\<open>split(/\s+/)\<close>\<close>

function split_spaces :: "ustring \<Rightarrow> ustring list" where
  "split_spaces [] = [[]]"
| "split_spaces (c # cs) =
     (if is_space c then [] # split_spaces (dropWhile is_space cs)
      else (case split_spaces cs of [] \<Rightarrow> [[c]] | p # ps \<Rightarrow> (c # p) # ps))"
  by pat_completeness auto
termination
  by (relation "measure length") (auto simp: le_imp_less_Suc length_dropWhile_le)

text \<open>\<open>split(/\s+/).filter(Boolean)\<close>\<close>

definition tokens_of :: "ustring \<Rightarrow> ustring list" where
  "tokens_of cmd = filter (\<lambda>t. t \<noteq> []) (split_spaces cmd)"

definition starts_with :: "ustring \<Rightarrow> ustring \<Rightarrow> bool" where
  "starts_with t s \<longleftrightarrow> take (length t) s = t"

text \<open>\<open>s.includes(t)\<close>\<close>

fun js_includes :: "ustring \<Rightarrow> ustring \<Rightarrow> bool" where
  "js_includes [] t \<longleftrightarrow> t = []"
| "js_includes (c # s) t \<longleftrightarrow> starts_with t (c # s) \<or> js_includes s t"

text \<open>\<open>tokens.at(-1)\<close>\<close>

definition at_last :: "'a list \<Rightarrow> 'a option" where
  "at_last xs = (if xs = [] then None else Some (last xs))"

definition environments :: "ustring list" where
  "environments = [lit ''production'', lit ''staging'', lit ''dev'', lit ''test'']"

definition guessDeployEnvironment :: "ustring \<Rightarrow> ustring" where
  "guessDeployEnvironment command =
     (let cmd = trim command;
          last_token = at_last (tokens_of cmd)
      in case last_token of
           Some t \<Rightarrow>
             if t \<in> set environments then t
             else if js_includes cmd (lit ''production'') then lit ''production''
             else if js_includes cmd (lit ''staging'') then lit ''staging''
             else lit ''production''
         | None \<Rightarrow>
             if js_includes cmd (lit ''production'') then lit ''production''
             else if js_includes cmd (lit ''staging'') then lit ''staging''
             else lit ''production'')"

lemma js_includes_iff: "js_includes s t \<longleftrightarrow> (\<exists>u v. s = u @ t @ v)"
proof (induction s)
  case Nil
  then show ?case by auto
next
  case (Cons c s)
  have "starts_with t (c # s) \<longleftrightarrow> (\<exists>v. c # s = t @ v)"
    unfolding starts_with_def by (metis append_eq_conv_conj append_take_drop_id)
  moreover have "(\<exists>u v. c # s = u @ t @ v) \<longleftrightarrow>
      (\<exists>v. c # s = t @ v) \<or> (\<exists>u v. s = u @ t @ v)"
    by (metis append_Cons append_Nil list.inject neq_Nil_conv)
  ultimately show ?case using Cons by simp
qed

lemma split_spaces_nonempty [simp]: "split_spaces s \<noteq> []"
  by (induction s rule: split_spaces.induct) (auto split: list.splits)

text \<open>A command that ends in a blank and a word without blanks has that word last.\<close>

lemma split_spaces_word:
  "\<forall>c \<in> set w. \<not> is_space c \<Longrightarrow> split_spaces w = [w]"
  by (induction w) auto

lemma split_spaces_blank:
  assumes "is_space b"
  shows "split_spaces (s @ b # w) \<noteq> [p]"
proof (induction s arbitrary: p)
  case Nil
  then show ?case using assms by simp
next
  case (Cons c s)
  obtain q qs where sp: "split_spaces (s @ b # w) = q # qs"
    by (cases "split_spaces (s @ b # w)") simp_all
  with Cons[of q] have "qs \<noteq> []" by simp
  with sp show ?case by simp
qed

lemma last_split_spaces:
  assumes "\<forall>c \<in> set w. \<not> is_space c" "w \<noteq> []" "is_space b"
  shows "last (split_spaces (s @ b # w)) = w"
proof (induction s rule: split_spaces.induct)
  case 1
  from assms(1,2) have "dropWhile is_space w = w" by (cases w) auto
  with assms show ?case by (simp add: split_spaces_word)
next
  case (2 c cs)
  show ?case
  proof (cases "is_space c")
    case True
    show ?thesis
    proof (cases "\<forall>x \<in> set cs. is_space x")
      case True
      then have *: "dropWhile is_space (cs @ b # w) = w"
        using assms by (cases w) (auto simp: dropWhile_append2)
      show ?thesis using \<open>is_space c\<close> assms(1) by (simp add: * split_spaces_word)
    next
      case False
      then have *: "dropWhile is_space (cs @ b # w) = dropWhile is_space cs @ b # w"
        by (auto simp: dropWhile_append1)
      show ?thesis using 2(1) \<open>is_space c\<close> by (simp add: *)
    qed
  next
    case False
    obtain p ps where sp: "split_spaces (cs @ b # w) = p # ps"
      by (cases "split_spaces (cs @ b # w)") simp_all
    have "ps \<noteq> []"
      using split_spaces_blank[OF assms(3), of cs w] sp by auto
    with 2(2)[OF False] sp False show ?thesis by simp
  qed
qed

lemma filter_last:
  "xs \<noteq> [] \<Longrightarrow> last xs \<noteq> [] \<Longrightarrow>
     filter (\<lambda>t. t \<noteq> []) xs \<noteq> [] \<and> last (filter (\<lambda>t. t \<noteq> []) xs) = last xs"
  by (induction xs rule: rev_induct) auto

lemma guess_last_token:
  "tokens_of (trim command) \<noteq> [] \<Longrightarrow> last (tokens_of (trim command)) \<in> set environments \<Longrightarrow>
     guessDeployEnvironment command = last (tokens_of (trim command))"
  by (simp add: guessDeployEnvironment_def at_last_def)

text \<open>
  The environment of a deploy is always one of production, staging, dev and
  test, so a deploy can only ever take one of four locks.
\<close>

theorem guess_environment_range: "guessDeployEnvironment command \<in> set environments"
  by (auto simp: guessDeployEnvironment_def Let_def environments_def split: option.split)

lemma trim_word:
  assumes "w \<noteq> []" "\<forall>c \<in> set w. \<not> is_space c" "is_space b"
  shows "trim (s @ b # w) = w \<or> (\<exists>u. trim (s @ b # w) = u @ b # w)"
proof -
  let ?d = "dropWhile is_space (s @ b # w)"
  have w: "dropWhile is_space w = w" using assms by (cases w) auto
  have rw: "dropWhile is_space (rev w @ x) = rev w @ x" for x
    using assms by (cases "rev w") auto
  show ?thesis
  proof (cases "\<forall>c \<in> set s. is_space c")
    case True
    then have "?d = w" using assms(3) w by (simp add: dropWhile_append2)
    then show ?thesis using rw[of "[]"] by (simp add: trim_def)
  next
    case False
    then have "?d = dropWhile is_space s @ b # w" by (auto simp: dropWhile_append1)
    then have "trim (s @ b # w) = dropWhile is_space s @ b # w"
      using rw by (simp add: trim_def)
    then show ?thesis by blast
  qed
qed

lemma guess_word:
  assumes "w \<in> set environments" "is_space b"
  shows "guessDeployEnvironment (s @ b # w) = w"
proof -
  have w: "w \<noteq> []" "\<forall>c \<in> set w. \<not> is_space c"
    using assms(1) by (auto simp: environments_def lit_def is_space_def)
  have "last (split_spaces (trim (s @ b # w))) = w"
    using trim_word[OF w assms(2), of s] last_split_spaces[OF w(2,1) assms(2)]
    by (auto simp: split_spaces_word[OF w(2)])
  then have "last (tokens_of (trim (s @ b # w))) = w" "tokens_of (trim (s @ b # w)) \<noteq> []"
    using filter_last[of "split_spaces (trim (s @ b # w))"] w(1)
    unfolding tokens_of_def by simp_all
  with assms(1) show ?thesis using guess_last_token[of "s @ b # w"] by simp
qed

text \<open>
  A command whose last word is one of the four environments deploys to that
  one, whatever else it mentions (\<open>./deploy.sh staging\<close> deploys to staging).
\<close>

theorem guess_last_word:
  assumes "w \<in> set environments" "is_space b"
  shows "guessDeployEnvironment (s @ b # w) = w"
  by (rule guess_word[OF assms])

theorem guess_last_word_witness:
  "guessDeployEnvironment (lit ''./deploy.sh'' @ 32 # lit ''staging'') = lit ''staging''"
  by (rule guess_last_word) (simp_all add: environments_def is_space_def)

end
