(* ===== verification/JobExecutor.thy ===== *)
theory JobExecutor
  imports Heartbeat DeploymentLock LogStream LineBuffer DeployEnv
begin

text \<open>
  \<open>JobExecutorService.execute\<close> (src/src/worker/job-executor.service.ts): the deploy lock,
  the logs, the child process, the heartbeat while it runs, the release in the end.

  The record \<open>runtime\<close> holds what lies outside the source: the hash and the pooled client
  of the lock service, the printing of the log trigger, and what the shell does with a
  command: the list of the events of its child process, with the firings of the heartbeat
  interval (every 10 seconds) among them.
\<close>

text \<open>
  \<open>Close None\<close>: the process was killed by a signal.  The chunks are the decoded output.
\<close>

datatype child_event =
    Stdout ustring
  | Stderr ustring
  | Heartbeat_Due
  | Close "int option"
  | Child_Error ustring

record runtime =
  rt_hashtext :: "ustring \<Rightarrow> int"
  rt_session :: session
  rt_format :: pg_format
  rt_child :: "timestamp \<Rightarrow> ustring \<Rightarrow> child_event list"

text \<open>\<open>this.logStream.appendLog(String(jobId), line, level).catch(() => {})\<close>\<close>

definition log_line :: "runtime \<Rightarrow> uuid \<Rightarrow> ustring \<Rightarrow> ustring \<Rightarrow> unit act" where
  "log_line rt jobId line level =
     ignore_error (seq (appendLog (rt_format rt) (Some jobId) line level) (\<lambda>_. ret ()))"

fun log_lines :: "runtime \<Rightarrow> uuid \<Rightarrow> ustring \<Rightarrow> ustring list \<Rightarrow> unit act" where
  "log_lines rt jobId level [] = ret ()"
| "log_lines rt jobId level (l # ls) =
     seq (log_line rt jobId l level) (\<lambda>_. log_lines rt jobId level ls)"

text \<open>
  The promise around the child: \<open>out\<close> and \<open>err\<close> are the two line buffers, \<open>settled\<close> the
  exit code it resolved to, once it did.  The log inserts are not awaited by the code; they
  run here in the order in which it issues them.
\<close>

fun run_child ::
  "runtime \<Rightarrow> uuid \<Rightarrow> child_event list \<Rightarrow> ustring \<Rightarrow> ustring \<Rightarrow> int option \<Rightarrow> int act" where
  "run_child rt jobId [] out err settled =
     (case settled of None \<Rightarrow> hang | Some code \<Rightarrow> ret code)"
| "run_child rt jobId (Stdout chunk # es) out err settled =
     (case lb_write out chunk of (ls, out') \<Rightarrow>
        seq (log_lines rt jobId (lit ''info'') ls) (\<lambda>_. run_child rt jobId es out' err settled))"
| "run_child rt jobId (Stderr chunk # es) out err settled =
     (case lb_write err chunk of (ls, err') \<Rightarrow>
        seq (log_lines rt jobId (lit ''error'') ls) (\<lambda>_. run_child rt jobId es out err' settled))"
| "run_child rt jobId (Heartbeat_Due # es) out err settled =
     (if settled = None
      then seq (ignore_error (tick (Some jobId))) (\<lambda>_. run_child rt jobId es out err settled)
      else run_child rt jobId es out err settled)"
| "run_child rt jobId (Close code # es) out err settled =
     (case (lb_flush out, lb_flush err) of ((ls, out'), (ls', err')) \<Rightarrow>
        seq (log_lines rt jobId (lit ''info'') ls) (\<lambda>_.
        seq (log_lines rt jobId (lit ''error'') ls') (\<lambda>_.
        run_child rt jobId es out' err'
          (case settled of Some c \<Rightarrow> Some c
           | None \<Rightarrow> Some (case code of None \<Rightarrow> 1 | Some c \<Rightarrow> c)))))"
| "run_child rt jobId (Child_Error message # es) out err settled =
     (case (lb_flush out, lb_flush err) of ((ls, out'), (ls', err')) \<Rightarrow>
        seq (log_lines rt jobId (lit ''info'') ls) (\<lambda>_.
        seq (log_lines rt jobId (lit ''error'') ls') (\<lambda>_.
        seq (log_line rt jobId (lit ''Execution error: '' @ message) (lit ''error'')) (\<lambda>_.
        run_child rt jobId es out' err'
          (case settled of Some c \<Rightarrow> Some c | None \<Rightarrow> Some 1)))))"

definition spawn_child :: "runtime \<Rightarrow> uuid \<Rightarrow> ustring \<Rightarrow> int act" where
  "spawn_child rt jobId command w =
     run_child rt jobId (rt_child rt (clock w) command) [] [] None w"

text \<open>From the start of the heartbeat on: the exec line, then the child.\<close>

definition run_command :: "runtime \<Rightarrow> uuid \<Rightarrow> ustring \<Rightarrow> ustring \<Rightarrow> int act" where
  "run_command rt jobId command workerId =
     seq (appendLog (rt_format rt) (Some jobId)
           (lit ''worker='' @ workerId @ lit '' exec: '' @ command) (lit ''info'')) (\<lambda>_.
     spawn_child rt jobId command)"

definition EX_TEMPFAIL :: int where "EX_TEMPFAIL = 75"

definition execute :: "runtime \<Rightarrow> job_object \<Rightarrow> ustring \<Rightarrow> int act" where
  "execute rt job workerId =
     (case jo_id job of
        None \<Rightarrow> ret 1
      | Some jobId \<Rightarrow>
          if jo_stage job = lit ''deploy'' then
            (let env = guessDeployEnvironment (jo_command job) in
             seq (tryAcquire (rt_hashtext rt) (rt_session rt) env (jo_pipeline_run_id job)) (\<lambda>lock.
             if \<not> acquired lock then
               seq (appendLog (rt_format rt) (Some jobId)
                     (lit ''Deploy lock busy for '' @ env @ lit ''; skipping'') (lit ''warn'')) (\<lambda>_.
               ret EX_TEMPFAIL)
             else
               try_finally
                 (seq (appendLog (rt_format rt) (Some jobId)
                        (lit ''Acquired deploy lock for '' @ env) (lit ''info'')) (\<lambda>_.
                  run_command rt jobId (jo_command job) workerId))
                 (run_release (rt_hashtext rt) (release lock))))
          else run_command rt jobId (jo_command job) workerId)"

end
