(* ===== verification/WebhookQueue.thy ===== *)
theory WebhookQueue
  imports Effects ClaimQueue
begin

text \<open>
  \<open>WebhookQueueService\<close> (src/src/queue/webhook-queue.service.ts): the outbox of
  notifications, claimed like jobs, POSTed, and retried with exponential backoff.

  Parameters: \<open>sh\<close>, the shape of the result of an UPDATE ... RETURNING (as in \<open>JobQueue\<close>),
  and \<open>http\<close>, what \<open>fetch\<close> comes to for a URL and a body at a time.
\<close>

section \<open>The statements\<close>

definition sql_enqueue_notification ::
  "ustring \<Rightarrow> (ustring \<times> json) list \<Rightarrow> ustring \<Rightarrow> int \<Rightarrow> webhook_outbox stmt" where
  "sql_enqueue_notification eventType payload webhookUrl maxRetries now d =
     (if \<not> fits_int4 maxRetries then Inl Out_Of_Range
      else if length eventType > 100 then Inl String_Too_Long
      else let w = \<lparr>w_id = next_uuid d, w_event_type = eventType, w_payload = payload,
                w_webhook_url = webhookUrl, w_status = Hook_Pending, w_retry_count = 0,
                w_max_retries = maxRetries, w_next_retry_at = now, w_created_at = now,
                w_processed_at = None\<rparr>
           in Inr (w, d\<lparr>webhooks_outbox := webhooks_outbox d @ [w],
                next_uuid := next_uuid d + 1\<rparr>))"

definition hook_due :: "timestamp \<Rightarrow> webhook_outbox list \<Rightarrow> webhook_outbox \<Rightarrow> bool" where
  "hook_due now rows w \<longleftrightarrow> w_status w = Hook_Pending \<and> w_next_retry_at w \<le> now"

definition processing_set :: "timestamp \<Rightarrow> webhook_outbox \<Rightarrow> webhook_outbox" where
  "processing_set now w = w\<lparr>w_status := Processing\<rparr>"

definition processed_set :: "timestamp \<Rightarrow> webhook_outbox \<Rightarrow> webhook_outbox" where
  "processed_set now w = w\<lparr>w_status := Processed, w_processed_at := Some now\<rparr>"

text \<open>The interval \<open>power(2, retry_count + 1) || ' seconds'\<close>\<close>

definition backoff :: "int \<Rightarrow> timestamp" where
  "backoff retry_count = seconds (2 ^ nat (retry_count + 1))"

definition hook_failed_set :: "timestamp \<Rightarrow> webhook_outbox \<Rightarrow> webhook_outbox" where
  "hook_failed_set now w =
     w\<lparr>w_status := (if w_retry_count w + 1 \<ge> w_max_retries w then Hook_Failed else Hook_Pending),
       w_retry_count := w_retry_count w + 1,
       w_next_retry_at := (if w_retry_count w + 1 \<ge> w_max_retries w then w_next_retry_at w
          else now + backoff (w_retry_count w))\<rparr>"

definition sql_claim_next_webhook :: "webhook_outbox list stmt" where
  "sql_claim_next_webhook now d =
     (case claim_row w_id hook_due w_next_retry_at processing_set (row_locks d) now
        (webhooks_outbox d) of (got, rows) \<Rightarrow> Inr (got, d\<lparr>webhooks_outbox := rows\<rparr>))"

definition update_hook ::
  "uuid option \<Rightarrow> (webhook_outbox \<Rightarrow> webhook_outbox) \<Rightarrow> db \<Rightarrow> db" where
  "update_hook hookId f d =
     d\<lparr>webhooks_outbox := update_where (\<lambda>w. hookId = Some (w_id w)) f (webhooks_outbox d)\<rparr>"

definition sql_mark_webhook_processed :: "uuid option \<Rightarrow> unit stmt" where
  "sql_mark_webhook_processed hookId now d = Inr ((), update_hook hookId (processed_set now) d)"

definition sql_mark_webhook_failed :: "uuid option \<Rightarrow> unit stmt" where
  "sql_mark_webhook_failed hookId now d = Inr ((), update_hook hookId (hook_failed_set now) d)"

section \<open>The methods\<close>

text \<open>\<open>WebhookOutboxItem\<close>; a field is undefined when the returned object lacks it.\<close>

record outbox_item =
  oi_id :: "uuid option"
  oi_event_type :: "ustring option"
  oi_payload :: "(ustring \<times> json) list"
  oi_webhook_url :: "ustring option"
  oi_retry_count :: "int option"
  oi_max_retries :: "int option"

text \<open>
  \<open>mapRowToOutboxItem\<close>; \<open>Number(undefined)\<close> is not a number, and an undefined payload
  becomes the empty object.
\<close>

fun mapRowToOutboxItem :: "webhook_outbox cell \<Rightarrow> outbox_item" where
  "mapRowToOutboxItem (Row w) =
     \<lparr>oi_id = Some (w_id w), oi_event_type = Some (w_event_type w), oi_payload = w_payload w,
      oi_webhook_url = Some (w_webhook_url w), oi_retry_count = Some (w_retry_count w),
      oi_max_retries = Some (w_max_retries w)\<rparr>"
| "mapRowToOutboxItem _ =
     \<lparr>oi_id = None, oi_event_type = None, oi_payload = [], oi_webhook_url = None,
      oi_retry_count = None, oi_max_retries = None\<rparr>"

definition enqueueNotification ::
  "ustring \<Rightarrow> (ustring \<times> json) list \<Rightarrow> ustring \<Rightarrow> int option \<Rightarrow> webhook_outbox act" where
  "enqueueNotification eventType payload webhookUrl maxRetries =
     query (sql_enqueue_notification eventType payload webhookUrl
       (case maxRetries of None \<Rightarrow> 5 | Some n \<Rightarrow> n))"

definition claimNextWebhook :: "webhook_outbox shape \<Rightarrow> outbox_item option act" where
  "claimNextWebhook sh =
     seq (query sql_claim_next_webhook) (\<lambda>rows.
       ret (map_option mapRowToOutboxItem (first_cell (sh rows))))"

definition markWebhookProcessed :: "uuid option \<Rightarrow> unit act" where
  "markWebhookProcessed hookId = query (sql_mark_webhook_processed hookId)"

definition markWebhookFailed :: "uuid option \<Rightarrow> unit act" where
  "markWebhookFailed hookId = query (sql_mark_webhook_failed hookId)"

text \<open>Setting a property of a JavaScript object: a property that exists keeps its place.\<close>

fun put_prop :: "ustring \<Rightarrow> json \<Rightarrow> (ustring \<times> json) list \<Rightarrow> (ustring \<times> json) list" where
  "put_prop k v [] = [(k, v)]"
| "put_prop k v ((k', v') # fs) = (if k' = k then (k, v) # fs else (k', v') # put_prop k v fs)"

text \<open>The request body, \<open>{event_type: item.event_type, ...item.payload}\<close>.\<close>

definition request_body :: "outbox_item \<Rightarrow> json" where
  "request_body item =
     JObj (fold (\<lambda>(k, v) fs. put_prop k v fs) (oi_payload item)
       (case oi_event_type item of None \<Rightarrow> [] | Some t \<Rightarrow> [(lit ''event_type'', JStr t)]))"

datatype fetch_reply = Response int | Rejects

type_synonym net = "timestamp \<Rightarrow> ustring option \<Rightarrow> json \<Rightarrow> fetch_reply"

text \<open>\<open>await fetch(...)\<close>: the other processes run meanwhile.\<close>

definition fetch :: "net \<Rightarrow> ustring option \<Rightarrow> json \<Rightarrow> int act" where
  "fetch http url body w = (case elapse w of (f, w1) \<Rightarrow>
     (case http (clock w1) url body of
        Response status \<Rightarrow> (Done status, w1)
      | Rejects \<Rightarrow> (Threw Fetch_Rejected, w1)))"

text \<open>\<open>res.ok\<close>\<close>

definition res_ok :: "int \<Rightarrow> bool" where
  "res_ok status \<longleftrightarrow> 200 \<le> status \<and> status \<le> 299"

definition processOneWebhook :: "webhook_outbox shape \<Rightarrow> net \<Rightarrow> bool act" where
  "processOneWebhook sh http =
     seq (claimNextWebhook sh) (\<lambda>item.
       case item of
         None \<Rightarrow> ret False
       | Some it \<Rightarrow>
           try_catch
             (seq (fetch http (oi_webhook_url it) (request_body it)) (\<lambda>status.
              seq (if \<not> res_ok status then throw (Http_Error status) else ret ()) (\<lambda>_.
              seq (markWebhookProcessed (oi_id it)) (\<lambda>_.
              ret True))))
             (seq (markWebhookFailed (oi_id it)) (\<lambda>_.
              ret True)))"

section \<open>The contracts\<close>

interpretation wq: claim_queue w_id hook_due w_next_retry_at processing_set
    "\<lambda>w. w_status w \<noteq> Hook_Pending"
  by unfold_locales (auto simp: hook_due_def processing_set_def)

interpretation wr: retry_counter w_retry_count w_max_retries
    "\<lambda>w. w_status w = Hook_Failed" "\<lambda>w. w_status w = Hook_Pending" hook_failed_set
  by unfold_locales (auto simp: hook_failed_set_def)

lemma backoff_pos [simp]: "0 < backoff n"
  by (simp add: backoff_def)

lemma hook_set_ids [simp]:
  "w_id (processing_set now w) = w_id w" "w_id (processed_set now w) = w_id w"
  "w_id (hook_failed_set now w) = w_id w"
  by (simp_all add: processing_set_def processed_set_def hook_failed_set_def)

end
