(* ===== verification/Worker.thy ===== *)
theory Worker
  imports JobExecutor WebhookQueue
begin

text \<open>
  \<open>JobClaimerService\<close> and \<open>WorkerService\<close> (src/src/worker/job-claimer.service.ts,
  src/src/worker/worker.service.ts): the loop of a worker.

  The loops take a bound on their rounds; a loop that used it up has not returned yet,
  which is the outcome \<open>Hangs\<close>.
\<close>

section \<open>The claimer\<close>

definition claimNext :: "job shape \<Rightarrow> ustring \<Rightarrow> job_object option act" where
  "claimNext sh workerId = claimNextJob sh workerId"

text \<open>\<open>claimNextOrWait\<close>; \<open>has_signal\<close>: a signal was passed.\<close>

fun claimNextOrWait :: "nat \<Rightarrow> job shape \<Rightarrow> ustring \<Rightarrow> bool \<Rightarrow> job_object act" where
  "claimNextOrWait 0 sh workerId has_signal = hang"
| "claimNextOrWait (Suc n) sh workerId has_signal =
     seq is_aborted (\<lambda>a.
     if has_signal \<and> a then throw (Error_Message (lit ''claimNextOrWait aborted''))
     else
       seq (claimNext sh workerId) (\<lambda>job.
       case job of
         Some j \<Rightarrow> ret j
       | None \<Rightarrow> seq sleep (\<lambda>_. claimNextOrWait n sh workerId has_signal)))"

section \<open>The worker\<close>

text \<open>\<open>do { didWebhook = ... } while (didWebhook && !this.abort.signal.aborted)\<close>\<close>

fun drain_outbox :: "nat \<Rightarrow> webhook_outbox shape \<Rightarrow> net \<Rightarrow> unit act" where
  "drain_outbox 0 sh http = hang"
| "drain_outbox (Suc n) sh http =
     seq (processOneWebhook sh http) (\<lambda>didWebhook.
     seq is_aborted (\<lambda>a.
     if didWebhook \<and> \<not> a then drain_outbox n sh http else ret ()))"

text \<open>\<open>try { exitCode = await execute(...) } catch { exitCode = 1 }\<close>\<close>

definition execute_job :: "runtime \<Rightarrow> job_object \<Rightarrow> ustring \<Rightarrow> int act" where
  "execute_job rt job workerId = try_catch (execute rt job workerId) (ret 1)"

definition settle_job :: "job_object \<Rightarrow> int \<Rightarrow> unit act" where
  "settle_job job exitCode =
     (if exitCode = 0 then markCompleted (jo_id job) exitCode
      else markFailed (jo_id job) exitCode)"

text \<open>One round of the loop; \<open>False\<close> is \<open>return\<close>.\<close>

definition loop_try ::
  "nat \<Rightarrow> runtime \<Rightarrow> net \<Rightarrow> job shape \<Rightarrow> webhook_outbox shape \<Rightarrow> ustring \<Rightarrow> bool act" where
  "loop_try n rt http shj shw workerId =
     seq is_aborted (\<lambda>a.
     if a then ret False
     else
       seq (claimNext shj workerId) (\<lambda>job.
       case job of
         Some j \<Rightarrow>
           seq (execute_job rt j workerId) (\<lambda>exitCode.
           seq (settle_job j exitCode) (\<lambda>_.
           ret True))
       | None \<Rightarrow>
           seq (drain_outbox n shw http) (\<lambda>_.
           seq sleep (\<lambda>_.
           ret True))))"

definition loop_catch :: "bool act" where
  "loop_catch = seq is_aborted (\<lambda>a. if a then ret False else seq sleep (\<lambda>_. ret True))"

definition loop_round ::
  "nat \<Rightarrow> runtime \<Rightarrow> net \<Rightarrow> job shape \<Rightarrow> webhook_outbox shape \<Rightarrow> ustring \<Rightarrow> bool act" where
  "loop_round n rt http shj shw workerId =
     try_catch (loop_try n rt http shj shw workerId) loop_catch"

fun runLoop ::
  "nat \<Rightarrow> runtime \<Rightarrow> net \<Rightarrow> job shape \<Rightarrow> webhook_outbox shape \<Rightarrow> ustring \<Rightarrow> unit act" where
  "runLoop 0 rt http shj shw workerId = hang"
| "runLoop (Suc n) rt http shj shw workerId =
     seq is_aborted (\<lambda>a.
     if a then ret ()
     else
       seq (loop_round n rt http shj shw workerId) (\<lambda>go.
       if go then runLoop n rt http shj shw workerId else ret ()))"

end
