(* ===== verification/Pipelines.thy ===== *)
theory Pipelines
  imports Effects
begin

text \<open>
  \<open>PipelinesService\<close> and \<open>PipelinesController\<close>
  (src/src/api/pipelines/pipelines.service.ts, pipelines.controller.ts): pipelines and the
  creation of runs.  Request bodies are taken at their declared DTO types (src/src/dto);
  an id in a path is a uuid or a text that Postgres refuses to read as one.
\<close>

datatype path_id = Uuid_Param uuid | Malformed

definition uuid_param :: "path_id \<Rightarrow> db_error + uuid" where
  "uuid_param p = (case p of Uuid_Param i \<Rightarrow> Inr i | Malformed \<Rightarrow> Inl Invalid_Input)"

record create_pipeline_dto =
  cp_name :: ustring
  cp_repository :: ustring
  cp_config :: json

record update_pipeline_dto =
  up_name :: "ustring option"
  up_repository :: "ustring option"
  up_config :: "json option"

section \<open>Statements\<close>

text \<open>ORDER BY created_at DESC\<close>

definition sql_find_pipelines :: "pipeline list stmt" where
  "sql_find_pipelines now d = Inr (sort_key (\<lambda>p. - p_created_at p) (pipelines d), d)"

definition sql_find_pipeline :: "path_id \<Rightarrow> pipeline option stmt" where
  "sql_find_pipeline i now d = (case uuid_param i of
      Inl e \<Rightarrow> Inl e
    | Inr k \<Rightarrow> Inr (find (\<lambda>p. p_id p = k) (pipelines d), d))"

definition sql_find_pipeline_by_repository :: "ustring \<Rightarrow> pipeline option stmt" where
  "sql_find_pipeline_by_repository repo now d =
     Inr (find (\<lambda>p. p_repository p = repo) (pipelines d), d)"

definition sql_insert_pipeline :: "ustring \<Rightarrow> ustring \<Rightarrow> json \<Rightarrow> pipeline stmt" where
  "sql_insert_pipeline name repository config now d =
     (if length name > 255 \<or> length repository > 500 then Inl String_Too_Long
      else let p = \<lparr>p_id = next_uuid d, p_name = name, p_repository = repository,
                p_config = config, p_created_at = now, p_updated_at = now\<rparr>
           in Inr (p, d\<lparr>pipelines := pipelines d @ [p], next_uuid := next_uuid d + 1\<rparr>))"

text \<open>
  TypeORM's \<open>save\<close> of an entity that was loaded: the changed columns are updated together
  with updated_at; an unchanged entity is left; a row that has disappeared is inserted.
\<close>

definition sql_save_pipeline :: "pipeline \<Rightarrow> pipeline stmt" where
  "sql_save_pipeline p now d =
     (if length (p_name p) > 255 \<or> length (p_repository p) > 500 then Inl String_Too_Long
      else (case find (\<lambda>q. p_id q = p_id p) (pipelines d) of
          None \<Rightarrow> Inr (p, d\<lparr>pipelines := pipelines d @ [p]\<rparr>)
        | Some q \<Rightarrow>
            if p_name q = p_name p \<and> p_repository q = p_repository p \<and> p_config q = p_config p
            then Inr (p, d)
            else let p' = p\<lparr>p_updated_at := now\<rparr>
                 in Inr (p', d\<lparr>pipelines := update_where (\<lambda>q. p_id q = p_id p)
                      (\<lambda>q. q\<lparr>p_name := p_name p, p_repository := p_repository p,
                             p_config := p_config p, p_updated_at := now\<rparr>) (pipelines d)\<rparr>)))"

text \<open>
  DELETE FROM pipelines, with its cascade over runs, jobs and logs; a row of
  deployment_locks still refers to its run without a cascade and blocks the statement.
\<close>

definition sql_delete_pipeline :: "path_id \<Rightarrow> nat stmt" where
  "sql_delete_pipeline i now d = (case uuid_param i of
      Inl e \<Rightarrow> Inl e
    | Inr k \<Rightarrow>
        let gone_runs = r_id ` {r \<in> set (pipeline_runs d). r_pipeline_id r = k};
            gone_jobs = j_id ` {j \<in> set (jobs d). j_pipeline_run_id j \<in> gone_runs}
        in if \<exists>l \<in> set (deployment_locks d). dl_locked_by l \<in> Some ` gone_runs
           then Inl Foreign_Key_Violation
           else Inr (length (filter (\<lambda>p. p_id p = k) (pipelines d)),
             d\<lparr>pipelines := delete_where (\<lambda>p. p_id p = k) (pipelines d),
               pipeline_runs := delete_where (\<lambda>r. r_id r \<in> gone_runs) (pipeline_runs d),
               jobs := delete_where (\<lambda>j. j_id j \<in> gone_jobs) (jobs d),
               job_logs := delete_where (\<lambda>l. l_job_id l \<in> gone_jobs) (job_logs d)\<rparr>))"

definition sql_insert_run :: "uuid \<Rightarrow> ustring \<Rightarrow> json \<Rightarrow> pipeline_run stmt" where
  "sql_insert_run pipelineId triggerType triggerMetadata now d =
     (if length triggerType > 50 then Inl String_Too_Long
      else if pipelineId \<notin> p_id ` set (pipelines d) then Inl Foreign_Key_Violation
      else let r = \<lparr>r_id = next_uuid d, r_pipeline_id = pipelineId,
                r_trigger_type = triggerType, r_trigger_metadata = triggerMetadata,
                r_status = Pending, r_started_at = None, r_completed_at = None,
                r_created_at = now\<rparr>
           in Inr (r, d\<lparr>pipeline_runs := pipeline_runs d @ [r], next_uuid := next_uuid d + 1\<rparr>))"

section \<open>PipelinesService\<close>

definition pipelines_findAll :: "pipeline list act" where
  "pipelines_findAll = query sql_find_pipelines"

definition pipelines_findOne :: "path_id \<Rightarrow> pipeline option act" where
  "pipelines_findOne i = query (sql_find_pipeline i)"

definition findByRepository :: "ustring \<Rightarrow> pipeline option act" where
  "findByRepository repo = query (sql_find_pipeline_by_repository repo)"

definition pipelines_create :: "create_pipeline_dto \<Rightarrow> pipeline act" where
  "pipelines_create dto =
     query (sql_insert_pipeline (cp_name dto) (cp_repository dto) (cp_config dto))"

text \<open>\<open>Object.assign(pipeline, dto)\<close>\<close>

definition assign_dto :: "pipeline \<Rightarrow> update_pipeline_dto \<Rightarrow> pipeline" where
  "assign_dto p dto =
     p\<lparr>p_name := (case up_name dto of None \<Rightarrow> p_name p | Some n \<Rightarrow> n),
       p_repository := (case up_repository dto of None \<Rightarrow> p_repository p | Some r \<Rightarrow> r),
       p_config := (case up_config dto of None \<Rightarrow> p_config p | Some c \<Rightarrow> c)\<rparr>"

definition pipelines_service_update :: "path_id \<Rightarrow> update_pipeline_dto \<Rightarrow> pipeline act" where
  "pipelines_service_update i dto =
     seq (query (sql_find_pipeline i)) (\<lambda>found.
     case found of
       None \<Rightarrow> throw (Error_Message (lit ''Pipeline not found''))
     | Some p \<Rightarrow> query (sql_save_pipeline (assign_dto p dto)))"

definition pipelines_remove :: "path_id \<Rightarrow> unit act" where
  "pipelines_remove i =
     seq (query (sql_delete_pipeline i)) (\<lambda>affected.
     if affected = 0 then throw (Error_Message (lit ''Pipeline not found'')) else ret ())"

definition createPipelineRun :: "uuid \<Rightarrow> ustring \<Rightarrow> json option \<Rightarrow> pipeline_run act" where
  "createPipelineRun pipelineId triggerType triggerMetadata =
     query (sql_insert_run pipelineId triggerType
       (case triggerMetadata of None \<Rightarrow> JObj [] | Some JNull \<Rightarrow> JObj [] | Some m \<Rightarrow> m))"

section \<open>PipelinesController\<close>

definition pipeline_not_found :: js_error where
  "pipeline_not_found = Not_Found_Exception (lit ''Pipeline not found'')"

definition get_pipelines :: "pipeline list act" where
  "get_pipelines = pipelines_findAll"

definition get_pipeline :: "path_id \<Rightarrow> pipeline act" where
  "get_pipeline i =
     seq (pipelines_findOne i) (\<lambda>p.
     case p of None \<Rightarrow> throw pipeline_not_found | Some p \<Rightarrow> ret p)"

definition post_pipeline :: "create_pipeline_dto \<Rightarrow> pipeline act" where
  "post_pipeline dto = pipelines_create dto"

definition patch_pipeline :: "path_id \<Rightarrow> update_pipeline_dto \<Rightarrow> pipeline act" where
  "patch_pipeline i dto =
     seq (pipelines_findOne i) (\<lambda>p.
     case p of None \<Rightarrow> throw pipeline_not_found | Some _ \<Rightarrow> pipelines_service_update i dto)"

definition delete_pipeline :: "path_id \<Rightarrow> unit act" where
  "delete_pipeline i = try_catch (pipelines_remove i) (throw pipeline_not_found)"

end
