(* ===== verification/Runs.thy ===== *)
theory Runs
  imports Pipelines JobFacts
begin

text \<open>
  \<open>RunsService\<close> and \<open>RunsController\<close> (src/src/api/runs/runs.service.ts,
  runs.controller.ts): triggering a run, that is creating it and queueing the jobs of the
  pipeline's configuration, and reading runs, jobs and logs.

  The configuration is whatever JSON a client stored; the code reads it through
  \<open>PipelineConfig\<close> without a check, and a shape that does not fit ends in a TypeError at
  the point where JavaScript raises it.  The inserts are started one after the other and
  run concurrently (\<open>Promise.all\<close>): \<open>sched\<close> is the order in which the database gets them.
\<close>

section \<open>Reading\<close>

definition sql_find_runs :: "path_id option \<Rightarrow> pipeline_run list stmt" where
  "sql_find_runs pipelineId now d =
     (case pipelineId of
        None \<Rightarrow> Inr (take 100 (sort_key (\<lambda>r. - r_created_at r) (pipeline_runs d)), d)
      | Some p \<Rightarrow> (case uuid_param p of
            Inl e \<Rightarrow> Inl e
          | Inr k \<Rightarrow> Inr (take 100 (sort_key (\<lambda>r. - r_created_at r)
              (filter (\<lambda>r. r_pipeline_id r = k) (pipeline_runs d))), d)))"

definition sql_find_run :: "path_id \<Rightarrow> pipeline_run option stmt" where
  "sql_find_run i now d = (case uuid_param i of
      Inl e \<Rightarrow> Inl e
    | Inr k \<Rightarrow> Inr (find (\<lambda>r. r_id r = k) (pipeline_runs d), d))"

definition sql_find_run_with_jobs :: "path_id \<Rightarrow> (pipeline_run \<times> job list) option stmt" where
  "sql_find_run_with_jobs i now d = (case uuid_param i of
      Inl e \<Rightarrow> Inl e
    | Inr k \<Rightarrow> Inr (map_option (\<lambda>r. (r, run_jobs d k))
        (find (\<lambda>r. r_id r = k) (pipeline_runs d)), d))"

definition sql_find_logs :: "path_id \<Rightarrow> job_log list stmt" where
  "sql_find_logs i now d = (case uuid_param i of
      Inl e \<Rightarrow> Inl e
    | Inr k \<Rightarrow> Inr (sort_key l_timestamp (filter (\<lambda>l. l_job_id l = k) (job_logs d)), d))"

definition runs_findAll :: "path_id option \<Rightarrow> pipeline_run list act" where
  "runs_findAll pipelineId = query (sql_find_runs pipelineId)"

definition runs_findOne :: "path_id \<Rightarrow> pipeline_run option act" where
  "runs_findOne i = query (sql_find_run i)"

definition findOneWithJobs :: "path_id \<Rightarrow> (pipeline_run \<times> job list) option act" where
  "findOneWithJobs i = query (sql_find_run_with_jobs i)"

definition getJobLogs :: "path_id \<Rightarrow> job_log list act" where
  "getJobLogs i = query (sql_find_logs i)"

section \<open>The jobs of a configuration\<close>

text \<open>The arguments of one \<open>insertNewJob\<close>; an undefined property is \<open>None\<close>.\<close>

record job_insert =
  ji_stage :: "json option"
  ji_step_name :: "json option"
  ji_command :: "json option"
  ji_priority :: "json option"
  ji_stage_order :: nat
  ji_step_order :: nat

text \<open>\<open>v ?? d\<close>\<close>

definition nullish :: "json option \<Rightarrow> json \<Rightarrow> json option" where
  "nullish v d = (case v of None \<Rightarrow> Some d | Some JNull \<Rightarrow> Some d | Some x \<Rightarrow> Some x)"

text \<open>
  \<open>stage.steps.forEach(...)\<close>, from step \<open>k\<close> on: the inserts pushed, and whether it threw.
\<close>

fun step_inserts :: "json \<Rightarrow> nat \<Rightarrow> nat \<Rightarrow> json list \<Rightarrow> job_insert list \<times> bool" where
  "step_inserts stage stageIndex k [] = ([], False)"
| "step_inserts stage stageIndex k (step # steps) =
     (if step = JNull then ([], True)
      else (case step_inserts stage stageIndex (Suc k) steps of (ins, threw) \<Rightarrow>
        (\<lparr>ji_stage = js_prop stage ''name'', ji_step_name = js_prop step ''name'',
          ji_command = js_prop step ''command'',
          ji_priority = nullish (js_prop step ''priority'') (JNum 5),
          ji_stage_order = stageIndex, ji_step_order = k\<rparr> # ins, threw)))"

text \<open>\<open>config.stages.forEach(...)\<close>, from stage \<open>k\<close> on.\<close>

fun stage_inserts :: "nat \<Rightarrow> json list \<Rightarrow> job_insert list \<times> bool" where
  "stage_inserts k [] = ([], False)"
| "stage_inserts k (stage # stages) =
     (case js_prop stage ''steps'' of
        Some (JArr steps) \<Rightarrow>
          (case step_inserts stage k 0 steps of (ins, threw) \<Rightarrow>
             if threw then (ins, True)
             else (case stage_inserts (Suc k) stages of (ins', threw') \<Rightarrow> (ins @ ins', threw')))
      | _ \<Rightarrow> ([], True))"

fun truthy :: "json \<Rightarrow> bool" where
  "truthy JNull = False"
| "truthy (JBool b) = b"
| "truthy (JNum n) = (n \<noteq> 0)"
| "truthy (JStr s) = (s \<noteq> [])"
| "truthy _ = True"

text \<open>\<open>if (config?.stages?.length) { ... }\<close>: only an array has a \<open>forEach\<close>.\<close>

definition config_inserts :: "json \<Rightarrow> job_insert list \<times> bool" where
  "config_inserts config = (case js_prop config ''stages'' of
      Some (JArr stages) \<Rightarrow> (if stages = [] then ([], False) else stage_inserts 0 stages)
    | Some (JStr s) \<Rightarrow> ([], s \<noteq> [])
    | Some (JObj fs) \<Rightarrow>
        ([], case map_of fs (lit ''length'') of None \<Rightarrow> False | Some v \<Rightarrow> truthy v)
    | _ \<Rightarrow> ([], False))"

section \<open>Triggering\<close>

definition insert_job_of :: "pg_driver \<Rightarrow> uuid \<Rightarrow> job_insert \<Rightarrow> job act" where
  "insert_job_of b run_id a =
     insertNewJob b run_id (ji_stage a) (ji_step_name a) (ji_command a) (ji_priority a)
       (int (ji_stage_order a)) (int (ji_step_order a))"

text \<open>
  The started inserts all run; the first error, if any, is what \<open>Promise.all\<close> rejects with.
\<close>

fun run_inserts :: "pg_driver \<Rightarrow> uuid \<Rightarrow> job_insert list \<Rightarrow> js_error option act" where
  "run_inserts b run_id [] = ret None"
| "run_inserts b run_id (a # as) =
     seq (\<lambda>w. case insert_job_of b run_id a w of
             (Done _, w') \<Rightarrow> (Done None, w')
           | (Threw e, w') \<Rightarrow> (Done (Some e), w')
           | (Hangs, w') \<Rightarrow> (Hangs, w')) (\<lambda>first.
     seq (run_inserts b run_id as) (\<lambda>rest.
     ret (case first of None \<Rightarrow> rest | Some e \<Rightarrow> Some e)))"

definition triggerRun ::
  "pg_driver \<Rightarrow> (job_insert list \<Rightarrow> job_insert list) \<Rightarrow> path_id \<Rightarrow> ustring \<Rightarrow> json option \<Rightarrow>
     pipeline_run act" where
  "triggerRun b sched pipelineId triggerType triggerMetadata =
     seq (pipelines_findOne pipelineId) (\<lambda>found.
     case found of
       None \<Rightarrow> throw (Error_Message (lit ''Pipeline not found''))
     | Some pipeline \<Rightarrow>
         seq (createPipelineRun (p_id pipeline) triggerType triggerMetadata) (\<lambda>runRow.
         seq (runs_findOne (Uuid_Param (r_id runRow))) (\<lambda>run.
         case run of
           None \<Rightarrow> throw (Error_Message (lit ''Run not created''))
         | Some run \<Rightarrow>
             (case config_inserts (p_config pipeline) of (inserts, threw) \<Rightarrow>
                seq (run_inserts b (r_id run) (sched inserts)) (\<lambda>failed.
                if threw then throw Type_Error
                else (case failed of Some e \<Rightarrow> throw e | None \<Rightarrow> ret run))))))"

section \<open>RunsController\<close>

text \<open>\<open>pipelineId ? ... : undefined\<close>: an empty text filters nothing.\<close>

definition filter_id :: "(ustring \<Rightarrow> path_id) \<Rightarrow> ustring option \<Rightarrow> path_id option" where
  "filter_id parse pipelineId = (case pipelineId of
      None \<Rightarrow> None
    | Some t \<Rightarrow> if t = [] then None else Some (parse t))"

definition run_not_found :: js_error where
  "run_not_found = Not_Found_Exception (lit ''Run not found'')"

definition get_runs :: "path_id option \<Rightarrow> pipeline_run list act" where
  "get_runs pipelineId = runs_findAll pipelineId"

definition get_job_logs :: "path_id \<Rightarrow> path_id \<Rightarrow> job_log list act" where
  "get_job_logs runId jobId = getJobLogs jobId"

definition get_run_with_jobs :: "path_id \<Rightarrow> (pipeline_run \<times> job list) act" where
  "get_run_with_jobs i =
     seq (findOneWithJobs i) (\<lambda>r. case r of None \<Rightarrow> throw run_not_found | Some x \<Rightarrow> ret x)"

definition get_run :: "path_id \<Rightarrow> pipeline_run act" where
  "get_run i =
     seq (runs_findOne i) (\<lambda>r. case r of None \<Rightarrow> throw run_not_found | Some x \<Rightarrow> ret x)"

record trigger_run_dto =
  tr_pipelineId :: path_id
  tr_triggerType :: "ustring option"
  tr_trigger_metadata :: "json option"

definition post_run ::
  "pg_driver \<Rightarrow> (job_insert list \<Rightarrow> job_insert list) \<Rightarrow> trigger_run_dto \<Rightarrow> pipeline_run act" where
  "post_run b sched body =
     triggerRun b sched (tr_pipelineId body)
       (case tr_triggerType body of None \<Rightarrow> lit ''manual'' | Some t \<Rightarrow> t)
       (tr_trigger_metadata body)"

end
