(* ===== verification/GitWebhook.thy ===== *)
theory GitWebhook
  imports Runs
begin

text \<open>
  The push endpoint (src/src/api/webhooks/git-webhook.controller.ts): finding the
  repository in a payload, the pipeline of the repository, and triggering its run.
\<close>

definition string_prop :: "json \<Rightarrow> string \<Rightarrow> ustring option" where
  "string_prop v k = (case js_prop v k of Some (JStr s) \<Rightarrow> Some s | _ \<Rightarrow> None)"

text \<open>A property that is there and truthy.\<close>

definition truthy_prop :: "json \<Rightarrow> string \<Rightarrow> json option" where
  "truthy_prop v k = (case js_prop v k of
      None \<Rightarrow> None
    | Some x \<Rightarrow> if truthy x then Some x else None)"

definition gitlab_repo :: "json \<Rightarrow> ustring option" where
  "gitlab_repo body = (case truthy_prop body ''project'' of
      None \<Rightarrow> None
    | Some project \<Rightarrow> (case string_prop project ''path_with_namespace'' of
        Some s \<Rightarrow> Some s
      | None \<Rightarrow> string_prop project ''web_url''))"

definition getRepoFromPayload :: "json \<Rightarrow> ustring option" where
  "getRepoFromPayload body = (case string_prop body ''repo'' of
      Some s \<Rightarrow> Some s
    | None \<Rightarrow> (case truthy_prop body ''repository'' of
        None \<Rightarrow> gitlab_repo body
      | Some repo \<Rightarrow> (case string_prop repo ''full_name'' of
          Some s \<Rightarrow> Some s
        | None \<Rightarrow> (case string_prop repo ''clone_url'' of
            Some s \<Rightarrow> Some s
          | None \<Rightarrow> gitlab_repo body))))"

record push_response =
  pr_runId :: uuid
  pr_pipelineId :: uuid
  pr_status :: run_status

definition missing_repo :: js_error where
  "missing_repo = Bad_Request_Exception (lit ''Missing repo. Send repo, repository.full_name, repository.clone_url, or project.path_with_namespace'')"

definition no_pipeline :: "ustring \<Rightarrow> js_error" where
  "no_pipeline repo = Not_Found_Exception (lit ''No pipeline found for repository: '' @ repo)"

text \<open>\<open>if (!repo)\<close>: a missing or an empty repository.\<close>

definition handlePush ::
  "pg_driver \<Rightarrow> (job_insert list \<Rightarrow> job_insert list) \<Rightarrow> json \<Rightarrow> push_response act" where
  "handlePush b sched body =
     (case getRepoFromPayload body of
        None \<Rightarrow> throw missing_repo
      | Some repo \<Rightarrow>
          if repo = [] then throw missing_repo
          else
            seq (findByRepository repo) (\<lambda>found.
            case found of
              None \<Rightarrow> throw (no_pipeline repo)
            | Some pipeline \<Rightarrow>
                seq (triggerRun b sched (Uuid_Param (p_id pipeline)) (lit ''git_push'') (Some body)) (\<lambda>run.
                ret \<lparr>pr_runId = r_id run, pr_pipelineId = p_id pipeline, pr_status = r_status run\<rparr>)))"

end
