(* ===== verification/Dashboard.thy ===== *)
theory Dashboard
  imports Effects "HOL-Library.List_Lexorder"
begin

text \<open>
  The materialized view pipeline_stats (src/src/database/database-seed.service.ts) and
  \<open>DashboardService\<close> / \<open>DashboardController\<close> (src/src/api/dashboard): what the view holds
  after a refresh, its two ways of being refreshed, and the list of the deployment locks.

  Text is ordered by code points (the order of the collation C).
\<close>

section \<open>The view\<close>

text \<open>ROUND of a quotient of whole numbers: half away from zero.\<close>

definition round_div :: "int \<Rightarrow> int \<Rightarrow> int" where
  "round_div a b = (if a \<ge> 0 then (2 * a + b) div (2 * b) else - ((2 * (- a) + b) div (2 * b)))"

text \<open>
  ROUND(AVG(EXTRACT(EPOCH FROM (completed_at - started_at)))) over the runs with both.
\<close>

definition durations :: "pipeline_run list \<Rightarrow> int list" where
  "durations rs =
     map (\<lambda>r. the (r_completed_at r) - the (r_started_at r))
       (filter (\<lambda>r. r_started_at r \<noteq> None \<and> r_completed_at r \<noteq> None) rs)"

definition avg_duration :: "pipeline_run list \<Rightarrow> int option" where
  "avg_duration rs =
     (if durations rs = [] then None
      else Some (round_div (sum_list (durations rs))
        (int (length (durations rs)) * seconds 1)))"

definition max_created :: "pipeline_run list \<Rightarrow> timestamp option" where
  "max_created rs = (if rs = [] then None else Some (Max (r_created_at ` set rs)))"

text \<open>
  The rows of \<open>pipelines p LEFT JOIN pipeline_runs pr\<close> that pass
  \<open>pr.created_at > NOW() - INTERVAL '30 days' OR pr.id IS NULL\<close>, for one pipeline.
\<close>

definition joined_rows :: "timestamp \<Rightarrow> db \<Rightarrow> pipeline \<Rightarrow> pipeline_run option list" where
  "joined_rows now d p =
     (let rs = filter (\<lambda>r. r_pipeline_id r = p_id p) (pipeline_runs d);
          joined = (if rs = [] then [None] else map Some rs)
      in filter (\<lambda>x. case x of None \<Rightarrow> True
             | Some r \<Rightarrow> r_created_at r > now - seconds (30 * 24 * 3600)) joined)"

definition stats_row :: "pipeline \<Rightarrow> pipeline_run option list \<Rightarrow> pipeline_stats_row" where
  "stats_row p rows =
     (let rs = List.map_filter id rows in
      \<lparr>ps_pipeline_id = p_id p, ps_name = p_name p, ps_total_runs = length rs,
       ps_success_count = length (filter (\<lambda>r. r_status r = Success) rs),
       ps_failure_count = length (filter (\<lambda>r. r_status r = Failed) rs),
       ps_avg_duration_seconds = avg_duration rs, ps_last_run_at = max_created rs\<rparr>)"

text \<open>A group exists only when it has a row.\<close>

definition stats_of :: "timestamp \<Rightarrow> db \<Rightarrow> pipeline_stats_row list" where
  "stats_of now d =
     List.map_filter (\<lambda>p. let rows = joined_rows now d p
        in if rows = [] then None else Some (stats_row p rows)) (pipelines d)"

definition sql_create_matview :: "unit stmt" where
  "sql_create_matview now d =
     Inr ((), case pipeline_stats d of None \<Rightarrow> d\<lparr>pipeline_stats := Some (stats_of now d)\<rparr>
       | Some _ \<Rightarrow> d)"

text \<open>
  \<open>refresh_pipeline_stats()\<close> refreshes concurrently, which may be refused (\<open>refused\<close>);
  the plain REFRESH needs the view only.
\<close>

definition sql_refresh_concurrently :: "bool \<Rightarrow> unit stmt" where
  "sql_refresh_concurrently refused now d =
     (case pipeline_stats d of
        None \<Rightarrow> Inl Undefined_Table
      | Some _ \<Rightarrow> if refused then Inl Concurrent_Refresh_Failed
          else Inr ((), d\<lparr>pipeline_stats := Some (stats_of now d)\<rparr>))"

definition sql_refresh :: "unit stmt" where
  "sql_refresh now d =
     (case pipeline_stats d of
        None \<Rightarrow> Inl Undefined_Table
      | Some _ \<Rightarrow> Inr ((), d\<lparr>pipeline_stats := Some (stats_of now d)\<rparr>))"

section \<open>DashboardService\<close>

text \<open>ORDER BY last_run_at DESC NULLS LAST, name ASC\<close>

definition stats_before :: "pipeline_stats_row \<Rightarrow> pipeline_stats_row \<Rightarrow> bool" where
  "stats_before x y =
     (case (ps_last_run_at x, ps_last_run_at y) of
        (Some a, Some b) \<Rightarrow> b < a \<or> a = b \<and> ps_name x \<le> ps_name y
      | (Some a, None) \<Rightarrow> True
      | (None, Some b) \<Rightarrow> False
      | (None, None) \<Rightarrow> ps_name x \<le> ps_name y)"

fun insert_stats :: "pipeline_stats_row \<Rightarrow> pipeline_stats_row list \<Rightarrow> pipeline_stats_row list" where
  "insert_stats x [] = [x]"
| "insert_stats x (y # ys) = (if stats_before x y then x # y # ys else y # insert_stats x ys)"

definition sql_list_stats :: "pipeline_stats_row list stmt" where
  "sql_list_stats now d =
     (case pipeline_stats d of
        None \<Rightarrow> Inl Undefined_Table
      | Some rows \<Rightarrow> Inr (foldr insert_stats rows [], d))"

definition listPipelineStats :: "pipeline_stats_row list act" where
  "listPipelineStats = query sql_list_stats"

definition refreshPipelineStats :: "bool \<Rightarrow> unit act" where
  "refreshPipelineStats refused =
     try_catch (query (sql_refresh_concurrently refused)) (query sql_refresh)"

record deployment_lock_row =
  lr_environment :: ustring
  lr_locked_by :: "uuid option"
  lr_locked_at :: timestamp
  lr_run_status :: "run_status option"
  lr_pipeline_name :: "ustring option"

text \<open>\<open>LEFT JOIN pipeline_runs pr ON pr.id = dl.locked_by LEFT JOIN pipelines p\<close>\<close>

definition lock_row_of :: "db \<Rightarrow> deployment_lock \<Rightarrow> deployment_lock_row" where
  "lock_row_of d l =
     (let run = (case dl_locked_by l of None \<Rightarrow> None
            | Some i \<Rightarrow> find (\<lambda>r. r_id r = i) (pipeline_runs d));
          pipeline = (case run of None \<Rightarrow> None
            | Some r \<Rightarrow> find (\<lambda>p. p_id p = r_pipeline_id r) (pipelines d))
      in \<lparr>lr_environment = dl_environment l, lr_locked_by = dl_locked_by l,
          lr_locked_at = dl_locked_at l, lr_run_status = map_option r_status run,
          lr_pipeline_name = map_option p_name pipeline\<rparr>)"

definition sql_list_locks :: "deployment_lock_row list stmt" where
  "sql_list_locks now d =
     Inr (map (lock_row_of d) (sort_key dl_environment (deployment_locks d)), d)"

definition listDeploymentLocks :: "deployment_lock_row list act" where
  "listDeploymentLocks = query sql_list_locks"

section \<open>DashboardController\<close>

definition get_pipeline_stats :: "pipeline_stats_row list act" where
  "get_pipeline_stats = listPipelineStats"

text \<open>The response \<open>{ ok: true }\<close>.\<close>

definition post_refresh :: "bool \<Rightarrow> bool act" where
  "post_refresh refused = seq (refreshPipelineStats refused) (\<lambda>_. ret True)"

definition get_deployment_locks :: "deployment_lock_row list act" where
  "get_deployment_locks = listDeploymentLocks"

section \<open>What the view says\<close>

lemma map_filter_id_None [simp]: "List.map_filter id [None] = []"
  by (simp add: List.map_filter_def)

lemma map_filter_id_Some [simp]: "List.map_filter id (map Some xs) = xs"
  by (induction xs) (simp_all add: List.map_filter_def)

lemma joined_rows_cases:
  "joined_rows now d p =
     (let rs = filter (\<lambda>r. r_pipeline_id r = p_id p) (pipeline_runs d)
      in if rs = [] then [None]
         else map Some (filter (\<lambda>r. r_created_at r > now - seconds (30 * 24 * 3600)) rs))"
  by (simp add: joined_rows_def Let_def filter_map comp_def)

lemma in_stats_of:
  "x \<in> set (stats_of now d) \<longleftrightarrow>
     (\<exists>p \<in> set (pipelines d). joined_rows now d p \<noteq> [] \<and> x = stats_row p (joined_rows now d p))"
  by (auto simp: stats_of_def List.map_filter_def Let_def split: if_splits)

lemma length_filter_disjoint:
  "(\<And>x. x \<in> set xs \<Longrightarrow> \<not> (P x \<and> Q x)) \<Longrightarrow>
     length (filter P xs) + length (filter Q xs) \<le> length xs"
  by (induction xs) (auto simp: le_SucI)

text \<open>
  After a refresh the view has one row per pipeline at most, each counts the
  pipeline's runs of the last 30 days and no others, and successes and failures together
  do not exceed the total; a pipeline has no row exactly when it has runs and all of them
  are older than 30 days.
\<close>

theorem stats_rows:
  assumes "distinct (map p_id (pipelines d))"
  shows "distinct (map ps_pipeline_id (stats_of now d)) \<and>
    (\<forall>x \<in> set (stats_of now d). ps_success_count x + ps_failure_count x \<le> ps_total_runs x \<and>
       ps_total_runs x = length (filter (\<lambda>r. r_pipeline_id r = ps_pipeline_id x \<and>
          r_created_at r > now - seconds (30 * 24 * 3600)) (pipeline_runs d))) \<and>
    (\<forall>p \<in> set (pipelines d). p_id p \<notin> ps_pipeline_id ` set (stats_of now d) \<longleftrightarrow>
       (\<exists>r \<in> set (pipeline_runs d). r_pipeline_id r = p_id p) \<and>
       (\<forall>r \<in> set (pipeline_runs d). r_pipeline_id r = p_id p \<longrightarrow>
          r_created_at r \<le> now - seconds (30 * 24 * 3600)))"
proof (intro conjI ballI)
  have ids: "map ps_pipeline_id (stats_of now d) =
      map p_id (filter (\<lambda>p. joined_rows now d p \<noteq> []) (pipelines d))"
    unfolding stats_of_def by (induction "pipelines d" rule: list.induct)
      (auto simp: List.map_filter_def Let_def stats_row_def comp_def)
  then show "distinct (map ps_pipeline_id (stats_of now d))"
    using assms by (simp add: distinct_map_filter)
  fix x assume "x \<in> set (stats_of now d)"
  then obtain p where x: "x = stats_row p (joined_rows now d p)" and ne: "joined_rows now d p \<noteq> []"
    by (auto simp: in_stats_of)
  show "ps_success_count x + ps_failure_count x \<le> ps_total_runs x"
    by (simp add: x stats_row_def Let_def length_filter_disjoint)
  show "ps_total_runs x = length (filter (\<lambda>r. r_pipeline_id r = ps_pipeline_id x \<and>
      r_created_at r > now - seconds (30 * 24 * 3600)) (pipeline_runs d))"
    by (auto simp: x stats_row_def Let_def joined_rows_cases filter_empty_conv conj_commute
        intro!: arg_cong[where f = length] filter_cong)
next
  fix p assume p: "p \<in> set (pipelines d)"
  have "p_id p \<in> ps_pipeline_id ` set (stats_of now d) \<longleftrightarrow> joined_rows now d p \<noteq> []"
  proof
    assume "p_id p \<in> ps_pipeline_id ` set (stats_of now d)"
    then obtain q where "q \<in> set (pipelines d)" "joined_rows now d q \<noteq> []" "p_id q = p_id p"
      by (auto simp: in_stats_of stats_row_def Let_def)
    with pipeline_rows.key_unique[OF assms p] show "joined_rows now d p \<noteq> []" by metis
  next
    assume "joined_rows now d p \<noteq> []"
    with p have "stats_row p (joined_rows now d p) \<in> set (stats_of now d)"
      by (auto simp: in_stats_of)
    then show "p_id p \<in> ps_pipeline_id ` set (stats_of now d)"
      by (force simp: stats_row_def Let_def)
  qed
  then show "p_id p \<notin> ps_pipeline_id ` set (stats_of now d) \<longleftrightarrow>
       (\<exists>r \<in> set (pipeline_runs d). r_pipeline_id r = p_id p) \<and>
       (\<forall>r \<in> set (pipeline_runs d). r_pipeline_id r = p_id p \<longrightarrow>
          r_created_at r \<le> now - seconds (30 * 24 * 3600))"
    by (auto simp: joined_rows_cases Let_def filter_empty_conv not_less)
qed

theorem stats_rows_witness:
  "let p = (\<lambda>i. \<lparr>p_id = i, p_name = [], p_repository = [], p_config = JNull, p_created_at = 0, p_updated_at = 0\<rparr>);
       r = (\<lambda>i k t. \<lparr>r_id = i, r_pipeline_id = k, r_trigger_type = [], r_trigger_metadata = JNull,
         r_status = Success, r_started_at = None, r_completed_at = None, r_created_at = t\<rparr>);
       d = empty_db\<lparr>pipelines := [p 1, p 2, p 3], pipeline_runs := [r 11 1 (seconds 2592001), r 12 2 0]\<rparr>
   in distinct (map ps_pipeline_id (stats_of (seconds 2592002) d)) \<and>
      2 \<notin> ps_pipeline_id ` set (stats_of (seconds 2592002) d) \<and>
      3 \<in> ps_pipeline_id ` set (stats_of (seconds 2592002) d)"
proof -
  let ?p = "\<lambda>i. \<lparr>p_id = i, p_name = [], p_repository = [], p_config = JNull, p_created_at = 0, p_updated_at = 0\<rparr>"
  let ?r = "\<lambda>i k t. \<lparr>r_id = i, r_pipeline_id = k, r_trigger_type = [], r_trigger_metadata = JNull,
         r_status = Success, r_started_at = None, r_completed_at = None, r_created_at = t\<rparr>"
  let ?d = "empty_db\<lparr>pipelines := [?p 1, ?p 2, ?p 3], pipeline_runs := [?r 11 1 (seconds 2592001), ?r 12 2 0]\<rparr>"
  have "distinct (map p_id (pipelines ?d))" by simp
  from stats_rows[OF this, of "seconds 2592002"]
  have s: "distinct (map ps_pipeline_id (stats_of (seconds 2592002) ?d))"
    "\<forall>p \<in> set (pipelines ?d). p_id p \<notin> ps_pipeline_id ` set (stats_of (seconds 2592002) ?d) \<longleftrightarrow>
       (\<exists>r \<in> set (pipeline_runs ?d). r_pipeline_id r = p_id p) \<and>
       (\<forall>r \<in> set (pipeline_runs ?d). r_pipeline_id r = p_id p \<longrightarrow>
          r_created_at r \<le> seconds 2592002 - seconds (30 * 24 * 3600))" by blast+
  have "2 \<notin> ps_pipeline_id ` set (stats_of (seconds 2592002) ?d)"
    using s(2)[rule_format, of "?p 2"] by (simp add: seconds_def del: image_iff)
  moreover have "3 \<in> ps_pipeline_id ` set (stats_of (seconds 2592002) ?d)"
    using s(2)[rule_format, of "?p 3"] by (simp del: image_iff)
  ultimately show ?thesis using s(1) unfolding Let_def by blast
qed

text \<open>
  A refresh asked for over the API leaves the view up to date whether or not
  the concurrent refresh is refused, as long as the view exists.
\<close>

theorem refresh_falls_back:
  assumes "script w = []" "pipeline_stats (the_db w) \<noteq> None"
  shows "post_refresh refused w =
    (Done True, w\<lparr>the_db := (the_db w)\<lparr>pipeline_stats := Some (stats_of (clock w) (the_db w))\<rparr>\<rparr>)"
  using assms
  by (auto simp: post_refresh_def refreshPipelineStats_def seq_def try_catch_def query_quiet
        sql_refresh_concurrently_def sql_refresh_def ret_def)

end
