(* ===== verification/Seed.thy ===== *)
theory Seed
  imports Pipelines Dashboard LogStream
begin

text \<open>
  \<open>DatabaseSeedService\<close> (src/src/database/database-seed.service.ts) and its data
  (src/src/database/seed/pipeline.seed.ts): what the one process started with
  SYNC_DATABASE=true puts into the database.
\<close>

definition seed_step :: "string \<Rightarrow> string \<Rightarrow> int \<Rightarrow> json" where
  "seed_step name command priority =
     JObj [(lit ''name'', JStr (lit name)), (lit ''command'', JStr (lit command)),
           (lit ''priority'', JNum priority)]"

definition seed_stage :: "string \<Rightarrow> json list \<Rightarrow> json" where
  "seed_stage name steps = JObj [(lit ''name'', JStr (lit name)), (lit ''steps'', JArr steps)]"

definition seed_config :: "json list \<Rightarrow> json" where
  "seed_config stages = JObj [(lit ''stages'', JArr stages)]"

definition PIPELINE_SEED :: "(ustring \<times> ustring \<times> json) list" where
  "PIPELINE_SEED =
     [(lit ''frontend-app'', lit ''https://github.com/example/frontend-app'',
       seed_config
         [seed_stage ''build''
            [seed_step ''install'' ''npm ci'' 5, seed_step ''build'' ''npm run build'' 5],
          seed_stage ''test'' [seed_step ''test'' ''npm test'' 5]]),
      (lit ''backend-api'', lit ''https://github.com/example/backend-api'',
       seed_config
         [seed_stage ''build''
            [seed_step ''install'' ''npm ci'' 5, seed_step ''build'' ''npm run build'' 5],
          seed_stage ''deploy''
            [seed_step ''deploy-staging'' ''./deploy.sh staging'' 5,
             seed_step ''deploy-production'' ''./deploy.sh production'' 3]]),
      (lit ''docs'', lit ''https://github.com/example/docs'',
       seed_config [seed_stage ''build'' [seed_step ''build'' ''npm run build'' 5]])]"

definition sql_count_pipelines :: "nat stmt" where
  "sql_count_pipelines now d = Inr (length (pipelines d), d)"

fun save_all :: "(ustring \<times> ustring \<times> json) list \<Rightarrow> unit act" where
  "save_all [] = ret ()"
| "save_all ((name, repository, config) # rows) =
     seq (query (sql_insert_pipeline name repository config)) (\<lambda>_. save_all rows)"

definition seedPipelinesIfEmpty :: "unit act" where
  "seedPipelinesIfEmpty =
     seq (query sql_count_pipelines) (\<lambda>count.
     if count > 0 then ret () else save_all PIPELINE_SEED)"

definition ensurePipelineStatsMatView :: "unit act" where
  "ensurePipelineStatsMatView = query sql_create_matview"

definition sql_install_run_trigger :: "unit stmt" where
  "sql_install_run_trigger now d = Inr ((), d\<lparr>run_trigger := True\<rparr>)"

definition ensureSyncPipelineRunStatusTrigger :: "unit act" where
  "ensureSyncPipelineRunStatusTrigger = query sql_install_run_trigger"

definition seedOnModuleInit :: "bool \<Rightarrow> unit act" where
  "seedOnModuleInit sync_database =
     (if \<not> sync_database then ret ()
      else
        seq seedPipelinesIfEmpty (\<lambda>_.
        seq ensurePipelineStatsMatView (\<lambda>_.
        ensureSyncPipelineRunStatusTrigger)))"

end
