(* ===== verification/System.thy ===== *)
theory System
  imports Worker GitWebhook Seed
begin

text \<open>
  The whole system as a transition relation on the database: \<open>sys_step d ids d'\<close> is one
  committed statement of any process (a worker, an API process, the process that seeds), or
  a change of what the other sessions have locked; \<open>ids\<close> are the jobs the statement claimed.
  \<open>reachable d trace\<close>: the database \<open>d\<close> can arise from the seeded one, \<open>trace\<close> being the
  claims on the way.

  The actions of the components move along this relation (\<open>within db_step\<close>), whatever the
  other processes and the connections do, so that an invariant of the relation holds at
  every point of every one of them.
\<close>

section \<open>Steps\<close>

inductive sys_step :: "db \<Rightarrow> uuid list \<Rightarrow> db \<Rightarrow> bool" where
  Claim_Job: "sql_claim_next_job workerId now d = Inr (got, d') \<Longrightarrow> sys_step d (map j_id got) d'"
| Insert_Job: "sql_insert_job i st sn cmd p so sp now d = Inr (j, d') \<Longrightarrow> sys_step d [] d'"
| Update_Heartbeat: "sql_update_heartbeat jid now d = Inr (u, d') \<Longrightarrow> sys_step d [] d'"
| Mark_Completed: "sql_mark_completed jid e now d = Inr (u, d') \<Longrightarrow> sys_step d [] d'"
| Mark_Failed: "sql_mark_failed jid e now d = Inr (u, d') \<Longrightarrow> sys_step d [] d'"
| Reclaim_Stuck: "sql_reclaim_stuck_jobs t now d = Inr (u, d') \<Longrightarrow> sys_step d [] d'"
| Insert_Pipeline: "sql_insert_pipeline n r c now d = Inr (p, d') \<Longrightarrow> sys_step d [] d'"
| Save_Pipeline: "sql_save_pipeline p now d = Inr (p', d') \<Longrightarrow> sys_step d [] d'"
| Delete_Pipeline: "sql_delete_pipeline pid now d = Inr (k, d') \<Longrightarrow> sys_step d [] d'"
| Insert_Run: "sql_insert_run pl tt m now d = Inr (r, d') \<Longrightarrow> sys_step d [] d'"
| Insert_Log: "sql_insert_job_log fmt i line lvl now d = Inr (n, d') \<Longrightarrow> sys_step d [] d'"
| Install_Log_Trigger: "sql_install_log_trigger now d = Inr (u, d') \<Longrightarrow> sys_step d [] d'"
| Install_Run_Trigger: "sql_install_run_trigger now d = Inr (u, d') \<Longrightarrow> sys_step d [] d'"
| Try_Lock: "sql_try_lock s k now d = Inr (b, d') \<Longrightarrow> sys_step d [] d'"
| Advisory_Unlock: "sql_unlock s k now d = Inr (u, d') \<Longrightarrow> sys_step d [] d'"
| End_Session: "sys_step d [] (d\<lparr>advisory := close_session s (advisory d)\<rparr>)"
| Insert_Lock_Row: "sql_insert_deployment_lock env i now d = Inr (u, d') \<Longrightarrow> sys_step d [] d'"
| Delete_Lock_Row: "sql_delete_deployment_lock env now d = Inr (u, d') \<Longrightarrow> sys_step d [] d'"
| Enqueue_Hook: "sql_enqueue_notification t pl url m now d = Inr (h, d') \<Longrightarrow> sys_step d [] d'"
| Claim_Hook: "sql_claim_next_webhook now d = Inr (hs, d') \<Longrightarrow> sys_step d [] d'"
| Hook_Done: "sql_mark_webhook_processed hid now d = Inr (u, d') \<Longrightarrow> sys_step d [] d'"
| Hook_Again: "sql_mark_webhook_failed hid now d = Inr (u, d') \<Longrightarrow> sys_step d [] d'"
| Create_View: "sql_create_matview now d = Inr (u, d') \<Longrightarrow> sys_step d [] d'"
| Refresh_View_Concurrently: "sql_refresh_concurrently b now d = Inr (u, d') \<Longrightarrow> sys_step d [] d'"
| Refresh_View: "sql_refresh now d = Inr (u, d') \<Longrightarrow> sys_step d [] d'"
| Rows_Locked: "sys_step d [] (d\<lparr>row_locks := ids\<rparr>)"

definition db_step :: "db \<Rightarrow> db \<Rightarrow> bool" where
  "db_step d d' \<longleftrightarrow> (\<exists>ids. sys_step d ids d')"

lemma db_stepI: "sys_step d ids d' \<Longrightarrow> db_step d d'"
  by (auto simp: db_step_def)

text \<open>What the first process to start puts into an empty database.\<close>

definition initial_db :: "timestamp \<Rightarrow> db" where
  "initial_db now =
     the_db (snd (seq (ensureNotifyTrigger True) (\<lambda>_. seedOnModuleInit True)
       \<lparr>the_db = empty_db, clock = now, aborted = False, clients = {}, script = []\<rparr>))"

inductive reachable :: "db \<Rightarrow> uuid list \<Rightarrow> bool" where
  Initial: "reachable (initial_db now) []"
| Step: "reachable d trace \<Longrightarrow> sys_step d ids d' \<Longrightarrow> reachable d' (trace @ ids)"

section \<open>Soundness of the database\<close>

text \<open>Every run has its pipeline, every log its job, every lock row its run.\<close>

definition refs_ok :: "db \<Rightarrow> bool" where
  "refs_ok d \<longleftrightarrow>
     (\<forall>r \<in> set (pipeline_runs d). r_pipeline_id r \<in> p_id ` set (pipelines d)) \<and>
     (\<forall>l \<in> set (job_logs d). l_job_id l \<in> j_id ` set (jobs d)) \<and>
     (\<forall>l \<in> set (deployment_locks d). \<forall>i. dl_locked_by l = Some i \<longrightarrow>
        i \<in> r_id ` set (pipeline_runs d))"

definition sound :: "db \<Rightarrow> bool" where
  "sound d \<longleftrightarrow> jobs_inv d \<and> refs_ok d \<and> locks_exclusive d \<and> run_trigger d \<and> all_runs_synced d"

lemma soundD:
  assumes "sound d"
  shows "jobs_inv d" "refs_ok d" "locks_exclusive d" "run_trigger d" "all_runs_synced d"
  using assms by (simp_all add: sound_def)


lemma jobs_inv_same:
  assumes "jobs d' = jobs d" "pipeline_runs d' = pipeline_runs d" "next_uuid d \<le> next_uuid d'"
  shows "jobs_inv d \<Longrightarrow> jobs_inv d'"
  using assms by (fastforce simp: jobs_inv_def keys_ok_def)

lemma synced_same:
  assumes "jobs d' = jobs d" "pipeline_runs d' = pipeline_runs d"
  shows "all_runs_synced d' = all_runs_synced d"
  using assms by (simp add: all_runs_synced_def run_jobs_def)

text \<open>A statement that changes neither jobs nor runs.\<close>

lemma sound_same:
  assumes "sound d" "jobs d' = jobs d" "pipeline_runs d' = pipeline_runs d"
    and "next_uuid d \<le> next_uuid d'" "run_trigger d \<longrightarrow> run_trigger d'"
    and "locks_exclusive d \<Longrightarrow> locks_exclusive d'" "refs_ok d \<Longrightarrow> refs_ok d'"
  shows "sound d'"
  using assms jobs_inv_same[OF assms(2-4)] synced_same[OF assms(2,3)] by (simp add: sound_def)

lemma locks_same: "advisory d' = advisory d \<Longrightarrow> locks_exclusive d' = locks_exclusive d"
  by (simp add: locks_exclusive_def)

text \<open>A statement that adds pipelines or changes their columns, at most.\<close>

lemma refs_same:
  assumes "p_id ` set (pipelines d) \<subseteq> p_id ` set (pipelines d')"
    and "map r_id (pipeline_runs d') = map r_id (pipeline_runs d)"
    and "map r_pipeline_id (pipeline_runs d') = map r_pipeline_id (pipeline_runs d)"
    and "j_id ` set (jobs d) \<subseteq> j_id ` set (jobs d')"
    and "job_logs d' = job_logs d" "deployment_locks d' = deployment_locks d"
  shows "refs_ok d \<Longrightarrow> refs_ok d'"
proof -
  assume d: "refs_ok d"
  have "r_id ` set (pipeline_runs d') = r_id ` set (pipeline_runs d)"
    "r_pipeline_id ` set (pipeline_runs d') = r_pipeline_id ` set (pipeline_runs d)"
    using assms(2,3) by (metis set_map)+
  then have *: "(\<forall>r \<in> set (pipeline_runs d'). r_pipeline_id r \<in> K) =
      (\<forall>r \<in> set (pipeline_runs d). r_pipeline_id r \<in> K)"
    "r_id ` set (pipeline_runs d') = r_id ` set (pipeline_runs d)" for K
    by (metis (no_types, lifting) image_iff)+
  show "refs_ok d'"
    using d assms(1,4) unfolding refs_ok_def * assms(5,6) by blast
qed

text \<open>The statements on jobs.\<close>

lemma update_jobs_refs:
  assumes "\<And>j. j_id (f j) = j_id j"
  shows "refs_ok d \<Longrightarrow> refs_ok (update_jobs now P f d)"
proof (rule refs_same)
  show "map r_pipeline_id (pipeline_runs (update_jobs now P f d)) =
      map r_pipeline_id (pipeline_runs d)"
    by (simp add: update_jobs_def frame_simps)
  have "j_id ` set (jobs (update_jobs now P f d)) = j_id ` set (jobs d)"
    by (simp only: frame_simps set_map[symmetric] map_update_where assms)
  then show "j_id ` set (jobs d) \<subseteq> j_id ` set (jobs (update_jobs now P f d))" by simp
qed (simp_all add: frame_simps)

lemma update_jobs_locks: "locks_exclusive (update_jobs now P f d) = locks_exclusive d"
  by (simp add: locks_exclusive_def frame_simps)

lemma claim_sound:
  assumes "sql_claim_next_job workerId now d = Inr (got, d')" "sound d"
  shows "sound d'"
  using claim_statement[OF assms(1)] claim_jobs_inv[OF assms(1)] claim_synced[OF assms(1)]
    soundD[OF assms(2)]
  by (auto simp: sound_def update_jobs_refs update_jobs_locks frame_simps)

lemma insert_job_sound:
  assumes "sql_insert_job i st sn cmd p so sp now d = Inr (j, d')" "sound d"
  shows "sound d'"
proof -
  have d': "d' = fire_run_trigger now [i] (d\<lparr>jobs := jobs d @ [j], next_uuid := next_uuid d + 1\<rparr>)"
    using assms(1) by (auto simp: sql_insert_job_def Let_def split: if_splits)
  have "refs_ok d'"
    by (rule refs_same[OF _ _ _ _ _ _ soundD(2)[OF assms(2)]])
      (auto simp: d' frame_simps)
  with insert_jobs_inv[OF assms(1)] insert_synced[OF assms(1)] soundD[OF assms(2)]
  show ?thesis by (simp add: sound_def locks_exclusive_def d' frame_simps)
qed

lemma heartbeat_sound:
  assumes "sql_update_heartbeat i now d = Inr (u, d')" "sound d"
  shows "sound d'"
proof -
  have d': "d' = d\<lparr>jobs :=
      update_where (\<lambda>j. is_row i (j_id j)) (heartbeat_set now) (jobs d)\<rparr>"
    using assms(1) by (simp add: sql_update_heartbeat_def)
  have "map j_id (jobs d') = map j_id (jobs d)"
    by (simp add: d' map_update_where)
  then have ids: "j_id ` set (jobs d) \<subseteq> j_id ` set (jobs d')" by (metis order_refl set_map)
  have "refs_ok d'"
    by (rule refs_same[OF _ _ _ ids _ _ soundD(2)[OF assms(2)]]) (simp_all add: d')
  with heartbeat_jobs_inv[OF assms(1)] heartbeat_synced[OF assms(1)] soundD[OF assms(2)]
  show ?thesis by (simp add: sound_def locks_exclusive_def d')
qed

lemma update_jobs_sound:
  assumes "sound d" "jobs_inv (update_jobs now P f d)"
    and "\<And>j. j_id (f j) = j_id j" "\<And>j. j_pipeline_run_id (f j) = j_pipeline_run_id j"
  shows "sound (update_jobs now P f d)"
  using assms soundD[OF assms(1)]
  by (simp add: sound_def update_jobs_refs update_jobs_locks frame_simps update_jobs_synced)

lemma marks_sound:
  "sql_mark_completed i e now d = Inr (u, d') \<Longrightarrow> sound d \<Longrightarrow> sound d'"
  "sql_mark_failed i e now d = Inr (u, d') \<Longrightarrow> sound d \<Longrightarrow> sound d'"
  "sql_reclaim_stuck_jobs t now d = Inr (u, d') \<Longrightarrow> sound d \<Longrightarrow> sound d'"
  using completed_jobs_inv[of i e now d u d'] failed_jobs_inv[of i e now d u d']
    reclaim_jobs_inv[of t now d u d'] soundD(1)[of d]
  by (auto simp: sql_mark_completed_def sql_mark_failed_def sql_reclaim_stuck_jobs_def
      intro!: update_jobs_sound)


text \<open>The statements on pipelines and runs.\<close>

lemma insert_run_sound:
  assumes "sql_insert_run pl tt m now d = Inr (r, d')" "sound d"
  shows "sound d'"
proof -
  from assms(1) have d': "d' = d\<lparr>pipeline_runs := pipeline_runs d @ [r],
      next_uuid := next_uuid d + 1\<rparr>" and r: "r_id r = next_uuid d" "r_pipeline_id r = pl"
      "pl \<in> p_id ` set (pipelines d)"
    by (auto simp: sql_insert_run_def Let_def split: if_splits)
  note d = soundD[OF assms(2)]
  have k: "keys_ok d" by (rule jobs_invD[OF d(1)])
  then have "\<forall>x \<in> set (pipeline_runs d). r_id x < next_uuid d"
    "\<forall>j \<in> set (jobs d). j_pipeline_run_id j \<noteq> next_uuid d"
    by (fastforce simp: keys_ok_def)+
  then have "keys_ok d'" "run_jobs d' (r_id r) = []"
    using k r(1) by (fastforce simp: keys_ok_def d' run_jobs_def filter_empty_conv)+
  moreover have "run_jobs d' = run_jobs d"
    by (rule ext) (simp add: run_jobs_def d')
  ultimately have "jobs_inv d'" "all_runs_synced d'"
    using d(1,5) by (auto simp: jobs_inv_def all_runs_synced_def d' run_synced_def)
  moreover have "refs_ok d'"
    using d(2) r by (auto simp: refs_ok_def d')
  ultimately show ?thesis
    using d(3,4) by (simp add: sound_def locks_exclusive_def d')
qed

lemma delete_pipeline_runs:
  assumes "sql_delete_pipeline pid now d = Inr (n, d')"
  obtains k where "pid = Uuid_Param k"
    "pipelines d' = delete_where (\<lambda>p. p_id p = k) (pipelines d)"
    "pipeline_runs d' = delete_where
       (\<lambda>r. r_id r \<in> r_id ` {r \<in> set (pipeline_runs d). r_pipeline_id r = k}) (pipeline_runs d)"
    "jobs d' = delete_where (\<lambda>j. j_id j \<in> j_id ` {j \<in> set (jobs d).
       j_pipeline_run_id j \<in> r_id ` {r \<in> set (pipeline_runs d). r_pipeline_id r = k}}) (jobs d)"
    "set (job_logs d') = {l \<in> set (job_logs d). l_job_id l \<notin> j_id ` {j \<in> set (jobs d).
       j_pipeline_run_id j \<in> r_id ` {r \<in> set (pipeline_runs d). r_pipeline_id r = k}}}"
    "\<forall>l \<in> set (deployment_locks d). dl_locked_by l \<notin>
       Some ` r_id ` {r \<in> set (pipeline_runs d). r_pipeline_id r = k}"
    "deployment_locks d' = deployment_locks d" "advisory d' = advisory d"
    "run_trigger d' = run_trigger d" "next_uuid d' = next_uuid d"
proof -
  from assms obtain k where k: "pid = Uuid_Param k"
    by (cases pid) (auto simp: sql_delete_pipeline_def uuid_param_def)
  show thesis
    by (rule that[OF k])
      (use assms in \<open>auto simp: sql_delete_pipeline_def uuid_param_def k Let_def delete_where_def
         split: if_splits intro!: filter_cong\<close>)
qed

text \<open>With keys unique, exactly the jobs of the deleted runs go.\<close>

lemma delete_pipeline_jobs:
  assumes "sql_delete_pipeline (Uuid_Param k) now d = Inr (n, d')" "jobs_inv d"
  shows "jobs d' = delete_where (\<lambda>j. j_pipeline_run_id j \<in>
      r_id ` {r \<in> set (pipeline_runs d). r_pipeline_id r = k}) (jobs d)"
    and "set (pipeline_runs d') = {r \<in> set (pipeline_runs d). r_pipeline_id r \<noteq> k}"
proof -
  let ?gone = "r_id ` {r \<in> set (pipeline_runs d). r_pipeline_id r = k}"
  have ids: "distinct (map j_id (jobs d))" by (rule jobs_invD[OF assms(2)])
  have gone: "j_id j \<in> j_id ` {j \<in> set (jobs d). j_pipeline_run_id j \<in> ?gone} \<longleftrightarrow>
      j_pipeline_run_id j \<in> ?gone" if "j \<in> set (jobs d)" for j
    using job_rows.key_unique[OF ids that] that by blast
  have rids: "distinct (map r_id (pipeline_runs d))"
    using jobs_invD(2)[OF assms(2)] by (simp add: keys_ok_def)
  have runs: "r_id r \<in> ?gone \<longleftrightarrow> r_pipeline_id r = k" if "r \<in> set (pipeline_runs d)" for r
    using run_rows.key_unique[OF rids that] that by blast
  show "jobs d' = delete_where (\<lambda>j. j_pipeline_run_id j \<in> ?gone) (jobs d)"
    using assms(1)
  proof (cases rule: delete_pipeline_runs)
    case (1 k')
    then have "k' = k" by simp
    show ?thesis unfolding 1(4) \<open>k' = k\<close> delete_where_def by (rule filter_cong) (simp_all add: gone)
  qed
  show "set (pipeline_runs d') = {r \<in> set (pipeline_runs d). r_pipeline_id r \<noteq> k}"
    using assms(1)
  proof (cases rule: delete_pipeline_runs)
    case (1 k')
    then have "k' = k" by simp
    show ?thesis unfolding 1(3) \<open>k' = k\<close> set_delete_where using runs by blast
  qed
qed

lemma delete_pipeline_sound:
  assumes "sql_delete_pipeline pid now d = Inr (n, d')" "sound d"
  shows "sound d'"
  using assms(1)
proof (cases rule: delete_pipeline_runs)
  case (1 k)
  note d = soundD[OF assms(2)]
  let ?gone = "r_id ` {r \<in> set (pipeline_runs d). r_pipeline_id r = k}"
  have ids: "distinct (map j_id (jobs d))" by (rule jobs_invD[OF d(1)])
  have jobs': "jobs d' = delete_where (\<lambda>j. j_pipeline_run_id j \<in> ?gone) (jobs d)"
    by (rule delete_pipeline_jobs(1)[OF assms(1)[unfolded 1(1)] d(1)])
  have "distinct (map j_id (jobs d'))" "distinct (map r_id (pipeline_runs d'))"
    using jobs_invD(2)[OF d(1)] job_rows.distinct_delete[OF ids]
    by (simp_all add: jobs' 1(3) keys_ok_def run_rows.distinct_delete job_rows.distinct_delete)
  then have keys: "keys_ok d'"
    using jobs_invD(2)[OF d(1)] unfolding keys_ok_def 1(10)
    by (auto simp: jobs' 1(3))
  have same: "run_jobs d' i = run_jobs d i" if "i \<notin> ?gone" for i
    using that unfolding run_jobs_def jobs' delete_where_def filter_filter
    by (intro filter_cong) auto
  show ?thesis
    unfolding sound_def
  proof (intro conjI)
    show "jobs_inv d'"
      using keys d(1) by (auto simp: jobs_inv_def jobs')
    show "all_runs_synced d'"
      unfolding all_runs_synced_def 1(3) using d(5) same by (auto simp: all_runs_synced_def)
    show "refs_ok d'"
      unfolding refs_ok_def 1(7)
    proof (intro conjI ballI allI impI)
      fix r assume "r \<in> set (pipeline_runs d')"
      then have "r \<in> set (pipeline_runs d)" "r_pipeline_id r \<noteq> k" by (auto simp: 1(3))
      with d(2) show "r_pipeline_id r \<in> p_id ` set (pipelines d')"
        by (fastforce simp: refs_ok_def 1(2))
    next
      fix l assume "l \<in> set (job_logs d')"
      with d(2) show "l_job_id l \<in> j_id ` set (jobs d')"
        by (fastforce simp: refs_ok_def 1(5) jobs')
    next
      fix l i assume "l \<in> set (deployment_locks d)" "dl_locked_by l = Some i"
      with d(2) 1(6) show "i \<in> r_id ` set (pipeline_runs d')"
        by (fastforce simp: refs_ok_def 1(3))
    qed
  qed (use d(3,4) in \<open>simp_all add: locks_exclusive_def 1\<close>)
qed

lemma save_pipeline_sound:
  assumes "sql_save_pipeline p now d = Inr (p', d')" "sound d"
  shows "sound d'"
proof -
  have "pipeline_runs d' = pipeline_runs d" "jobs d' = jobs d" "next_uuid d' = next_uuid d"
    "run_trigger d' = run_trigger d" "advisory d' = advisory d" "job_logs d' = job_logs d"
    "deployment_locks d' = deployment_locks d"
    and ids: "p_id ` set (pipelines d) \<subseteq> p_id ` set (pipelines d')"
    using assms(1) by (auto simp: sql_save_pipeline_def Let_def image_update_where
        split: if_splits option.splits)
  then show ?thesis
    using refs_same[of d d'] by (intro sound_same[OF assms(2)]) (auto simp: locks_exclusive_def)
qed

lemma insert_pipeline_sound:
  assumes "sql_insert_pipeline n r c now d = Inr (p, d')" "sound d"
  shows "sound d'"
proof -
  from assms(1) have "d' = d\<lparr>pipelines := pipelines d @ [p], next_uuid := next_uuid d + 1\<rparr>"
    by (auto simp: sql_insert_pipeline_def Let_def split: if_splits)
  then show ?thesis
    using refs_same[of d d'] by (intro sound_same[OF assms(2)]) (auto simp: locks_exclusive_def)
qed

lemma insert_log_sound:
  assumes "sql_insert_job_log fmt i line lvl now d = Inr (n, d')" "sound d"
  shows "sound d'"
proof -
  note f = insert_job_log_frame[OF assms(1)]
  have "set (job_logs d') = insert (last (job_logs d')) (set (job_logs d))"
    "l_job_id (last (job_logs d')) \<in> j_id ` set (jobs d)"
    using assms(1) by (auto simp: sql_insert_job_log_def pg_notify_def Let_def split: if_splits)
  then have "refs_ok d \<Longrightarrow> refs_ok d'"
    by (auto simp: refs_ok_def f)
  then show ?thesis
    by (intro sound_same[OF assms(2)]) (simp_all add: f locks_exclusive_def)
qed


text \<open>Locks, hooks, the view, the triggers.\<close>

lemma lock_row_sound:
  "sql_insert_deployment_lock env i now d = Inr (u, d') \<Longrightarrow> sound d \<Longrightarrow> sound d'"
  "sql_delete_deployment_lock env now d = Inr (u, d') \<Longrightarrow> sound d \<Longrightarrow> sound d'"
proof -
  assume i: "sql_insert_deployment_lock env i now d = Inr (u, d')" and d: "sound d"
  have "refs_ok d \<Longrightarrow> refs_ok d'"
    using i by (auto simp: sql_insert_deployment_lock_def Let_def refs_ok_def set_update_where
        split: if_splits)
  with i show "sound d'"
    by (intro sound_same[OF d])
      (auto simp: sql_insert_deployment_lock_def Let_def locks_exclusive_def split: if_splits)
next
  assume i: "sql_delete_deployment_lock env now d = Inr (u, d')" and d: "sound d"
  then show "sound d'"
    by (intro sound_same[OF d])
      (auto simp: sql_delete_deployment_lock_def locks_exclusive_def refs_ok_def)
qed

lemma advisory_sound:
  "sql_try_lock s k now d = Inr (b, d') \<Longrightarrow> sound d \<Longrightarrow> sound d'"
  "sql_unlock s k now d = Inr (u, d') \<Longrightarrow> sound d \<Longrightarrow> sound d'"
  "sound d \<Longrightarrow> sound (d\<lparr>advisory := close_session s (advisory d)\<rparr>)"
proof -
  have upd: "sound (d\<lparr>advisory := a\<rparr>)" if "al.exclusive a" "sound d" for a
    using that(1) by (intro sound_same[OF that(2)]) (simp_all add: locks_exclusive_def refs_ok_def)
  assume d: "sound d"
  then have ex: "al.exclusive (advisory d)" by (simp add: sound_def locks_exclusive_def)
  show "sound (d\<lparr>advisory := close_session s (advisory d)\<rparr>)"
    by (intro upd al.close_exclusive ex d)
  show "sound d'" if "sql_try_lock s k now d = Inr (b, d')"
    using that upd[OF al.try_exclusive[OF ex] d] by (auto simp: sql_try_lock_def split: prod.splits)
  show "sound d'" if "sql_unlock s k now d = Inr (u, d')"
    using that upd[OF al.unlock_exclusive[OF ex] d] by (auto simp: sql_unlock_def)
qed

lemma other_sound:
  assumes "jobs d' = jobs d" "pipeline_runs d' = pipeline_runs d" "pipelines d' = pipelines d"
    and "job_logs d' = job_logs d" "deployment_locks d' = deployment_locks d"
    and "advisory d' = advisory d" "next_uuid d \<le> next_uuid d'" "run_trigger d \<longrightarrow> run_trigger d'"
  shows "sound d \<Longrightarrow> sound d'"
  by (rule sound_same[OF _ assms(1,2,7,8)]) (simp_all add: locks_exclusive_def refs_ok_def assms)

lemmas statement_sound = claim_sound insert_job_sound heartbeat_sound marks_sound
  insert_pipeline_sound save_pipeline_sound delete_pipeline_sound insert_run_sound
  insert_log_sound lock_row_sound advisory_sound

lemma sys_step_sound: "sys_step d ids d' \<Longrightarrow> sound d \<Longrightarrow> sound d'"
proof (induction rule: sys_step.induct)
  case (Install_Log_Trigger now d u d')
  then show ?case by (intro other_sound[of d' d]) (auto simp: sql_install_log_trigger_def)
next
  case (Install_Run_Trigger now d u d')
  then show ?case by (intro other_sound[of d' d]) (auto simp: sql_install_run_trigger_def)
next
  case (Enqueue_Hook t pl url m now d h d')
  then show ?case
    by (intro other_sound[of d' d]) (auto simp: sql_enqueue_notification_def Let_def split: if_splits)
next
  case (Claim_Hook now d hs d')
  then show ?case
    by (intro other_sound[of d' d]) (auto simp: sql_claim_next_webhook_def split: prod.splits)
next
  case (Hook_Done hid now d u d')
  then show ?case
    by (intro other_sound[of d' d]) (auto simp: sql_mark_webhook_processed_def update_hook_def)
next
  case (Hook_Again hid now d u d')
  then show ?case
    by (intro other_sound[of d' d]) (auto simp: sql_mark_webhook_failed_def update_hook_def)
next
  case (Create_View now d u d')
  then show ?case
    by (intro other_sound[of d' d]) (auto simp: sql_create_matview_def split: option.splits)
next
  case (Refresh_View_Concurrently b now d u d')
  then show ?case
    by (intro other_sound[of d' d])
      (auto simp: sql_refresh_concurrently_def split: option.splits if_splits)
next
  case (Refresh_View now d u d')
  then show ?case
    by (intro other_sound[of d' d]) (auto simp: sql_refresh_def split: option.splits)
next
  case (Rows_Locked d ids)
  then show ?case by (intro other_sound[of "d\<lparr>row_locks := ids\<rparr>" d]) simp_all
qed (auto intro: statement_sound)

lemma db_step_sound: "db_step d d' \<Longrightarrow> sound d \<Longrightarrow> sound d'"
  by (auto simp: db_step_def sys_step_sound)

lemma empty_db_jobs_inv: "jobs_inv empty_db" "refs_ok empty_db" "locks_exclusive empty_db"
  by (simp_all add: jobs_inv_def keys_ok_def refs_ok_def locks_exclusive_def al.exclusive_def
      holds_lock_def empty_db_def)

lemma initial_db_fields:
  "jobs (initial_db now) = []" "pipeline_runs (initial_db now) = []" "job_logs (initial_db now) = []"
  "deployment_locks (initial_db now) = []" "advisory (initial_db now) = []"
  "run_trigger (initial_db now)" "log_trigger (initial_db now)" "row_locks (initial_db now) = {}"
  "map (\<lambda>p. (p_name p, p_repository p, p_config p)) (pipelines (initial_db now)) = PIPELINE_SEED"
  "map p_id (pipelines (initial_db now)) = [1, 2, 3]" "next_uuid (initial_db now) = 4"
  by (simp_all add: initial_db_def ensureNotifyTrigger_def seq_def query_quiet sql_xact_lock_def
      sql_install_log_trigger_def seedOnModuleInit_def seedPipelinesIfEmpty_def
      sql_count_pipelines_def PIPELINE_SEED_def sql_insert_pipeline_def Let_def empty_db_def ret_def
      ensurePipelineStatsMatView_def sql_create_matview_def
      ensureSyncPipelineRunStatusTrigger_def sql_install_run_trigger_def)

lemma initial_db_hooks: "webhooks_outbox (initial_db now) = []"
  by (simp add: initial_db_def ensureNotifyTrigger_def seq_def query_quiet sql_xact_lock_def
      sql_install_log_trigger_def seedOnModuleInit_def seedPipelinesIfEmpty_def
      sql_count_pipelines_def PIPELINE_SEED_def sql_insert_pipeline_def Let_def empty_db_def ret_def
      ensurePipelineStatsMatView_def sql_create_matview_def
      ensureSyncPipelineRunStatusTrigger_def sql_install_run_trigger_def)

lemma initial_sound: "sound (initial_db now)"
  by (simp add: sound_def jobs_inv_def keys_ok_def refs_ok_def locks_exclusive_def al.exclusive_def
      holds_lock_def all_runs_synced_def initial_db_fields)

lemma reachable_sound: "reachable d trace \<Longrightarrow> sound d"
  by (induction rule: reachable.induct) (auto intro: initial_sound sys_step_sound)


section \<open>The components move along the relation\<close>

lemma within_read:
  assumes "\<And>now d x d'. st now d = Inr (x, d') \<Longrightarrow> d' = d"
  shows "within R (query st)"
  by (rule within_query) (auto dest: assms)

lemma within_case_option [within_intros]:
  "within R m \<Longrightarrow> (\<And>x. within R (k x)) \<Longrightarrow>
     within R (case v of None \<Rightarrow> m | Some x \<Rightarrow> k x)"
  by (cases v) simp_all

lemma within_if [within_intros]: "within R m \<Longrightarrow> within R n \<Longrightarrow> within R (if b then m else n)"
  by simp

lemma within_case_prod [within_intros]:
  "(\<And>x y. within R (k x y)) \<Longrightarrow> within R (case v of (x, y) \<Rightarrow> k x y)"
  by (cases v) simp

lemma within_fetch [within_intros]: "within R (fetch http url body)"
  unfolding within_def
proof (intro allI impI)
  fix w assume w: "others R w"
  obtain f w1 where e: "elapse w = (f, w1)" by fastforce
  from within_elapse[OF w e]
  show "others R (snd (fetch http url body w)) \<and>
      R\<^sup>*\<^sup>* (the_db w) (the_db (snd (fetch http url body w)))"
    by (simp add: fetch_def e split: fetch_reply.split)
qed

lemma within_connect [within_intros]: "within R (pool_connect sess)"
  unfolding within_def
proof (intro allI impI)
  fix w assume w: "others R w"
  obtain f w1 where e: "elapse w = (f, w1)" by fastforce
  from within_elapse[OF w e] show "others R (snd (pool_connect sess w)) \<and>
      R\<^sup>*\<^sup>* (the_db w) (the_db (snd (pool_connect sess w)))"
    by (simp add: pool_connect_def e others_def)
qed

lemma within_release_client [within_intros]: "within R (client_release sess)"
  by (simp add: within_def client_release_def others_def)

lemma within_release_and_rethrow [within_intros]:
  assumes "within R m"
  shows "within R (release_and_rethrow sess m)"
  unfolding within_def
proof (intro allI impI)
  fix w assume w: "others R w"
  obtain x w1 where m: "m w = (x, w1)" by fastforce
  from withinD[OF assms w m] show "others R (snd (release_and_rethrow sess m w)) \<and>
      R\<^sup>*\<^sup>* (the_db w) (the_db (snd (release_and_rethrow sess m w)))"
    by (simp add: release_and_rethrow_def m seq_def client_release_def throw_def others_def
        split: outcome.split)
qed

lemma insert_new_job_statement:
  assumes "(case bind_text b stage of Inl e \<Rightarrow> Inl e | Inr st \<Rightarrow>
       case bind_text b stepName of Inl e \<Rightarrow> Inl e | Inr sn \<Rightarrow>
       case bind_text b command of Inl e \<Rightarrow> Inl e | Inr cmd \<Rightarrow>
       case bind_int b priority of Inl e \<Rightarrow> Inl e | Inr p \<Rightarrow>
         sql_insert_job i st sn cmd p so sp now d) = Inr (j, d')"
  obtains st sn cmd p where "sql_insert_job i st sn cmd p so sp now d = Inr (j, d')"
  using assms by (auto split: sum.splits)

text \<open>
  What a relation on databases must contain for every process of the program to move along it:
  the effect of each statement that the program sends, and the end of a session.
\<close>

locale program_steps =
  fixes R :: "db \<Rightarrow> db \<Rightarrow> bool"
  assumes claim_job: "sql_claim_next_job workerId now d = Inr (got, d') \<Longrightarrow> R d d'"
    and insert_job: "sql_insert_job i stage step_name cmd p so sp now d = Inr (j, d') \<Longrightarrow> R d d'"
    and update_heartbeat: "sql_update_heartbeat jid now d = Inr (u, d') \<Longrightarrow> R d d'"
    and mark_completed: "sql_mark_completed jid e now d = Inr (u, d') \<Longrightarrow> R d d'"
    and mark_failed: "sql_mark_failed jid e now d = Inr (u, d') \<Longrightarrow> R d d'"
    and reclaim_stuck: "sql_reclaim_stuck_jobs t now d = Inr (u, d') \<Longrightarrow> R d d'"
    and insert_pipeline: "sql_insert_pipeline n r c now d = Inr (p', d') \<Longrightarrow> R d d'"
    and save_pipeline: "sql_save_pipeline q now d = Inr (q', d') \<Longrightarrow> R d d'"
    and delete_pipeline: "sql_delete_pipeline pid now d = Inr (k, d') \<Longrightarrow> R d d'"
    and insert_run: "sql_insert_run pl tt m now d = Inr (run, d') \<Longrightarrow> R d d'"
    and insert_log: "sql_insert_job_log fmt i line lvl now d = Inr (n', d') \<Longrightarrow> R d d'"
    and install_log_trigger: "sql_install_log_trigger now d = Inr (u, d') \<Longrightarrow> R d d'"
    and install_run_trigger: "sql_install_run_trigger now d = Inr (u, d') \<Longrightarrow> R d d'"
    and try_lock: "sql_try_lock s key now d = Inr (b, d') \<Longrightarrow> R d d'"
    and advisory_unlock: "sql_unlock s key now d = Inr (u, d') \<Longrightarrow> R d d'"
    and insert_lock_row: "sql_insert_deployment_lock env i now d = Inr (u, d') \<Longrightarrow> R d d'"
    and delete_lock_row: "sql_delete_deployment_lock env now d = Inr (u, d') \<Longrightarrow> R d d'"
    and claim_hook: "sql_claim_next_webhook now d = Inr (hs, d') \<Longrightarrow> R d d'"
    and hook_done: "sql_mark_webhook_processed hid now d = Inr (u, d') \<Longrightarrow> R d d'"
    and hook_again: "sql_mark_webhook_failed hid now d = Inr (u, d') \<Longrightarrow> R d d'"
    and create_view: "sql_create_matview now d = Inr (u, d') \<Longrightarrow> R d d'"
    and refresh_concurrently: "sql_refresh_concurrently refused now d = Inr (u, d') \<Longrightarrow> R d d'"
    and refresh: "sql_refresh now d = Inr (u, d') \<Longrightarrow> R d d'"
    and end_session: "R d (d\<lparr>advisory := close_session s (advisory d)\<rparr>)"
begin

lemmas statements =
  claim_job insert_job update_heartbeat mark_completed mark_failed reclaim_stuck
  insert_pipeline save_pipeline delete_pipeline insert_run insert_log install_log_trigger
  install_run_trigger try_lock advisory_unlock insert_lock_row delete_lock_row claim_hook
  hook_done hook_again create_view refresh_concurrently refresh

lemma within_step:
  assumes "\<And>now d x d'. st now d = Inr (x, d') \<Longrightarrow> R d d'"
  shows "within R (query st)"
  by (rule within_query) (use assms in blast)

text \<open>Job queue.\<close>

lemma within_jobs [within_intros]:
  "within R (claimNextJob sh workerId)"
  "within R (updateHeartbeat i)" "within R (markCompleted i e)"
  "within R (markFailed i e)" "within R (reclaimStuckJobs t)"
  unfolding claimNextJob_def updateHeartbeat_def markCompleted_def markFailed_def
    reclaimStuckJobs_def
  by (intro within_intros within_step; erule statements)+

lemma within_insert_job [within_intros]:
  "within R (insertNewJob b i stage stepName command priority so sp)"
  unfolding insertNewJob_def
  by (intro within_step; erule insert_new_job_statement) (rule insert_job)

lemma within_heartbeat [within_intros]:
  "within R (tick i)" "within R (runReclaimOnce t)"
  "within R (reclaim_callback v)"
  unfolding tick_def runReclaimOnce_def reclaim_callback_def by (intro within_intros)+

lemma within_hooks [within_intros]:
  "within R (claimNextWebhook shw)"
  "within R (markWebhookProcessed i)" "within R (markWebhookFailed i)"
  unfolding claimNextWebhook_def markWebhookProcessed_def
    markWebhookFailed_def
  by (intro within_intros within_step; erule statements)+

lemma within_process_webhook [within_intros]: "within R (processOneWebhook shw http)"
  unfolding processOneWebhook_def by (intro within_intros)

lemma within_drain [within_intros]: "within R (drain_outbox n shw http)"
  by (induction n) (auto intro!: within_intros)

lemma within_client_query:
  assumes "within R (query st)"
  shows "within R (client_query sess st)"
  unfolding within_def
proof (intro allI impI)
  fix w assume w: "others R w"
  obtain x w1 where q: "query st w = (x, w1)" by fastforce
  note 1 = withinD[OF assms w q]
  from 1 end_session[of "the_db w1" sess] show "others R (snd (client_query sess st w)) \<and>
      R\<^sup>*\<^sup>* (the_db w) (the_db (snd (client_query sess st w)))"
    by (auto simp: client_query_def q others_def split: outcome.split js_error.split)
qed

lemma within_lock_statements [within_intros]:
  "within R (client_query sess (sql_try_lock sess k))"
  "within R (client_query sess (sql_unlock sess k))"
  "within R (client_query sess (sql_insert_deployment_lock env i))"
  "within R (client_query sess (sql_delete_deployment_lock env))"
  by (intro within_client_query within_step; erule statements)+

lemma within_locks [within_intros]:
  "within R (tryAcquire hashtext sess env run)" "within R (run_release hashtext r)"
  unfolding tryAcquire_def Let_def by (cases r; auto intro!: within_intros)+

text \<open>Logs and the worker.\<close>

lemma within_logs [within_intros]:
  "within R (appendLog fmt i line lvl)" "within R (log_line rt i' line lvl)"
  "within R (log_lines rt i' lvl ls)" "within R (ensureNotifyTrigger sync)"
proof -
  show *: "within R (appendLog fmt i line lvl)" for fmt i line lvl
    unfolding appendLog_def
    by (intro within_intros within_step) (erule statements)
  show **: "within R (log_line rt i' line lvl)" for line
    unfolding log_line_def by (intro within_intros *)
  show "within R (log_lines rt i' lvl ls)"
    by (induction ls) (auto intro!: within_intros **)
  have "within R (query sql_install_log_trigger)"
    by (rule within_step) (erule statements)
  moreover have "within R (query (sql_xact_lock k))" for k
    by (rule within_read) (simp add: sql_xact_lock_def)
  ultimately show "within R (ensureNotifyTrigger sync)"
    unfolding ensureNotifyTrigger_def by (intro within_intros)
qed

lemma within_run_child [within_intros]: "within R (run_child rt i es out err settled)"
  by (induction rt i es out err settled rule: run_child.induct)
    (auto intro!: within_intros split: option.split prod.split)

lemma within_spawn [within_intros]: "within R (spawn_child rt i command)"
  using within_run_child by (fastforce simp: spawn_child_def within_def)

lemma within_execute [within_intros]:
  "within R (run_command rt i command workerId)" "within R (execute rt job workerId)"
  unfolding run_command_def execute_def Let_def by (intro within_intros)+

lemma within_worker [within_intros]:
  "within R (claimNext shj workerId)"
  "within R (settle_job job e)" "within R (execute_job rt job workerId)"
  "within R (loop_round n rt http shj shw workerId)"
  unfolding claimNext_def settle_job_def execute_job_def loop_round_def loop_try_def loop_catch_def
  by (intro within_intros)+

lemma within_run_loop [within_intros]: "within R (runLoop n rt http shj shw workerId)"
  by (induction n) (auto intro!: within_intros)

text \<open>The API.\<close>

lemma within_pipelines [within_intros]:
  "within R pipelines_findAll" "within R (pipelines_findOne i)"
  "within R (findByRepository repo)" "within R (pipelines_create dto)"
  "within R (pipelines_service_update i u)" "within R (pipelines_remove i)"
  "within R (createPipelineRun k tt m)"
proof -
  have find: "within R (query (sql_find_pipeline i))" for R
    by (rule within_read) (auto simp: sql_find_pipeline_def split: sum.splits)
  then show "within R (pipelines_findOne i)" by (simp add: pipelines_findOne_def)
  show "within R pipelines_findAll"
    unfolding pipelines_findAll_def by (rule within_read) (simp add: sql_find_pipelines_def)
  show "within R (findByRepository repo)"
    unfolding findByRepository_def
    by (rule within_read) (simp add: sql_find_pipeline_by_repository_def)
  show "within R (pipelines_create dto)"
    unfolding pipelines_create_def by (intro within_step) (erule statements)
  show "within R (pipelines_service_update i u)"
    unfolding pipelines_service_update_def
    by (intro within_intros find within_step) (erule statements)
  show "within R (pipelines_remove i)"
    unfolding pipelines_remove_def
    by (intro within_intros within_step) (erule statements)
  show "within R (createPipelineRun k tt m)"
    unfolding createPipelineRun_def by (intro within_step) (erule statements)
qed

lemma within_pipelines_api [within_intros]:
  "within R get_pipelines" "within R (get_pipeline i)"
  "within R (post_pipeline dto)" "within R (patch_pipeline i u)"
  "within R (delete_pipeline i)"
  unfolding get_pipelines_def get_pipeline_def post_pipeline_def patch_pipeline_def
    delete_pipeline_def
  by (intro within_intros)+

lemma within_run_inserts [within_intros]: "within R (run_inserts b i as)"
proof (induction "as")
  case Nil
  show ?case by (simp add: within_intros)
next
  case (Cons a "as")
  have "within R (insert_job_of b i a)"
    unfolding insert_job_of_def by (intro within_intros)
  then have "within R (\<lambda>w. case insert_job_of b i a w of
      (Done _, w') \<Rightarrow> (Done None, w') | (Threw e, w') \<Rightarrow> (Done (Some e), w')
    | (Hangs, w') \<Rightarrow> (Hangs, w'))"
    unfolding within_def by (fastforce split: prod.split outcome.split)
  with Cons show ?case by (auto intro!: within_intros)
qed

lemma within_runs [within_intros]:
  "within R (runs_findAll q)" "within R (runs_findOne i)"
  "within R (findOneWithJobs i)" "within R (getJobLogs i)"
  "within R (triggerRun b sched i tt m)"
proof -
  show find: "within R (runs_findOne i)" for i
    unfolding runs_findOne_def
    by (rule within_read) (auto simp: sql_find_run_def split: sum.splits)
  show "within R (runs_findAll q)"
    unfolding runs_findAll_def
    by (rule within_read) (auto simp: sql_find_runs_def split: sum.splits option.splits)
  show "within R (findOneWithJobs i)"
    unfolding findOneWithJobs_def
    by (rule within_read) (auto simp: sql_find_run_with_jobs_def split: sum.splits)
  show "within R (getJobLogs i)"
    unfolding getJobLogs_def
    by (rule within_read) (auto simp: sql_find_logs_def split: sum.splits)
  show "within R (triggerRun b sched i tt m)"
    unfolding triggerRun_def by (intro within_intros find)
qed

lemma within_runs_api [within_intros]:
  "within R (get_runs q)" "within R (get_job_logs i i')"
  "within R (get_run_with_jobs i)" "within R (get_run i)"
  "within R (post_run b sched dto)" "within R (handlePush b sched body)"
  unfolding get_runs_def get_job_logs_def get_run_with_jobs_def get_run_def post_run_def
    handlePush_def
  by (intro within_intros)+

lemma within_dashboard [within_intros]:
  "within R get_pipeline_stats" "within R (post_refresh refused)"
  "within R get_deployment_locks"
proof -
  show "within R get_pipeline_stats"
    unfolding get_pipeline_stats_def listPipelineStats_def
    by (rule within_read) (auto simp: sql_list_stats_def split: option.splits)
  show "within R (post_refresh refused)"
    unfolding post_refresh_def refreshPipelineStats_def
    by (intro within_intros within_step; erule statements)
  show "within R get_deployment_locks"
    unfolding get_deployment_locks_def listDeploymentLocks_def
    by (rule within_read) (simp add: sql_list_locks_def)
qed

lemma within_seed [within_intros]: "within R (seedOnModuleInit sync)"
proof -
  have "within R (query (sql_insert_pipeline n r c))" for n r c
    by (intro within_step) (erule statements)
  then have "within R (save_all rows)" for rows
    by (induction rows) (auto intro!: within_intros)
  moreover have "within R (query sql_count_pipelines)"
    by (rule within_read) (simp add: sql_count_pipelines_def)
  moreover have "within R (query sql_create_matview)"
    "within R (query sql_install_run_trigger)"
    by (intro within_step; erule statements)+
  ultimately show ?thesis
    unfolding seedOnModuleInit_def seedPipelinesIfEmpty_def ensurePipelineStatsMatView_def
      ensureSyncPipelineRunStatusTrigger_def
    by (intro within_intros)
qed

end

interpretation ps: program_steps db_step
  by unfold_locales (rule db_stepI; erule sys_step.intros | rule db_stepI, rule End_Session)+

lemma within_enqueue [within_intros]: "within db_step (enqueueNotification t pl url m)"
  unfolding enqueueNotification_def by (intro ps.within_step) (rule db_stepI, erule Enqueue_Hook)

text \<open>Whatever an action does from a sound database, it ends in a sound one.\<close>

lemma within_sound:
  assumes "within db_step m" "others db_step w" "m w = (x, w')" "sound (the_db w)"
  shows "sound (the_db w')"
  by (rule within_invariant[where I = sound, OF assms(1-4)]) (rule db_step_sound)


section \<open>A world with interference\<close>

text \<open>A world in which another process claims a job and a connection breaks meanwhile.\<close>

definition busy_world :: world where
  "busy_world = \<lparr>the_db = initial_db 7, clock = 7, aborted = False, clients = {},
     script =
       [\<lparr>ev_other = (\<lambda>d. case sql_claim_next_job [] 8 d of Inl _ \<Rightarrow> d | Inr (_, d') \<Rightarrow> d'),
         ev_now = 8, ev_fate = Lost_Reply, ev_abort = False\<rparr>,
        \<lparr>ev_other = (\<lambda>d. d\<lparr>row_locks := {5}\<rparr>), ev_now = 9, ev_fate = Delivered, ev_abort = True\<rparr>]\<rparr>"

lemma busy_world_others: "others db_step busy_world" "sound (the_db busy_world)"
proof -
  have "db_step\<^sup>*\<^sup>* d (case sql_claim_next_job [] 8 d of Inl _ \<Rightarrow> d | Inr (_, d') \<Rightarrow> d')" for d
    by (auto intro!: r_into_rtranclp[of db_step] db_stepI Claim_Job split: sum.split)
  moreover have "db_step\<^sup>*\<^sup>* d (d\<lparr>row_locks := {5}\<rparr>)" for d
    using db_stepI[OF Rows_Locked[of d "{5}"]] by (rule r_into_rtranclp)
  ultimately show "others db_step busy_world" by (simp add: others_def busy_world_def)
  show "sound (the_db busy_world)" by (simp add: busy_world_def initial_sound)
qed

end
