(* ===== verification/JobTraces.thy ===== *)
theory JobTraces
  imports System
begin

text \<open>
  What the traces of the system say of single jobs: how often a job can be claimed, and
  what happens to a job whose worker dies on its last attempt.
\<close>

section \<open>How often a job is claimed\<close>

text \<open>
  The claims a job row accounts for: one per retry, and one more while it runs or once it
  has succeeded.
\<close>

definition budget :: "job \<Rightarrow> int" where
  "budget j = j_retry_count j + (if j_status j = Running \<or> j_status j = Success then 1 else 0)"

definition attempts_inv :: "db \<Rightarrow> uuid list \<Rightarrow> bool" where
  "attempts_inv d trace \<longleftrightarrow>
     (\<forall>i. count_list trace i \<le> 4) \<and>
     (\<forall>j \<in> set (jobs d). int (count_list trace (j_id j)) \<le> budget j) \<and>
     (\<forall>i \<ge> next_uuid d. count_list trace i = 0)"

text \<open>Between two claims: old rows keep their account or raise it, new rows are new.\<close>

definition rows_evolve :: "db \<Rightarrow> db \<Rightarrow> bool" where
  "rows_evolve d d' \<longleftrightarrow> next_uuid d \<le> next_uuid d' \<and>
     (\<forall>j' \<in> set (jobs d').
        (\<exists>j \<in> set (jobs d). j_id j' = j_id j \<and> budget j \<le> budget j') \<or>
        next_uuid d \<le> j_id j' \<and> 0 \<le> budget j')"

lemma rows_evolve_same:
  "jobs d' = jobs d \<Longrightarrow> next_uuid d \<le> next_uuid d' \<Longrightarrow> rows_evolve d d'"
  by (auto simp: rows_evolve_def)

lemma rows_evolve_subset:
  "set (jobs d') \<subseteq> set (jobs d) \<Longrightarrow> next_uuid d \<le> next_uuid d' \<Longrightarrow> rows_evolve d d'"
  by (auto simp: rows_evolve_def)

lemma rows_evolve_update:
  assumes "jobs d' = update_where P f (jobs d)" "next_uuid d' = next_uuid d"
    and "\<And>j. j_id (f j) = j_id j" "\<And>j. j \<in> set (jobs d) \<Longrightarrow> P j \<Longrightarrow> budget j \<le> budget (f j)"
  shows "rows_evolve d d'"
  unfolding rows_evolve_def
proof (intro conjI ballI disjI1)
  fix j' assume "j' \<in> set (jobs d')"
  then show "\<exists>j \<in> set (jobs d). j_id j' = j_id j \<and> budget j \<le> budget j'"
    unfolding assms(1) by (cases rule: in_update_whereE) (use assms(3,4) in auto)
qed (simp add: assms(2))

lemma evolve_attempts:
  assumes "attempts_inv d trace" "rows_evolve d d'"
  shows "attempts_inv d' trace"
  unfolding attempts_inv_def
proof (intro conjI allI ballI impI)
  fix j' assume "j' \<in> set (jobs d')"
  with assms(2) consider j where "j \<in> set (jobs d)" "j_id j' = j_id j" "budget j \<le> budget j'"
    | "next_uuid d \<le> j_id j'" "0 \<le> budget j'"
    by (auto simp: rows_evolve_def)
  then show "int (count_list trace (j_id j')) \<le> budget j'"
    by cases (use assms(1) in \<open>force simp: attempts_inv_def\<close>)+
qed (use assms in \<open>auto simp: attempts_inv_def rows_evolve_def\<close>)

lemma claim_attempts:
  assumes "sql_claim_next_job workerId now d = Inr (got, d')" "jobs_inv d" "attempts_inv d trace"
  shows "attempts_inv d' (trace @ map j_id got)"
  using jobs_invD(1)[OF assms(2)] assms(1)
proof (cases rule: claim_statement_keyed)
  case none
  with assms(3) show ?thesis by simp
next
  case (one j)
  let ?j = "claim_set (workerId, now) j"
  have old: "int (count_list trace (j_id j)) \<le> j_retry_count j" "j_retry_count j \<le> 3"
    and new: "budget ?j = j_retry_count j + 1"
    using one(1,2) assms(3) jobs_invD(3)[OF assms(2) one(1)]
    by (auto simp: attempts_inv_def budget_def claimable_def job_ok_def claim_set.simps)
  have ids: "j_id x \<noteq> j_id j" if "x \<in> set (jobs d) - {j}" for x
    using job_rows.key_unique[OF jobs_invD(1)[OF assms(2)]] that one(1) by blast
  have next_id: "j_id j < next_uuid d" "next_uuid d' = next_uuid d"
    using jobs_invD(2)[OF assms(2)] one(1) by (auto simp: keys_ok_def one(6) frame_simps)
  show ?thesis
    unfolding attempts_inv_def one(4)
  proof (intro conjI allI ballI impI)
    fix i show "count_list (trace @ map j_id [?j]) i \<le> 4"
      using assms(3) old by (cases "i = j_id j") (auto simp: attempts_inv_def)
  next
    fix x assume "x \<in> set (jobs d')"
    then consider "x = ?j" | "x \<in> set (jobs d) - {j}" unfolding one(7) by blast
    then show "int (count_list (trace @ map j_id [?j]) (j_id x)) \<le> budget x"
    proof cases
      case 1
      then show ?thesis using old new by simp
    next
      case 2
      then show ?thesis using assms(3) ids[OF 2, symmetric] by (auto simp: attempts_inv_def)
    qed
  next
    fix i assume "next_uuid d' \<le> i"
    then show "count_list (trace @ map j_id [?j]) i = 0"
      using assms(3) next_id by (auto simp: attempts_inv_def)
  qed
qed

lemma step_rows_evolve:
  assumes "sys_step d ids d'" "jobs_inv d"
  shows "(\<exists>workerId now got. sql_claim_next_job workerId now d = Inr (got, d') \<and> ids = map j_id got) \<or>
    ids = [] \<and> rows_evolve d d'"
  using assms
proof (induction rule: sys_step.induct)
  case (Insert_Job i st sn cmd p so sp now d j d')
  then have "jobs d' = jobs d @ [j]" "j_id j = next_uuid d" "next_uuid d' = next_uuid d + 1" "budget j = 0"
    by (auto simp: sql_insert_job_def Let_def frame_simps budget_def split: if_splits)
  then show ?case by (auto simp: rows_evolve_def)
next
  case (Update_Heartbeat jid now d u d')
  then show ?case
    by (intro disjI2 conjI refl rows_evolve_update[where P = "\<lambda>j. is_row jid (j_id j)" and f = "heartbeat_set now"])
      (auto simp: sql_update_heartbeat_def budget_def heartbeat_set_def)
next
  case (Mark_Completed jid e now d u d')
  then show ?case
    by (intro disjI2 conjI refl rows_evolve_update[where P = "\<lambda>j. is_row jid (j_id j)" and f = "completed_set e now"])
      (auto simp: sql_mark_completed_def frame_simps budget_def completed_set_def)
next
  case (Mark_Failed jid e now d u d')
  then show ?case
    by (intro disjI2 conjI refl rows_evolve_update[where P = "\<lambda>j. is_row jid (j_id j)" and f = "failed_set e"])
      (auto simp: sql_mark_failed_def frame_simps budget_def failed_set_def)
next
  case (Reclaim_Stuck t now d u d')
  then show ?case
    by (intro disjI2 conjI refl rows_evolve_update[where P = "stuck t now" and f = reclaim_set])
      (auto simp: sql_reclaim_stuck_jobs_def frame_simps budget_def reclaim_set_def stuck_def)
next
  case (Delete_Pipeline pid now d k d')
  from Delete_Pipeline(1) show ?case
    by (cases rule: delete_pipeline_runs) (auto intro: rows_evolve_subset)
next
  case (Save_Pipeline p now d p' d')
  then show ?case
    by (intro disjI2 conjI refl rows_evolve_same)
      (auto simp: sql_save_pipeline_def Let_def split: if_splits option.splits)
next
  case (Insert_Log fmt i line lvl now d n d')
  then show ?case by (auto simp: insert_job_log_frame intro: rows_evolve_same)
qed (auto intro!: rows_evolve_same
       simp: sql_insert_pipeline_def sql_insert_run_def sql_install_log_trigger_def
         sql_install_run_trigger_def sql_try_lock_def sql_unlock_def sql_insert_deployment_lock_def
         sql_delete_deployment_lock_def sql_enqueue_notification_def sql_claim_next_webhook_def
         sql_mark_webhook_processed_def sql_mark_webhook_failed_def update_hook_def
         sql_create_matview_def sql_refresh_concurrently_def sql_refresh_def Let_def
       split: if_splits option.splits prod.splits)

lemma reachable_attempts: "reachable d trace \<Longrightarrow> attempts_inv d trace"
proof (induction rule: reachable.induct)
  case (Initial now)
  then show ?case by (simp add: attempts_inv_def initial_db_fields)
next
  case (Step d trace ids d')
  have inv: "jobs_inv d" using reachable_sound[OF Step(1)] by (rule soundD)
  from step_rows_evolve[OF Step(2) inv] Step(3) claim_attempts[OF _ inv] evolve_attempts
  show ?case by auto
qed


text \<open>A run of claims and reclaims, to show that the bound is reached.\<close>

definition demo_state :: "nat \<Rightarrow> db \<Rightarrow> bool" where
  "demo_state n d \<longleftrightarrow> row_locks d = {} \<and> map j_id (jobs d) = [5] \<and>
     map j_status (jobs d) = [Pending] \<and> map j_retry_count (jobs d) = [int n] \<and>
     map j_max_retries (jobs d) = [3]"

lemma demo_start: "\<exists>d. reachable d [] \<and> demo_state 0 d"
proof -
  have p: "1 \<in> p_id ` set (pipelines (initial_db 0))"
    using initial_db_fields(10)[of 0] by (metis list.set_intros(1) set_map)
  obtain r d1 where r: "sql_insert_run 1 [] JNull 0 (initial_db 0) = Inr (r, d1)" "r_id r = 4"
    "pipeline_runs d1 = [r]" "jobs d1 = []" "next_uuid d1 = 5" "row_locks d1 = {}"
    using p by (simp add: sql_insert_run_def initial_db_fields Let_def)
  obtain j d2 where j: "sql_insert_job 4 [] [] [] 5 0 0 0 d1 = Inr (j, d2)" "demo_state 0 d2"
    using r by (simp add: sql_insert_job_def fits_int4_def demo_state_def frame_simps Let_def)
  have "reachable d1 []" using Step[OF Initial Insert_Run[OF r(1)]] by simp
  from Step[OF this Insert_Job[OF j(1)]] j(2) show ?thesis by auto
qed

lemma demo_claim:
  assumes "reachable d trace" "demo_state n d"
  shows "\<exists>d'. reachable d' (trace @ [5]) \<and> row_locks d' = {} \<and>
    (\<exists>j. jobs d' = [j] \<and> j_id j = 5 \<and> j_status j = Running \<and> j_heartbeat_at j = Some 0 \<and>
       j_retry_count j = int n \<and> j_max_retries j = 3)"
proof -
  obtain j where j: "jobs d = [j]" "j_id j = 5" "j_status j = Pending" "j_retry_count j = int n"
      "j_max_retries j = 3"
    using assms(2) by (auto simp: demo_state_def map_eq_Cons_conv)
  have "sql_claim_next_job [] 0 d = Inr ([claim_set ([], 0) j],
      fire_run_trigger 0 [j_pipeline_run_id j] (d\<lparr>jobs := [claim_set ([], 0) j]\<rparr>))"
    using j assms(2) by (simp add: sql_claim_next_job_def claim_row_def pick_row_def claimable_def
        demo_state_def)
  from Step[OF assms(1) Claim_Job[OF this]] j assms(2) show ?thesis
    by (intro exI[of _ "fire_run_trigger 0 [j_pipeline_run_id j] (d\<lparr>jobs := [claim_set ([], 0) j]\<rparr>)"])
      (simp add: demo_state_def frame_simps claim_set.simps)
qed

lemma demo_cycle:
  assumes "reachable d trace" "demo_state n d" "n < 3"
  shows "\<exists>d'. reachable d' (trace @ [5]) \<and> demo_state (Suc n) d'"
proof -
  obtain d1 j where d1: "reachable d1 (trace @ [5])" "row_locks d1 = {}" and j: "jobs d1 = [j]"
    "j_id j = 5" "j_status j = Running" "j_heartbeat_at j = Some 0" "j_retry_count j = int n"
    "j_max_retries j = 3"
    using demo_claim[OF assms(1,2)] by blast
  obtain d2 where s: "sql_reclaim_stuck_jobs 30 (seconds 31) d1 = Inr ((), d2)" and
    d2: "d2 = update_jobs (seconds 31) (stuck 30 (seconds 31)) reclaim_set d1"
    by (simp add: sql_reclaim_stuck_jobs_def)
  have "demo_state (Suc n) d2"
    using j assms(3) d1(2) by (simp add: d2 demo_state_def frame_simps stuck_def reclaim_set_def seconds_def)
  with Step[OF d1(1) Reclaim_Stuck[OF s]] show ?thesis by auto
qed

lemma demo_four_claims: "\<exists>d. reachable d [5, 5, 5, 5]"
proof -
  obtain d0 where 0: "reachable d0 []" "demo_state 0 d0" using demo_start by blast
  obtain d1 where 1: "reachable d1 [5]" "demo_state 1 d1" using demo_cycle[OF 0] by auto
  obtain d2 where 2: "reachable d2 [5, 5]" "demo_state 2 d2"
    using demo_cycle[OF 1] by (auto simp: numeral_2_eq_2)
  obtain d3 where 3: "reachable d3 [5, 5, 5]" "demo_state 3 d3"
    using demo_cycle[OF 2] by (auto simp: numeral_3_eq_3)
  from demo_claim[OF 3] show ?thesis by auto
qed

text \<open>
  Property C7.  Whatever happens to its workers, no job is handed out more than four times
  (once, and once for each of its three retries), counting every claim by every worker
  since the system began, although late marks of workers that lost the job may change its
  row at any time.
\<close>

theorem attempts_bounded:
  assumes "reachable d trace"
  shows "count_list trace i \<le> 4"
  using reachable_attempts[OF assms] by (simp add: attempts_inv_def)

text \<open>Four claims do happen, three of them undone by reclaims.\<close>

theorem attempts_bounded_witness:
  "\<exists>d. reachable d [5, 5, 5, 5] \<and> count_list [5, 5, 5, 5] (5 :: nat) \<le> 4"
proof -
  obtain d where d: "reachable d [5, 5, 5, 5]" using demo_four_claims by blast
  have "count_list [5, 5, 5, 5] (5 :: nat) \<le> 4" by (rule attempts_bounded[OF d])
  with d show ?thesis by blast
qed

section \<open>A worker that dies on the last attempt\<close>

text \<open>The steps of everyone but the worker of job \<open>i\<close>, and no deletion.\<close>

inductive unattended_step :: "uuid \<Rightarrow> db \<Rightarrow> uuid list \<Rightarrow> db \<Rightarrow> bool" for i where
  Other_Claim: "sql_claim_next_job workerId now d = Inr (got, d') \<Longrightarrow>
     unattended_step i d (map j_id got) d'"
| Other_Reclaim: "sql_reclaim_stuck_jobs t now d = Inr (u, d') \<Longrightarrow> unattended_step i d [] d'"
| Other_Heartbeat: "sql_update_heartbeat jid now d = Inr (u, d') \<Longrightarrow> jid \<noteq> Some i \<Longrightarrow>
     unattended_step i d [] d'"
| Other_Completed: "sql_mark_completed jid e now d = Inr (u, d') \<Longrightarrow> jid \<noteq> Some i \<Longrightarrow>
     unattended_step i d [] d'"
| Other_Failed: "sql_mark_failed jid e now d = Inr (u, d') \<Longrightarrow> jid \<noteq> Some i \<Longrightarrow>
     unattended_step i d [] d'"
| Other_Insert: "sql_insert_job k st sn cmd p so sp now d = Inr (j, d') \<Longrightarrow>
     unattended_step i d [] d'"
| Other_Locks: "unattended_step i d [] (d\<lparr>row_locks := ids\<rparr>)"

inductive unattended_run :: "uuid \<Rightarrow> db \<Rightarrow> uuid list \<Rightarrow> db \<Rightarrow> bool" for i where
  Unattended_Refl: "unattended_run i d [] d"
| Unattended_Step: "unattended_run i d trace d' \<Longrightarrow> unattended_step i d' ids d'' \<Longrightarrow>
     unattended_run i d (trace @ ids) d''"

lemma unattended_sys: "unattended_step i d ids d' \<Longrightarrow> sys_step d ids d'"
  by (induction rule: unattended_step.induct) (auto intro: sys_step.intros)

lemma keep_row:
  "jobs d' = update_where P f (jobs d) \<Longrightarrow> j \<in> set (jobs d) \<Longrightarrow> \<not> P j \<Longrightarrow> j \<in> set (jobs d')"
  by (force simp: set_update_where)

lemma exhausted_step:
  assumes "unattended_step i d ids d'" "jobs_inv d" "j \<in> set (jobs d)" "j_id j = i"
    and "j_status j = Running" "j_max_retries j \<le> j_retry_count j"
  shows "j \<in> set (jobs d') \<and>
    (\<forall>k \<in> set (jobs d). j_pipeline_run_id k = j_pipeline_run_id j \<longrightarrow> earlier_step j k \<longrightarrow>
       j_id k \<notin> set ids)"
  using assms
proof (induction rule: unattended_step.induct)
  case (Other_Claim workerId now d got d')
  from jobs_invD(1)[OF Other_Claim(2)] Other_Claim(1) show ?case
  proof (cases rule: claim_statement_keyed)
    case none
    with Other_Claim(3) show ?thesis by simp
  next
    case (one x)
    have "j \<noteq> x" using one(2) Other_Claim(5) by (auto simp: claimable_def)
    with one(7) Other_Claim(3) have "j \<in> set (jobs d')" by blast
    moreover have "j_id k \<noteq> j_id x"
      if "k \<in> set (jobs d)" "j_pipeline_run_id k = j_pipeline_run_id j" "earlier_step j k" for k
      using one(2) that Other_Claim(3,5)
        job_rows.key_unique[OF jobs_invD(1)[OF Other_Claim(2)] that(1) one(1)]
      by (force simp: claimable_def)
    ultimately show ?thesis by (simp add: one(4))
  qed
next
  case (Other_Reclaim t now d u d')
  then have "\<not> stuck t now j" by (simp add: stuck_def)
  moreover have "jobs d' = update_where (stuck t now) reclaim_set (jobs d)"
    using Other_Reclaim(1) by (auto simp: sql_reclaim_stuck_jobs_def frame_simps)
  ultimately show ?case using keep_row[of d' "stuck t now" reclaim_set d j] Other_Reclaim(3) by simp
next
  case (Other_Heartbeat jid now d u d')
  then show ?case
    by (auto simp: sql_update_heartbeat_def is_row_def set_update_where)
next
  case (Other_Completed jid e now d u d')
  then show ?case
    by (auto simp: sql_mark_completed_def is_row_def set_update_where frame_simps)
next
  case (Other_Failed jid e now d u d')
  then show ?case
    by (auto simp: sql_mark_failed_def is_row_def set_update_where frame_simps)
next
  case (Other_Insert k st sn cmd p so sp now d x d')
  then show ?case
    by (auto simp: sql_insert_job_def Let_def frame_simps split: if_splits)
next
  case (Other_Locks d ids)
  then show ?case by simp
qed


text \<open>The columns nothing ever changes.\<close>

definition place :: "job \<Rightarrow> uuid \<times> uuid \<times> int \<times> int" where
  "place j = (j_id j, j_pipeline_run_id j, j_stage_order j, j_step_order j)"

lemma place_eqD:
  assumes "place k = place k'"
  shows "j_id k = j_id k'" "j_pipeline_run_id k = j_pipeline_run_id k'"
    "earlier_step j k = earlier_step j k'"
  using assms by (auto simp: place_def earlier_step_def)

lemma place_set [simp]:
  "place (claim_set c j) = place j" "place (heartbeat_set now j) = place j"
  "place (completed_set e now j) = place j" "place (failed_set e j) = place j"
  "place (reclaim_set j) = place j"
  by (simp_all add: place_def)

lemma unattended_places:
  assumes "unattended_step i d ids d'"
  shows "place ` set (jobs d) \<subseteq> place ` set (jobs d')"
  using assms
proof (induction rule: unattended_step.induct)
  case (Other_Claim workerId now d got d')
  from claim_statement[OF this] show ?case
    by (auto simp: frame_simps image_update_where)
qed (auto simp: sql_reclaim_stuck_jobs_def sql_update_heartbeat_def sql_mark_completed_def
       sql_mark_failed_def sql_insert_job_def Let_def frame_simps image_update_where split: if_splits)

lemma exhausted_run:
  assumes "unattended_run i d trace d'" "sound d" "j \<in> set (jobs d)" "j_id j = i"
    and "j_status j = Running" "j_max_retries j \<le> j_retry_count j"
  shows "sound d' \<and> j \<in> set (jobs d') \<and> place ` set (jobs d) \<subseteq> place ` set (jobs d') \<and>
    (\<forall>k \<in> set (jobs d). j_pipeline_run_id k = j_pipeline_run_id j \<longrightarrow> earlier_step j k \<longrightarrow>
       j_id k \<notin> set trace)"
  using assms
proof (induction rule: unattended_run.induct)
  case (Unattended_Refl d)
  then show ?case by simp
next
  case (Unattended_Step d trace d' ids d'')
  note IH = Unattended_Step(3)[OF Unattended_Step(4-8)]
  have s: "sound d'" "j \<in> set (jobs d')" using IH by blast+
  note step = exhausted_step[OF Unattended_Step(2) soundD(1)[OF s(1)] s(2) Unattended_Step(6-8)]
  have "sound d''" using sys_step_sound[OF unattended_sys[OF Unattended_Step(2)] s(1)] .
  moreover have "place ` set (jobs d) \<subseteq> place ` set (jobs d'')"
    using IH unattended_places[OF Unattended_Step(2)] by blast
  moreover have "j_id k \<notin> set (trace @ ids)"
    if k: "k \<in> set (jobs d)" "j_pipeline_run_id k = j_pipeline_run_id j" "earlier_step j k" for k
  proof -
    obtain k' where "k' \<in> set (jobs d')" "place k = place k'" using IH k(1) by blast
    with step IH k show ?thesis by (auto simp: place_eqD[OF \<open>place k = place k'\<close>])
  qed
  ultimately show ?case using step by blast
qed



end
