(* ===== verification/JobBoard.thy ===== *)
theory JobBoard
  imports JobTraces
begin

text \<open>
  The abstract specification of the job queue and its refinement.  A board holds one card per
  job: which run it belongs to, its place in the run, its phase and how often it was missed.
  The moves of the board are what the queue promises to its users; every committed statement
  of any process of the system is such a move on the board that the table jobs shows
  (\<open>board_of\<close>), and hands out the jobs the move takes.
\<close>

section \<open>The board\<close>

datatype phase = Waits | Runs | Ended_Well | Ended_Badly

record card =
  c_run :: uuid
  c_stage :: int
  c_step :: int
  c_phase :: phase
  c_missed :: int

type_synonym board = "uuid \<Rightarrow> card option"

definition ended :: "phase \<Rightarrow> bool" where
  "ended p \<longleftrightarrow> p = Ended_Well \<or> p = Ended_Badly"

definition card_before :: "card \<Rightarrow> card \<Rightarrow> bool" where
  "card_before a b \<longleftrightarrow> c_stage a < c_stage b \<or> c_stage a = c_stage b \<and> c_step a < c_step b"

text \<open>A card whose turn has come: all earlier cards of its run have ended.\<close>

definition on_turn :: "board \<Rightarrow> card \<Rightarrow> bool" where
  "on_turn b c \<longleftrightarrow> (\<forall>i a. b i = Some a \<longrightarrow> c_run a = c_run c \<longrightarrow> card_before a c \<longrightarrow> ended (c_phase a))"

definition miss :: "card \<Rightarrow> card" where
  "miss c = c\<lparr>c_missed := c_missed c + 1,
     c_phase := (if c_missed c + 1 \<ge> 3 then Ended_Badly else Waits)\<rparr>"

definition give_back :: "card \<Rightarrow> card" where
  "give_back c = c\<lparr>c_missed := c_missed c + 1, c_phase := Waits\<rparr>"

datatype board_event =
    Post uuid
  | Take uuid
  | Finish uuid
  | Miss uuid
  | Give_Back "uuid set"
  | Drop "uuid set"
  | Idle

text \<open>
  Posting a card, taking one whose turn has come, reporting the end or the miss of any card
  (late reports included), giving back running cards that may be tried again, dropping the
  cards of some runs.
\<close>

inductive board_step :: "board \<Rightarrow> board_event \<Rightarrow> board \<Rightarrow> bool" where
  "b i = None \<Longrightarrow> c_phase c = Waits \<Longrightarrow> c_missed c = 0 \<Longrightarrow> board_step b (Post i) (b(i \<mapsto> c))"
| "b i = Some c \<Longrightarrow> c_phase c = Waits \<Longrightarrow> on_turn b c \<Longrightarrow>
     board_step b (Take i) (b(i \<mapsto> c\<lparr>c_phase := Runs\<rparr>))"
| "b i = Some c \<Longrightarrow> board_step b (Finish i) (b(i \<mapsto> c\<lparr>c_phase := Ended_Well\<rparr>))"
| "b i = Some c \<Longrightarrow> board_step b (Miss i) (b(i \<mapsto> miss c))"
| "(\<And>i. i \<in> S \<Longrightarrow> \<exists>c. b i = Some c \<and> c_phase c = Runs \<and> c_missed c < 3) \<Longrightarrow>
     board_step b (Give_Back S) (\<lambda>i. if i \<in> S then map_option give_back (b i) else b i)"
| "board_step b (Drop K) (\<lambda>i. case b i of None \<Rightarrow> None | Some c \<Rightarrow> if c_run c \<in> K then None else Some c)"
| "board_step b Idle b"

inductive board_run :: "board \<Rightarrow> board_event list \<Rightarrow> board \<Rightarrow> bool" where
  Start: "board_run b [] b"
| Move: "board_run b es b' \<Longrightarrow> board_step b' e b'' \<Longrightarrow> board_run b (es @ [e]) b''"

fun taken_by :: "board_event \<Rightarrow> uuid list" where
  "taken_by (Take i) = [i]"
| "taken_by _ = []"

section \<open>The table as a board\<close>

fun phase_of :: "run_status \<Rightarrow> phase" where
  "phase_of Pending = Waits"
| "phase_of Running = Runs"
| "phase_of Success = Ended_Well"
| "phase_of Failed = Ended_Badly"
| "phase_of Cancelled = Ended_Badly"

definition job_card :: "job \<Rightarrow> card" where
  "job_card j = \<lparr>c_run = j_pipeline_run_id j, c_stage = j_stage_order j, c_step = j_step_order j,
     c_phase = phase_of (j_status j), c_missed = j_retry_count j\<rparr>"

definition job_at :: "db \<Rightarrow> uuid \<Rightarrow> job option" where
  "job_at d = map_of (map (\<lambda>j. (j_id j, j)) (jobs d))"

definition board_of :: "db \<Rightarrow> board" where
  "board_of d i = map_option job_card (job_at d i)"

lemma ended_phase [simp]: "ended (phase_of s) = terminal s"
  by (cases s) (simp_all add: ended_def terminal_def)

lemma phase_of_inj [simp]: "phase_of s = Waits \<longleftrightarrow> s = Pending" "phase_of s = Runs \<longleftrightarrow> s = Running"
  by (cases s; simp)+

lemma job_at_Some:
  assumes "distinct (map j_id (jobs d))"
  shows "job_at d i = Some j \<longleftrightarrow> j \<in> set (jobs d) \<and> j_id j = i"
proof -
  have "distinct (map fst (map (\<lambda>j. (j_id j, j)) (jobs d)))" using assms by (simp add: comp_def)
  then show ?thesis unfolding job_at_def by (subst map_of_eq_Some_iff) auto
qed

lemma job_at_None: "job_at d i = None \<longleftrightarrow> i \<notin> j_id ` set (jobs d)"
  by (simp add: job_at_def map_of_eq_None_iff image_image)

lemma board_same: "jobs d' = jobs d \<Longrightarrow> board_of d' = board_of d"
  by (rule ext) (simp add: board_of_def job_at_def)

lemma job_at_update:
  assumes "jobs d' = update_where P f (jobs d)" "\<And>j. j_id (f j) = j_id j"
  shows "job_at d' i = map_option (\<lambda>j. if P j then f j else j) (job_at d i)"
proof -
  have "map_of (map (\<lambda>j. (j_id j, j)) (update_where P f js)) i =
      map_option (\<lambda>j. if P j then f j else j) (map_of (map (\<lambda>j. (j_id j, j)) js) i)" for js
    by (induction js) (auto simp: update_where_def assms(2))
  then show ?thesis by (simp add: job_at_def assms(1))
qed

text \<open>An UPDATE of at most one job.\<close>

lemma board_update_one:
  assumes "jobs d' = update_where (\<lambda>j. j_id j = i) f (jobs d)" "\<And>j. j_id (f j) = j_id j"
    and "job_at d i = Some j"
  shows "board_of d' = (board_of d)(i \<mapsto> job_card (f j))"
proof (rule ext)
  fix k
  have "j_id x = k" if "job_at d k = Some x" for x
    using that unfolding job_at_def by (auto dest: map_of_SomeD)
  then show "board_of d' k = ((board_of d)(i \<mapsto> job_card (f j))) k"
    unfolding board_of_def job_at_update[OF assms(1,2)] using assms(3)
    by (cases "k = i"; cases "job_at d k") auto
qed

lemma board_update_none:
  assumes "jobs d' = update_where (\<lambda>j. j_id j = i) f (jobs d)" "job_at d i = None"
  shows "board_of d' = board_of d"
  using assms by (intro board_same) (auto simp: job_at_None update_where_def intro!: map_idI)

lemma board_none:
  assumes "jobs d' = update_where (\<lambda>j. is_row None (j_id j)) f (jobs d)"
  shows "board_of d' = board_of d"
  using assms by (intro board_same) (simp add: is_row_def update_where_def)

section \<open>The refinement\<close>

lemma board_Some:
  assumes "distinct (map j_id (jobs d))" "j \<in> set (jobs d)"
  shows "board_of d (j_id j) = Some (job_card j)"
  using assms by (simp add: board_of_def job_at_Some[of d "j_id j" j, THEN iffD2])

lemma card_before_of [simp]: "card_before (job_card a) (job_card b) = earlier_step a b"
  by (simp add: card_before_def job_card_def earlier_step_def)

lemma job_card_set [simp]:
  "job_card (claim_set c j) = (job_card j)\<lparr>c_phase := Runs\<rparr>"
  "job_card (heartbeat_set now j) = job_card j"
  "job_card (completed_set e now j) = (job_card j)\<lparr>c_phase := Ended_Well\<rparr>"
  "job_card (reclaim_set j) = give_back (job_card j)"
  by (cases c; simp add: job_card_def claim_set.simps heartbeat_set_def completed_set_def reclaim_set_def
      give_back_def)+

lemma job_card_failed:
  "job_ok j \<Longrightarrow> job_card (failed_set e j) = miss (job_card j)"
  by (simp add: job_card_def failed_set_def miss_def job_ok_def)

lemma claimable_on_turn:
  assumes "distinct (map j_id (jobs d))" "claimable c (jobs d) j"
  shows "on_turn (board_of d) (job_card j)"
  unfolding on_turn_def
proof (intro allI impI)
  fix i a assume a: "board_of d i = Some a" "c_run a = c_run (job_card j)" "card_before a (job_card j)"
  then obtain x where x: "x \<in> set (jobs d)" "a = job_card x"
    by (auto simp: board_of_def job_at_Some[OF assms(1)])
  with a assms(2) show "ended (c_phase a)"
    by (auto simp: claimable_def job_card_def card_before_def earlier_step_def)
qed

lemma claim_move:
  assumes "sql_claim_next_job workerId now d = Inr (got, d')" "distinct (map j_id (jobs d))"
  shows "\<exists>e. board_step (board_of d) e (board_of d') \<and> taken_by e = map j_id got"
  using assms(2,1)
proof (cases rule: claim_statement_keyed)
  case none
  then show ?thesis by (intro exI[of _ Idle]) (simp add: board_step.intros)
next
  case (one j)
  have b: "board_of d' = (board_of d)(j_id j \<mapsto> (job_card j)\<lparr>c_phase := Runs\<rparr>)"
    using board_update_one[of d' "j_id j" "claim_set (workerId, now)" d j] one(1,6) assms(2)
    by (simp add: frame_simps job_at_Some)
  have "board_step (board_of d) (Take (j_id j)) (board_of d')"
    unfolding b using one(2)
    by (intro board_step.intros(2) board_Some[OF assms(2) one(1)] claimable_on_turn[OF assms(2) one(2)])
      (simp add: job_card_def claimable_def)
  with one(4) show ?thesis by (intro exI[of _ "Take (j_id j)"]) simp
qed

text \<open>Every other statement takes nothing.\<close>

definition moves_board :: "db \<Rightarrow> db \<Rightarrow> bool" where
  "moves_board d d' \<longleftrightarrow> (\<exists>e. board_step (board_of d) e (board_of d') \<and> taken_by e = [])"

lemma moves_same: "jobs d' = jobs d \<Longrightarrow> moves_board d d'"
  unfolding moves_board_def by (rule exI[of _ Idle]) (simp add: board_same[of d' d] board_step.intros(7))

lemma moves_mark:
  assumes "jobs d' = update_where (\<lambda>j. is_row jid (j_id j)) f (jobs d)" "\<And>j. j_id (f j) = j_id j"
    and "distinct (map j_id (jobs d))"
    and "\<And>j. j \<in> set (jobs d) \<Longrightarrow>
      \<exists>e. board_step (board_of d) e ((board_of d)(j_id j \<mapsto> job_card (f j))) \<and> taken_by e = []"
  shows "moves_board d d'"
proof (cases "\<exists>i j. jid = Some i \<and> job_at d i = Some j")
  case True
  then obtain i j where ij: "jid = Some i" "job_at d i = Some j" by blast
  then have j: "j \<in> set (jobs d)" "j_id j = i" by (simp_all add: job_at_Some[OF assms(3)])
  have "jobs d' = update_where (\<lambda>j. j_id j = i) f (jobs d)"
    unfolding assms(1) update_where_def by (auto simp: is_row_def ij(1))
  from board_update_one[OF this assms(2) ij(2)] assms(4)[OF j(1)] j(2) show ?thesis
    by (auto simp: moves_board_def)
next
  case False
  then have "\<not> is_row jid (j_id j)" if "j \<in> set (jobs d)" for j
    using that job_at_None[of d "j_id j"] by (auto simp: is_row_def)
  then have "jobs d' = jobs d"
    unfolding assms(1) update_where_def by (intro map_idI) auto
  then show ?thesis by (rule moves_same)
qed

lemma marks_move:
  assumes "jobs_inv d"
  shows "sql_update_heartbeat jid now d = Inr (u, d') \<Longrightarrow> moves_board d d'"
    and "sql_mark_completed jid e now d = Inr (u, d') \<Longrightarrow> moves_board d d'"
    and "sql_mark_failed jid e now d = Inr (u, d') \<Longrightarrow> moves_board d d'"
proof -
  note ids = jobs_invD(1)[OF assms]
  have same: "(board_of d)(j_id j \<mapsto> job_card j) = board_of d" if "j \<in> set (jobs d)" for j
    using board_Some[OF ids that] by (simp add: fun_upd_idem)
  show "moves_board d d'" if "sql_update_heartbeat jid now d = Inr (u, d')"
    by (rule moves_mark[where jid = jid and f = "heartbeat_set now"])
      (use that in \<open>auto simp: sql_update_heartbeat_def ids same intro!: exI[of _ Idle] board_step.intros\<close>)
  show "moves_board d d'" if "sql_mark_completed jid e now d = Inr (u, d')"
    by (rule moves_mark[where jid = jid and f = "completed_set e now"])
      (use that in \<open>auto simp: sql_mark_completed_def frame_simps ids
        intro!: exI[of _ "Finish _"] board_step.intros(3) board_Some\<close>)
  show "moves_board d d'" if "sql_mark_failed jid e now d = Inr (u, d')"
    by (rule moves_mark[where jid = jid and f = "failed_set e"])
      (use that in \<open>auto simp: sql_mark_failed_def frame_simps ids job_card_failed jobs_invD(3)[OF assms]
        intro!: exI[of _ "Miss _"] board_step.intros(4) board_Some\<close>)
qed

lemma reclaim_moves:
  assumes "sql_reclaim_stuck_jobs t now d = Inr (u, d')" "jobs_inv d"
  shows "moves_board d d'"
proof -
  note ids = jobs_invD(1)[OF assms(2)]
  let ?S = "{i. \<exists>j. job_at d i = Some j \<and> stuck t now j}"
  have "jobs d' = update_where (stuck t now) reclaim_set (jobs d)"
    using assms(1) by (auto simp: sql_reclaim_stuck_jobs_def frame_simps)
  note at = job_at_update[OF this set_clause_ids(5)]
  have "board_of d' = (\<lambda>i. if i \<in> ?S then map_option give_back (board_of d i) else board_of d i)"
  proof
    fix i
    show "board_of d' i = (if i \<in> ?S then map_option give_back (board_of d i) else board_of d i)"
      by (cases "job_at d i") (simp_all add: board_of_def at)
  qed
  moreover have "board_step (board_of d) (Give_Back ?S) \<dots>"
    by (rule board_step.intros(5))
      (use jobs_invD(3)[OF assms(2)] in \<open>auto simp: board_of_def job_at_Some[OF ids] stuck_def job_card_def job_ok_def\<close>)
  ultimately show ?thesis unfolding moves_board_def by (intro exI[of _ "Give_Back ?S"]) simp
qed

lemma insert_moves:
  assumes "sql_insert_job i st sn cmd p so sp now d = Inr (j, d')" "jobs_inv d"
  shows "moves_board d d'"
proof -
  from assms(1) have j: "jobs d' = jobs d @ [j]" "j_id j = next_uuid d" "j_status j = Pending" "j_retry_count j = 0"
    by (auto simp: sql_insert_job_def Let_def frame_simps split: if_splits)
  have new: "job_at d (j_id j) = None"
    using jobs_invD(2)[OF assms(2)] unfolding job_at_None keys_ok_def j(2) by (metis imageE less_irrefl)
  then have "job_at d' k = ((job_at d)(j_id j \<mapsto> j)) k" for k
    using new by (auto simp: job_at_def j(1) map_add_def split: option.splits)
  then have "board_of d' = (board_of d)(j_id j \<mapsto> job_card j)"
    by (intro ext) (simp add: board_of_def)
  moreover have "board_step (board_of d) (Post (j_id j)) \<dots>"
    by (rule board_step.intros(1)) (simp_all add: board_of_def new[unfolded j(2)] job_card_def j)
  ultimately show ?thesis unfolding moves_board_def by (intro exI[of _ "Post (j_id j)"]) simp
qed

lemma delete_moves:
  assumes "sql_delete_pipeline pid now d = Inr (n, d')" "jobs_inv d"
  shows "moves_board d d'"
proof -
  obtain k where k: "pid = Uuid_Param k" using assms(1) by (cases rule: delete_pipeline_runs)
  let ?K = "r_id ` {r \<in> set (pipeline_runs d). r_pipeline_id r = k}"
  note ids = jobs_invD(1)[OF assms(2)]
  note d' = delete_pipeline_jobs(1)[OF assms(1)[unfolded k] assms(2)]
  have ids': "distinct (map j_id (jobs d'))" unfolding d' by (rule job_rows.distinct_delete[OF ids])
  have "job_at d' i = (case job_at d i of None \<Rightarrow> None
      | Some j \<Rightarrow> if j_pipeline_run_id j \<in> ?K then None else Some j)" for i
  proof (cases "job_at d' i")
    case None
    then show ?thesis
      using job_at_None[of d' i] by (auto simp: d' job_at_Some[OF ids] split: option.splits)
  next
    case (Some j)
    then have "job_at d i = Some j" "j_pipeline_run_id j \<notin> ?K"
      unfolding job_at_Some[OF ids'] job_at_Some[OF ids] by (auto simp: d')
    with Some show ?thesis by simp
  qed
  then have "board_of d' = (\<lambda>i. case board_of d i of None \<Rightarrow> None
      | Some c \<Rightarrow> if c_run c \<in> ?K then None else Some c)"
    by (intro ext) (auto simp: board_of_def job_card_def split: option.splits)
  moreover have "board_step (board_of d) (Drop ?K) \<dots>" by (rule board_step.intros(6))
  ultimately show ?thesis unfolding moves_board_def by (intro exI[of _ "Drop ?K"]) simp
qed

lemma step_moves:
  assumes "sys_step d ids d'" "jobs_inv d"
  shows "\<exists>e. board_step (board_of d) e (board_of d') \<and> taken_by e = ids"
proof -
  have "(\<exists>e. board_step (board_of d) e (board_of d') \<and> taken_by e = ids) \<or> ids = [] \<and> moves_board d d'"
    using assms
  proof (induction rule: sys_step.induct)
    case (Claim_Job workerId now d got d')
    with claim_move jobs_invD(1) show ?case by blast
  next
    case (Insert_Job i st sn cmd p so sp now d j d')
    with insert_moves show ?case by blast
  next
    case (Update_Heartbeat jid now d u d')
    with marks_move(1) show ?case by blast
  next
    case (Mark_Completed jid e now d u d')
    with marks_move(2) show ?case by blast
  next
    case (Mark_Failed jid e now d u d')
    with marks_move(3) show ?case by blast
  next
    case (Reclaim_Stuck t now d u d')
    with reclaim_moves show ?case by blast
  next
    case (Delete_Pipeline pid now d k d')
    with delete_moves show ?case by blast
  next
    case (Save_Pipeline p now d p' d')
    then show ?case
      by (intro disjI2 conjI refl moves_same)
        (auto simp: sql_save_pipeline_def Let_def split: if_splits option.splits)
  next
    case (Insert_Log fmt i line lvl now d n d')
    then show ?case by (auto simp: insert_job_log_frame intro: moves_same)
  qed (auto intro!: moves_same
       simp: sql_insert_pipeline_def sql_insert_run_def sql_install_log_trigger_def
         sql_install_run_trigger_def sql_try_lock_def sql_unlock_def sql_insert_deployment_lock_def
         sql_delete_deployment_lock_def sql_enqueue_notification_def sql_claim_next_webhook_def
         sql_mark_webhook_processed_def sql_mark_webhook_failed_def update_hook_def
         sql_create_matview_def sql_refresh_concurrently_def sql_refresh_def Let_def
       split: if_splits option.splits prod.splits)
  then show ?thesis by (auto simp: moves_board_def)
qed

text \<open>
  Property C2.  The system refines the board: every history of statements, by any processes
  in any order, is a run of the board on what the table shows, and the jobs handed out along
  the history are exactly the cards taken in that run, in the same order.  In particular a
  job is only handed out when its card waits and is on turn, and only running cards with
  misses left are given back.
\<close>

theorem system_refines_board:
  assumes "reachable d trace"
  shows "\<exists>es. board_run Map.empty es (board_of d) \<and> concat (map taken_by es) = trace"
  using assms
proof (induction rule: reachable.induct)
  case (Initial now)
  have "board_of (initial_db now) = Map.empty"
    by (rule ext) (simp add: board_of_def job_at_def initial_db_fields)
  then show ?case by (intro exI[of _ "[]"]) (simp add: Start)
next
  case (Step d trace ids d')
  then obtain es where es: "board_run Map.empty es (board_of d)" "concat (map taken_by es) = trace" by blast
  obtain e where "board_step (board_of d) e (board_of d')" "taken_by e = ids"
    using step_moves[OF Step(2)] soundD(1)[OF reachable_sound[OF Step(1)]] by blast
  with es show ?case by (intro exI[of _ "es @ [e]"]) (auto intro: Move)
qed

theorem system_refines_board_witness:
  "\<exists>d es. reachable d [5, 5, 5, 5] \<and> board_run Map.empty es (board_of d) \<and>
     concat (map taken_by es) = [5, 5, 5, 5]"
proof -
  obtain d where d: "reachable d [5, 5, 5, 5]" using demo_four_claims by blast
  from system_refines_board[OF d] d show ?thesis by blast
qed

end
