(* ===== verification/Columns.thy ===== *)
theory Columns
  imports JobTraces
begin

text \<open>
  The types of the columns: every text that a reachable database holds fits the width its
  entity declares, every integer that comes from a configuration fits its int column, and
  the counters are not negative.  Each statement keeps this (\<open>columns_ok\<close>).
\<close>

section \<open>Typed rows\<close>

definition pipeline_typed :: "pipeline \<Rightarrow> bool" where
  "pipeline_typed p \<longleftrightarrow> length (p_name p) \<le> 255 \<and> length (p_repository p) \<le> 500"

definition run_typed :: "pipeline_run \<Rightarrow> bool" where
  "run_typed r \<longleftrightarrow> length (r_trigger_type r) \<le> 50"

definition job_typed :: "job \<Rightarrow> bool" where
  "job_typed j \<longleftrightarrow> length (j_stage j) \<le> 100 \<and> length (j_step_name j) \<le> 255 \<and>
     fits_int4 (j_stage_order j) \<and> fits_int4 (j_step_order j) \<and> fits_int4 (j_priority j) \<and>
     (\<forall>w. j_claimed_by j = Some w \<longrightarrow> length w \<le> 100)"

definition log_typed :: "job_log \<Rightarrow> bool" where
  "log_typed l \<longleftrightarrow> length (l_log_level l) \<le> 20 \<and> 0 \<notin> set (l_log_line l) \<and> 0 \<notin> set (l_log_level l)"

definition lock_typed :: "deployment_lock \<Rightarrow> bool" where
  "lock_typed l \<longleftrightarrow> length (dl_environment l) \<le> 100"

definition hook_typed :: "webhook_outbox \<Rightarrow> bool" where
  "hook_typed h \<longleftrightarrow> length (w_event_type h) \<le> 100 \<and> 0 \<le> w_retry_count h"

definition columns_ok :: "db \<Rightarrow> bool" where
  "columns_ok d \<longleftrightarrow>
     (\<forall>p \<in> set (pipelines d). pipeline_typed p) \<and> (\<forall>r \<in> set (pipeline_runs d). run_typed r) \<and>
     (\<forall>j \<in> set (jobs d). job_typed j) \<and> (\<forall>l \<in> set (job_logs d). log_typed l) \<and>
     (\<forall>l \<in> set (deployment_locks d). lock_typed l) \<and> (\<forall>h \<in> set (webhooks_outbox d). hook_typed h)"

section \<open>Every statement keeps them\<close>

lemma typed_update:
  assumes "\<And>r. r \<in> set rows \<Longrightarrow> P r \<Longrightarrow> T r \<Longrightarrow> T (f r)" "\<forall>r \<in> set rows. T r"
  shows "\<forall>r \<in> set (update_where P f rows). T r"
  using assms by (auto simp: set_update_where)

lemma sync_runs_typed:
  "\<forall>r \<in> set (pipeline_runs d). run_typed r \<Longrightarrow>
     \<forall>r \<in> set (pipeline_runs (sync_pipeline_run_status now i d)). run_typed r"
  unfolding sync_runs by (rule typed_update) (simp_all add: run_typed_def sync_row_def)

lemma fire_runs_typed:
  assumes "\<forall>r \<in> set (pipeline_runs d). run_typed r"
  shows "\<forall>r \<in> set (pipeline_runs (fire_run_trigger now is d)). run_typed r"
proof -
  have "\<forall>r \<in> set (pipeline_runs (fold (sync_pipeline_run_status now) is d)). run_typed r"
    using assms
  proof (induction "is" arbitrary: d)
    case (Cons i "is")
    show ?case unfolding fold_Cons comp_def by (rule Cons.IH[OF sync_runs_typed[OF Cons.prems]])
  qed simp
  with assms show ?thesis by (simp add: fire_run_trigger_def)
qed

lemma job_typed_set [simp]:
  "job_typed (heartbeat_set now j) = job_typed j"
  "job_typed (completed_set e now j) = job_typed j"
  "job_typed j \<Longrightarrow> job_typed (failed_set e j)" "job_typed j \<Longrightarrow> job_typed (reclaim_set j)"
  "job_typed j \<Longrightarrow> length (fst c) \<le> 100 \<Longrightarrow> job_typed (claim_set c j)"
  by (cases c; simp add: job_typed_def heartbeat_set_def completed_set_def failed_set_def reclaim_set_def
      claim_set.simps)+

lemma update_jobs_columns:
  assumes "columns_ok d" "\<And>j. job_typed j \<Longrightarrow> job_typed (f j)"
  shows "columns_ok (update_jobs now P f d)"
  using assms fire_runs_typed[of "d\<lparr>jobs := update_where P f (jobs d)\<rparr>" now
      "map j_pipeline_run_id (filter P (jobs d))"]
  by (auto simp: columns_ok_def update_jobs_def frame_simps set_update_where)

lemma claim_columns:
  assumes "sql_claim_next_job workerId now d = Inr (got, d')" "columns_ok d"
  shows "columns_ok d'"
  using claim_statement[OF assms(1)]
  by (elim disjE exE conjE) (simp_all add: assms(2) update_jobs_columns)

lemma insert_job_columns:
  assumes "sql_insert_job i st sn cmd p so sp now d = Inr (j, d')" "columns_ok d"
  shows "columns_ok d'"
proof -
  let ?d = "d\<lparr>jobs := jobs d @ [j], next_uuid := next_uuid d + 1\<rparr>"
  from assms(1) have d': "d' = fire_run_trigger now [i] ?d" and "job_typed j"
    by (auto simp: sql_insert_job_def Let_def job_typed_def split: if_splits)
  then show ?thesis
    using assms(2) fire_runs_typed[of ?d now "[i]"] by (auto simp: columns_ok_def frame_simps)
qed

lemma step_columns: "sys_step d ids d' \<Longrightarrow> columns_ok d \<Longrightarrow> columns_ok d'"
proof (induction rule: sys_step.induct)
  case (Claim_Job workerId now d got d')
  then show ?case by (rule claim_columns)
next
  case (Insert_Job i st sn cmd p so sp now d j d')
  then show ?case by (rule insert_job_columns)
next
  case (Mark_Completed jid e now d u d')
  then show ?case by (auto simp: sql_mark_completed_def intro: update_jobs_columns)
next
  case (Mark_Failed jid e now d u d')
  then show ?case by (auto simp: sql_mark_failed_def intro: update_jobs_columns)
next
  case (Reclaim_Stuck t now d u d')
  then show ?case by (auto simp: sql_reclaim_stuck_jobs_def intro: update_jobs_columns)
next
  case (Update_Heartbeat jid now d u d')
  then show ?case by (auto simp: sql_update_heartbeat_def columns_ok_def set_update_where)
next
  case (Save_Pipeline p now d p' d')
  then show ?case
    by (auto simp: sql_save_pipeline_def Let_def columns_ok_def pipeline_typed_def set_update_where
        split: if_splits option.splits)
next
  case (Insert_Log fmt i line lvl now d n d')
  then show ?case
    by (auto simp: sql_insert_job_log_def pg_notify_def Let_def columns_ok_def log_typed_def
        split: if_splits)
next
  case (Delete_Pipeline pid now d k d')
  from Delete_Pipeline(1) have "pipeline_runs d' = pipeline_runs d' \<and> set (pipelines d') \<subseteq> set (pipelines d) \<and>
      set (pipeline_runs d') \<subseteq> set (pipeline_runs d) \<and> set (jobs d') \<subseteq> set (jobs d) \<and>
      set (job_logs d') \<subseteq> set (job_logs d) \<and> deployment_locks d' = deployment_locks d \<and>
      webhooks_outbox d' = webhooks_outbox d"
    by (auto simp: sql_delete_pipeline_def Let_def split: if_splits sum.splits)
  with Delete_Pipeline(2) show ?case unfolding columns_ok_def by auto
next
  case (Claim_Hook now d hs d')
  then show ?case
    by (auto simp: sql_claim_next_webhook_def claim_row_def columns_ok_def set_update_where hook_typed_def
        processing_set_def split: prod.splits option.splits)
next
  case (Hook_Again hid now d u d')
  then show ?case
    by (auto simp: sql_mark_webhook_failed_def update_hook_def columns_ok_def set_update_where hook_typed_def
        hook_failed_set_def)
next
  case (Hook_Done hid now d u d')
  then show ?case
    by (auto simp: sql_mark_webhook_processed_def update_hook_def columns_ok_def set_update_where
        hook_typed_def processed_set_def)
qed (auto simp: sql_insert_pipeline_def sql_insert_run_def sql_install_log_trigger_def
         sql_install_run_trigger_def sql_try_lock_def sql_unlock_def sql_insert_deployment_lock_def
         sql_delete_deployment_lock_def sql_enqueue_notification_def
         sql_create_matview_def sql_refresh_concurrently_def sql_refresh_def Let_def columns_ok_def
         pipeline_typed_def run_typed_def lock_typed_def hook_typed_def set_update_where
       split: if_splits option.splits prod.splits)

text \<open>
  Every row of every reachable database has the type of its entity: names,
  repositories, trigger types, stages, worker ids, log levels, environments and event types
  fit the widths their columns declare, priorities and indexes fit an int, no log line holds a
  zero character, and no retry counter is negative.
\<close>

theorem reachable_columns_typed:
  assumes "reachable d trace"
  shows "columns_ok d \<and> (\<forall>j \<in> set (jobs d). 0 \<le> j_retry_count j)"
proof -
  have "columns_ok d"
    using assms
  proof (induction rule: reachable.induct)
    case (Initial now)
    have "\<forall>p \<in> set (pipelines (initial_db now)).
        (p_name p, p_repository p, p_config p) \<in> set PIPELINE_SEED"
      unfolding initial_db_fields(9)[of now, symmetric] by simp
    moreover have "\<forall>(n, r, c) \<in> set PIPELINE_SEED. length n \<le> 255 \<and> length r \<le> 500"
      by (simp add: PIPELINE_SEED_def)
    ultimately have "\<forall>p \<in> set (pipelines (initial_db now)). pipeline_typed p"
      by (fastforce simp: pipeline_typed_def)
    moreover have "webhooks_outbox (initial_db now) = []" by (rule initial_db_hooks)
    ultimately show ?case by (simp add: columns_ok_def initial_db_fields)
  next
    case (Step d trace ids d')
    then show ?case by (blast intro: step_columns)
  qed
  moreover have "\<forall>j \<in> set (jobs d). job_ok j"
    using soundD(1)[OF reachable_sound[OF assms]] by (simp add: jobs_inv_def)
  ultimately show ?thesis by (auto simp: job_ok_def)
qed

theorem reachable_columns_typed_witness:
  "\<exists>d j. reachable d [] \<and> j \<in> set (jobs d) \<and> job_typed j \<and> 0 \<le> j_retry_count j"
proof -
  obtain d where d: "reachable d []" "demo_state 0 d" using demo_start by blast
  then obtain j where "j \<in> set (jobs d)" by (auto simp: demo_state_def map_eq_Cons_conv)
  with reachable_columns_typed[OF d(1)] d(1) show ?thesis unfolding columns_ok_def by blast
qed

end
