(* ===== verification/JobOrder.thy ===== *)
theory JobOrder
  imports JobFacts WebhookQueue
begin

text \<open>
  The order in which jobs are handed out: what one claim returns, that no claim repeats
  another, that a run with waiting jobs and none running always has one to claim, and that
  the jobs of a run are run one after the other as long as only the worker that holds a job
  marks it.
\<close>

section \<open>One claim\<close>

definition job_object_of :: "job \<Rightarrow> job_object" where
  "job_object_of j = \<lparr>jo_id = Some (j_id j), jo_pipeline_run_id = Some (j_pipeline_run_id j),
     jo_command = j_command j, jo_stage = j_stage j\<rparr>"

lemma claim_done:
  assumes "sql_claim_next_job workerId now d = Inl e" "\<not> 100 < length workerId"
  shows False
  using assms by (auto simp: sql_claim_next_job_def split: prod.splits if_splits)

lemma claimNextJob_quiet:
  assumes "script w = []" "distinct (map j_id (jobs (the_db w)))" "length workerId \<le> 100"
  obtains (none) "claimNextJob plain_rows workerId w = (Done None, w)"
      "\<And>x. x \<in> set (jobs (the_db w)) \<Longrightarrow>
         claimable (workerId, clock w) (jobs (the_db w)) x \<Longrightarrow> j_id x \<in> row_locks (the_db w)"
  | (one) j d' where "j \<in> set (jobs (the_db w))"
      "claimable (workerId, clock w) (jobs (the_db w)) j" "j_id j \<notin> row_locks (the_db w)"
      "\<And>x. x \<in> set (jobs (the_db w)) \<Longrightarrow> claimable (workerId, clock w) (jobs (the_db w)) x \<Longrightarrow>
         j_id x \<notin> row_locks (the_db w) \<Longrightarrow> claim_rank_of j \<le> claim_rank_of x"
      "claimNextJob plain_rows workerId w = (Done (Some (job_object_of j)), w\<lparr>the_db := d'\<rparr>)"
      "d' = update_jobs (clock w) (\<lambda>x. j_id x = j_id j) (claim_set (workerId, clock w)) (the_db w)"
      "set (jobs d') = insert (claim_set (workerId, clock w) j) (set (jobs (the_db w)) - {j})"
proof -
  obtain got d' where s: "sql_claim_next_job workerId (clock w) (the_db w) = Inr (got, d')"
    using claim_done[of workerId "clock w" "the_db w"] assms(3)
    by (cases "sql_claim_next_job workerId (clock w) (the_db w)") auto
  have q: "claimNextJob plain_rows workerId w =
      (Done (map_option normalizeJobRow (first_cell (map Row got))), w\<lparr>the_db := d'\<rparr>)"
    using assms(1) by (simp add: claimNextJob_def seq_def query_quiet s ret_def plain_rows_def)
  from assms(2) s show thesis
  proof (cases rule: claim_statement_keyed)
    case none
    show thesis
      by (rule that(1)) (use none q in auto)
  next
    case (one j)
    show thesis
    proof (rule that(2)[of j d'])
      show "claimNextJob plain_rows workerId w =
          (Done (Some (job_object_of j)), w\<lparr>the_db := d'\<rparr>)"
        using q by (simp add: one(4) job_object_of_def claim_set.simps)
    qed (use one in auto)
  qed
qed

text \<open>
  Property C16.  A claim takes a job exactly when some pending job has no open earlier job in
  its run and is not locked by a statement of another session; the job is the first in the
  order of stage, step, priority (high first) and age, and afterwards it alone has changed: it
  is running under the worker, with its claim, heartbeat and start at the time of the
  statement.  The method answers with the first element of what the database layer makes of
  the rows of the statement, whatever that is: for the array of the rows, the job or null; for
  the pair of the rows and their number, never null.  A worker id of more than 100 characters
  fails the statement, and nothing changes.
\<close>

theorem claim_next_job_outcome:
  assumes "script w = []" "distinct (map j_id (jobs (the_db w)))"
  shows "(if \<exists>x \<in> set (jobs (the_db w)).
              claimable (workerId, clock w) (jobs (the_db w)) x \<and> j_id x \<notin> row_locks (the_db w)
          then \<exists>j \<in> set (jobs (the_db w)).
              claimable (workerId, clock w) (jobs (the_db w)) j \<and> j_id j \<notin> row_locks (the_db w) \<and>
              (\<forall>x \<in> set (jobs (the_db w)). claimable (workerId, clock w) (jobs (the_db w)) x \<longrightarrow>
                 j_id x \<notin> row_locks (the_db w) \<longrightarrow> claim_rank_of j \<le> claim_rank_of x) \<and>
              (let j' = j\<lparr>j_status := Running, j_claimed_by := Some workerId,
                   j_claimed_at := Some (clock w), j_heartbeat_at := Some (clock w),
                   j_started_at := Some (clock w)\<rparr>
               in if length workerId \<le> 100
                  then \<exists>w'. claimNextJob sh workerId w =
                       (Done (map_option normalizeJobRow (first_cell (sh [j']))), w') \<and>
                     set (jobs (the_db w')) = insert j' (set (jobs (the_db w)) - {j})
                  else claimNextJob sh workerId w = (Threw (Query_Failed String_Too_Long), w))
          else claimNextJob sh workerId w = (Done (map_option normalizeJobRow (first_cell (sh []))), w)) \<and>
    first_cell (plain_rows [j]) = Some (Row j) \<and> first_cell (plain_rows ([] :: job list)) = None \<and>
    first_cell (rows_and_count rows) = Some (Row_Array (rows :: job list))"
proof -
  let ?js = "jobs (the_db w)"
  let ?c = "(workerId, clock w)"
  let ?L = "row_locks (the_db w)"
  have set_row: "claim_set ?c j = j\<lparr>j_status := Running, j_claimed_by := Some workerId,
      j_claimed_at := Some (clock w), j_heartbeat_at := Some (clock w),
      j_started_at := Some (clock w)\<rparr>" for j
    by (simp add: claim_set.simps)
  have shapes: "first_cell (plain_rows [j]) = Some (Row j) \<and> first_cell (plain_rows ([] :: job list)) = None \<and>
    first_cell (rows_and_count rows) = Some (Row_Array (rows :: job list))"
    by (simp add: plain_rows_def rows_and_count_def)
  show ?thesis
  proof (cases "pick_row j_id claimable claim_rank_of ?L ?c ?js")
    case None
    then have none: "\<not> (\<exists>x \<in> set ?js. claimable ?c ?js x \<and> j_id x \<notin> ?L)"
      by (auto simp: pick_row_None_iff)
    have "sql_claim_next_job workerId (clock w) (the_db w) = Inr ([], the_db w)"
      by (simp add: sql_claim_next_job_def claim_row_def None)
    with shapes show ?thesis
      unfolding if_not_P[OF none] using assms(1) by (simp add: claimNextJob_def seq_def query_quiet ret_def)
  next
    case (Some j)
    note j = pick_row_Some[OF Some]
    have ex: "\<exists>x \<in> set ?js. claimable ?c ?js x \<and> j_id x \<notin> ?L" using j by blast
    have rows: "claim_row j_id claimable claim_rank_of claim_set ?L ?c ?js =
        ([claim_set ?c j], update_where (\<lambda>x. j_id x = j_id j) (claim_set ?c) ?js)"
      by (simp add: claim_row_def Some job_rows.filter_key[OF assms(2) j(1)])
    note after = job_rows.update_key[OF assms(2) j(1), of "claim_set ?c"]
    have "if length workerId \<le> 100
      then \<exists>w'. claimNextJob sh workerId w = (Done (map_option normalizeJobRow (first_cell (sh [claim_set ?c j]))), w') \<and>
        set (jobs (the_db w')) = insert (claim_set ?c j) (set ?js - {j})
      else claimNextJob sh workerId w = (Threw (Query_Failed String_Too_Long), w)"
      using assms(1) after
      by (simp add: claimNextJob_def seq_def query_quiet sql_claim_next_job_def rows ret_def frame_simps)
    then have "let j' = claim_set ?c j in if length workerId \<le> 100
      then \<exists>w'. claimNextJob sh workerId w = (Done (map_option normalizeJobRow (first_cell (sh [j']))), w') \<and>
        set (jobs (the_db w')) = insert j' (set ?js - {j})
      else claimNextJob sh workerId w = (Threw (Query_Failed String_Too_Long), w)"
      by (simp only: Let_def)
    with j shapes ex show ?thesis
      unfolding if_P[OF ex] set_row by (intro conjI bexI[OF _ j(1)]) auto
  qed
qed

definition demo_job :: "uuid \<Rightarrow> int \<Rightarrow> run_status \<Rightarrow> job" where
  "demo_job i k s = \<lparr>j_id = i, j_pipeline_run_id = 1, j_stage = lit ''build'', j_stage_order = k,
     j_step_name = [], j_step_order = 0, j_command = [], j_status = s, j_priority = 5,
     j_claimed_by = (if s = Running then Some [] else None),
     j_claimed_at = (if s = Running then Some 0 else None),
     j_heartbeat_at = (if s = Running then Some 0 else None), j_retry_count = 0,
     j_max_retries = 3, j_exit_code = (if terminal s then Some 0 else None),
     j_started_at = (if s = Running then Some 0 else None),
     j_completed_at = (if terminal s then Some 0 else None), j_created_at = 0\<rparr>"

definition demo_world :: "job list \<Rightarrow> world" where
  "demo_world js = \<lparr>the_db = empty_db\<lparr>pipeline_runs := [\<lparr>r_id = 1, r_pipeline_id = 0,
       r_trigger_type = [], r_trigger_metadata = JNull, r_status = Pending, r_started_at = None,
       r_completed_at = None, r_created_at = 0\<rparr>], jobs := js, next_uuid := 10,
       run_trigger := True\<rparr>,
     clock = 7, aborted = False, clients = {}, script = []\<rparr>"

theorem claim_next_job_outcome_witness:
  "let w = demo_world [demo_job 2 0 Pending]
   in \<exists>j \<in> set (jobs (the_db w)). \<exists>w'. claimNextJob rows_and_count (lit ''w'') w =
     (Done (Some \<lparr>jo_id = None, jo_pipeline_run_id = None, jo_command = [], jo_stage = []\<rparr>), w') \<and>
     j\<lparr>j_status := Running, j_claimed_by := Some (lit ''w''), j_claimed_at := Some 7,
       j_heartbeat_at := Some 7, j_started_at := Some 7\<rparr> \<in> set (jobs (the_db w'))"
proof -
  let ?w = "demo_world [demo_job 2 0 Pending]"
  have w: "script ?w = []" "jobs (the_db ?w) = [demo_job 2 0 Pending]" "clock ?w = 7"
    "row_locks (the_db ?w) = {}"
    by (simp_all add: demo_world_def empty_db_def)
  have "claimable c [demo_job 2 0 Pending] (demo_job 2 0 Pending)" for c
    by (simp add: claimable_def) (simp add: demo_job_def)
  with claim_next_job_outcome[of ?w "lit ''w''" rows_and_count]
  obtain w' where w': "claimNextJob rows_and_count (lit ''w'') ?w =
      (Done (Some \<lparr>jo_id = None, jo_pipeline_run_id = None, jo_command = [], jo_stage = []\<rparr>), w')"
    "set (jobs (the_db w')) = {(demo_job 2 0 Pending)\<lparr>j_status := Running, j_claimed_by := Some (lit ''w''),
       j_claimed_at := Some 7, j_heartbeat_at := Some 7, j_started_at := Some 7\<rparr>}"
    by (auto simp: w Let_def rows_and_count_def plain_rows_def)
  show ?thesis
    unfolding Let_def by (intro bexI[of _ "demo_job 2 0 Pending"] exI[of _ w'] conjI) (simp_all add: w w')
qed

text \<open>
  However many workers claim jobs and webhooks one after the other, each
  statement with its own worker, time and set of rows locked by the others: no job and no
  webhook is handed out twice.
\<close>

theorem no_double_claim:
  assumes "distinct (map j_id js)" "distinct (map w_id ws)"
  shows "distinct (claim_many j_id claimable claim_rank_of claim_set cs js) \<and>
    distinct (claim_many w_id hook_due w_next_retry_at processing_set cs' ws)"
  using jq.claim_many_distinct[OF assms(1)] wq.claim_many_distinct[OF assms(2)] by blast

definition demo_hook :: "uuid \<Rightarrow> int \<Rightarrow> webhook_outbox" where
  "demo_hook i t = \<lparr>w_id = i, w_event_type = lit ''run.done'', w_payload = [],
     w_webhook_url = lit ''http://h'', w_status = Hook_Pending, w_retry_count = 0,
     w_max_retries = 5, w_next_retry_at = t, w_created_at = 0, w_processed_at = None\<rparr>"

theorem no_double_claim_witness:
  "distinct (claim_many j_id claimable claim_rank_of claim_set [({}, [], 1), ({}, [1], 2)]
     [demo_job 2 0 Pending, demo_job 3 0 Pending]) \<and>
   distinct (claim_many w_id hook_due w_next_retry_at processing_set [({}, 5), ({}, 6)]
     [demo_hook 8 1, demo_hook 9 0])"
  by (rule no_double_claim) (simp_all add: demo_job_def demo_hook_def)

section \<open>Progress\<close>

lemma earlier_rank: "earlier_step p j \<Longrightarrow> claim_rank_of p < claim_rank_of j"
  by (auto simp: earlier_step_def claim_rank_of_def less_claim_rank_def)

text \<open>The first waiting job of a run without running jobs is claimable.\<close>

lemma ex_claimable:
  assumes "\<And>j. j \<in> set js \<Longrightarrow> job_ok j" "j \<in> set js" "j_status j = Pending"
    and "\<And>x. x \<in> set js \<Longrightarrow> j_pipeline_run_id x = j_pipeline_run_id j \<Longrightarrow> j_status x \<noteq> Running"
  shows "\<exists>m \<in> set js. claimable c js m \<and> j_pipeline_run_id m = j_pipeline_run_id j"
proof -
  let ?P = "\<lambda>x. j_pipeline_run_id x = j_pipeline_run_id j \<and> j_status x = Pending"
  have "filter ?P js \<noteq> []" using assms(2,3) by (auto simp: filter_empty_conv)
  then obtain m where m: "first_min claim_rank_of (filter ?P js) = Some m"
    using first_min_ex by blast
  note in_m = first_min_in[OF m]
  have "terminal (j_status p)"
    if p: "p \<in> set js" "j_pipeline_run_id p = j_pipeline_run_id m" "earlier_step p m" for p
  proof (rule ccontr)
    assume "\<not> terminal (j_status p)"
    moreover have "j_pipeline_run_id p = j_pipeline_run_id j" using p(2) in_m by simp
    moreover from this have "j_status p \<noteq> Running" using assms(4) p(1) by blast
    ultimately have "p \<in> set (filter ?P js)"
      using p(1) by (cases "j_status p") simp_all
    from first_min_le[OF m this] earlier_rank[OF p(3)] show False by simp
  qed
  with in_m show ?thesis by (auto simp: claimable_def)
qed

text \<open>
  Property C17.  No stall: a run with a waiting job and none running has a job that can be
  claimed; and as long as that job's row is not locked, the claim statement of any worker
  returns one row, that job or one before it in the claim order.
\<close>

theorem claim_progress:
  assumes "jobs_inv d" "j \<in> set (jobs d)" "j_status j = Pending"
    and "\<forall>x \<in> set (run_jobs d (j_pipeline_run_id j)). j_status x \<noteq> Running"
  shows "\<exists>m \<in> set (run_jobs d (j_pipeline_run_id j)). claimable (workerId, now) (jobs d) m \<and>
    (j_id m \<notin> row_locks d \<longrightarrow> length workerId \<le> 100 \<longrightarrow>
      (\<exists>k \<in> set (jobs d). \<exists>d'. sql_claim_next_job workerId now d = Inr ([claim_set (workerId, now) k], d') \<and>
         claim_rank_of k \<le> claim_rank_of m))"
proof -
  have "j_status x \<noteq> Running" if "x \<in> set (jobs d)" "j_pipeline_run_id x = j_pipeline_run_id j" for x
    using assms(4) that by (simp add: run_jobs_def)
  from ex_claimable[of "jobs d" j, OF jobs_invD(3)[OF assms(1)] assms(2,3) this]
  obtain m where m: "m \<in> set (jobs d)" "claimable (workerId, now) (jobs d) m"
    "j_pipeline_run_id m = j_pipeline_run_id j" by blast
  have "\<exists>k \<in> set (jobs d). \<exists>d'. sql_claim_next_job workerId now d = Inr ([claim_set (workerId, now) k], d') \<and>
      claim_rank_of k \<le> claim_rank_of m" if free: "j_id m \<notin> row_locks d" "length workerId \<le> 100"
  proof -
    obtain got d' where s: "sql_claim_next_job workerId now d = Inr (got, d')"
      using claim_done[of workerId now d] free(2) by (cases "sql_claim_next_job workerId now d") auto
    from jobs_invD(1)[OF assms(1)] s show ?thesis
      by (cases rule: claim_statement_keyed) (use m free(1) s in auto)
  qed
  with m show ?thesis by (intro bexI[of _ m]) (auto simp: run_jobs_def)
qed

theorem claim_progress_witness:
  "let d = the_db (demo_world [demo_job 3 1 Pending, demo_job 2 0 Pending])
   in \<exists>m \<in> set (run_jobs d (j_pipeline_run_id (demo_job 3 1 Pending))). claimable (lit ''w'', 5) (jobs d) m"
proof -
  let ?d = "the_db (demo_world [demo_job 3 1 Pending, demo_job 2 0 Pending])"
  have "jobs_inv ?d" "demo_job 3 1 Pending \<in> set (jobs ?d)" "j_status (demo_job 3 1 Pending) = Pending"
    "\<forall>x \<in> set (run_jobs ?d (j_pipeline_run_id (demo_job 3 1 Pending))). j_status x \<noteq> Running"
    by (simp_all add: demo_world_def demo_job_def jobs_inv_def keys_ok_def job_ok_def empty_db_def run_jobs_def)
  from claim_progress[OF this, of "lit ''w''" 5] show ?thesis unfolding Let_def by blast
qed

section \<open>One after the other\<close>

text \<open>
  The steps in which a mark hits running jobs only, as it does when a job is marked by the
  worker that holds it, and in which run \<open>k\<close> gets no more jobs.  The code does not check the
  first (markCompleted and markFailed look at the id alone), and does not wait for the second.
\<close>

inductive owner_step :: "uuid \<Rightarrow> db \<Rightarrow> db \<Rightarrow> bool" for k where
  Owner_Claim: "sql_claim_next_job workerId now d = Inr (got, d') \<Longrightarrow> owner_step k d d'"
| Owner_Heartbeat: "sql_update_heartbeat jid now d = Inr (u, d') \<Longrightarrow> owner_step k d d'"
| Owner_Completed: "sql_mark_completed jid e now d = Inr (u, d') \<Longrightarrow>
     (\<forall>j \<in> set (jobs d). is_row jid (j_id j) \<longrightarrow> j_status j = Running) \<Longrightarrow> owner_step k d d'"
| Owner_Failed: "sql_mark_failed jid e now d = Inr (u, d') \<Longrightarrow>
     (\<forall>j \<in> set (jobs d). is_row jid (j_id j) \<longrightarrow> j_status j = Running) \<Longrightarrow> owner_step k d d'"
| Owner_Reclaim: "sql_reclaim_stuck_jobs t now d = Inr (u, d') \<Longrightarrow> owner_step k d d'"
| Owner_Insert: "sql_insert_job i st sn cmd p so sp now d = Inr (j, d') \<Longrightarrow> i \<noteq> k \<Longrightarrow>
     owner_step k d d'"
| Owner_Locks: "owner_step k d (d\<lparr>row_locks := ids\<rparr>)"

text \<open>A job that is not waiting has all earlier jobs of its run behind it.\<close>

definition in_order :: "uuid \<Rightarrow> job list \<Rightarrow> bool" where
  "in_order k js \<longleftrightarrow>
     (\<forall>j \<in> set js. \<forall>p \<in> set js. j_pipeline_run_id j = k \<longrightarrow> j_pipeline_run_id p = k \<longrightarrow>
        j_status j \<noteq> Pending \<longrightarrow> earlier_step p j \<longrightarrow> terminal (j_status p))"

definition slots :: "uuid \<Rightarrow> job list \<Rightarrow> (int \<times> int) list" where
  "slots k js = map (\<lambda>j. (j_stage_order j, j_step_order j))
     (filter (\<lambda>j. j_pipeline_run_id j = k) js)"

lemma in_order_update:
  fixes f :: "job \<Rightarrow> job"
  assumes "in_order k js"
    and run: "\<And>j. j_pipeline_run_id (f j) = j_pipeline_run_id j"
    and ord: "\<And>p j. earlier_step p (f j) = earlier_step p j"
      "\<And>p j. earlier_step (f p) j = earlier_step p j"
    and keep: "\<And>j. j \<in> set js \<Longrightarrow> P j \<Longrightarrow> terminal (j_status j) \<Longrightarrow> terminal (j_status (f j))"
    and start: "\<And>j p. j \<in> set js \<Longrightarrow> P j \<Longrightarrow> j_status (f j) \<noteq> Pending \<Longrightarrow> j_status j = Pending \<Longrightarrow>
      p \<in> set js \<Longrightarrow> j_pipeline_run_id p = j_pipeline_run_id j \<Longrightarrow> earlier_step p j \<Longrightarrow>
      terminal (j_status p)"
  shows "in_order k (update_where P f js)"
proof -
  let ?g = "\<lambda>j. if P j then f j else j"
  have g: "j_pipeline_run_id (?g j) = j_pipeline_run_id j"
    "earlier_step (?g p) (?g j) = earlier_step p j" for j p
    by (simp_all add: run ord)
  have "terminal (j_status (?g p))"
    if "j \<in> set js" "p \<in> set js" "j_pipeline_run_id j = k" "j_pipeline_run_id p = k"
      "j_status (?g j) \<noteq> Pending" "earlier_step p j" for j p
  proof -
    have "terminal (j_status p)"
    proof (cases "j_status j = Pending")
      case True
      with that(5) have "P j" by (auto split: if_splits)
      with start[OF that(1) this _ True that(2)] that show ?thesis by auto
    next
      case False
      with assms(1) that show ?thesis by (auto simp: in_order_def)
    qed
    with keep[OF that(2)] show ?thesis by simp
  qed
  then show ?thesis
    unfolding in_order_def set_update_where ball_simps(9) g by blast
qed

lemma slots_update:
  assumes "\<And>j. j_pipeline_run_id (f j) = j_pipeline_run_id j"
    and "\<And>j. j_stage_order (f j) = j_stage_order j" "\<And>j. j_step_order (f j) = j_step_order j"
  shows "slots k (update_where P f js) = slots k js"
  unfolding slots_def
  by (subst filter_update_where) (simp_all add: assms map_update_where)


lemma claim_in_order:
  assumes "sql_claim_next_job workerId now d = Inr (got, d')" "jobs_inv d" "in_order k (jobs d)"
  shows "in_order k (jobs d') \<and> slots k (jobs d') = slots k (jobs d)"
  using jobs_invD(1)[OF assms(2)] assms(1)
proof (cases rule: claim_statement_keyed)
  case none
  with assms(3) show ?thesis by simp
next
  case (one x)
  have same: "j = x" if "j \<in> set (jobs d)" "j_id j = j_id x" for j
    using job_rows.key_unique[OF jobs_invD(1)[OF assms(2)] that(1) one(1) that(2)] .
  have "in_order k (jobs d')"
    unfolding one(6) frame_simps
  proof (rule in_order_update[OF assms(3)])
    fix j p
    assume "j \<in> set (jobs d)" "j_id j = j_id x" and p: "p \<in> set (jobs d)"
      "j_pipeline_run_id p = j_pipeline_run_id j" "earlier_step p j"
    then have "j = x" by (intro same)
    with one(2) p show "terminal (j_status p)" by (auto simp: claimable_def)
  next
    fix j assume j: "j \<in> set (jobs d)" "j_id j = j_id x" "terminal (j_status j)"
    have "j = x" by (rule same[OF j(1,2)])
    with one(2) j(3) show "terminal (j_status (claim_set (workerId, now) j))" by (simp add: claimable_def)
  qed simp_all
  moreover have "slots k (jobs d') = slots k (jobs d)"
    unfolding one(6) frame_simps by (rule slots_update) simp_all
  ultimately show ?thesis ..
qed

lemma owner_in_order:
  assumes "owner_step k d d'" "jobs_inv d" "in_order k (jobs d)"
  shows "in_order k (jobs d') \<and> slots k (jobs d') = slots k (jobs d)"
  using assms
proof (induction rule: owner_step.induct)
  case (Owner_Claim workerId now d got d')
  then show ?case by (rule claim_in_order)
next
  case (Owner_Heartbeat jid now d u d')
  then have "jobs d' = update_where (\<lambda>j. is_row jid (j_id j)) (heartbeat_set now) (jobs d)"
    by (auto simp: sql_update_heartbeat_def)
  with Owner_Heartbeat(3) show ?case
    by (auto intro!: in_order_update slots_update simp: earlier_step_def)
next
  case (Owner_Completed jid e now d u d')
  then have "jobs d' = update_where (\<lambda>j. is_row jid (j_id j)) (completed_set e now) (jobs d)"
    by (auto simp: sql_mark_completed_def frame_simps)
  with Owner_Completed(2,4) show ?case
    by (auto intro!: in_order_update slots_update simp: earlier_step_def)
next
  case (Owner_Failed jid e now d u d')
  then have "jobs d' = update_where (\<lambda>j. is_row jid (j_id j)) (failed_set e) (jobs d)"
    by (auto simp: sql_mark_failed_def frame_simps)
  with Owner_Failed(2,4) show ?case
    by (auto intro!: in_order_update slots_update simp: earlier_step_def)
next
  case (Owner_Reclaim t now d u d')
  then have "jobs d' = update_where (stuck t now) reclaim_set (jobs d)"
    by (auto simp: sql_reclaim_stuck_jobs_def frame_simps)
  with Owner_Reclaim(3) show ?case
    by (auto intro!: in_order_update slots_update simp: earlier_step_def stuck_def)
next
  case (Owner_Insert i st sn cmd p so sp now d j d')
  then have "jobs d' = jobs d @ [j]" "j_pipeline_run_id j \<noteq> k"
    by (auto simp: sql_insert_job_def Let_def frame_simps split: if_splits)
  with Owner_Insert(4) show ?case by (auto simp: in_order_def slots_def)
next
  case (Owner_Locks d ids)
  then show ?case by simp
qed

lemma owner_jobs_inv: "owner_step k d d' \<Longrightarrow> jobs_inv d \<Longrightarrow> jobs_inv d'"
proof (induction rule: owner_step.induct)
  case (Owner_Locks d ids)
  then show ?case by (simp add: jobs_inv_def keys_ok_def)
qed (auto intro: statement_jobs_inv)

lemma owner_run:
  assumes "(owner_step k)\<^sup>*\<^sup>* d d'" "jobs_inv d" "in_order k (jobs d)"
  shows "jobs_inv d' \<and> in_order k (jobs d') \<and> slots k (jobs d') = slots k (jobs d)"
  using assms
  by (induction rule: rtranclp_induct) (auto dest: owner_in_order owner_jobs_inv)

lemma slots_ordered:
  assumes "distinct (slots k js)" "j \<in> set js" "p \<in> set js" "j_pipeline_run_id j = k"
    and "j_pipeline_run_id p = k" "\<not> earlier_step j p" "\<not> earlier_step p j"
  shows "j = p"
proof -
  have "(j_stage_order j, j_step_order j) = (j_stage_order p, j_step_order p)"
    using assms(6,7) by (auto simp: earlier_step_def)
  moreover have "inj_on (\<lambda>j. (j_stage_order j, j_step_order j))
      (set (filter (\<lambda>j. j_pipeline_run_id j = k) js))"
    using assms(1) by (simp add: slots_def distinct_map)
  ultimately show ?thesis using assms(2-5) by (auto dest: inj_onD)
qed

text \<open>
  Property C6.  Under four conditions a run is worked in order: its jobs have different places
  in the pipeline, all of them wait at first, none is added meanwhile, and every mark hits a job
  that is running then.  From such a run, any claims, heartbeats, reclaims, such marks and
  inserts into other runs, of any processes in any order, leave the run in order: a job that was
  started has all earlier jobs of its run finished, and at most one job of the run is running.
  The code guarantees neither of the last two: a mark may come late, and a triggered run gets its
  jobs while workers already claim them; both break the order, as is shown below and in
  \<open>TriggerRace\<close>.
\<close>

theorem one_job_at_a_time:
  assumes "(owner_step k)\<^sup>*\<^sup>* d d'" "jobs_inv d" "distinct (slots k (jobs d))"
    and "\<forall>j \<in> set (run_jobs d k). j_status j = Pending"
  shows "in_order k (jobs d') \<and>
    (\<forall>i \<in> set (run_jobs d' k). \<forall>j \<in> set (run_jobs d' k).
       j_status i = Running \<longrightarrow> j_status j = Running \<longrightarrow> i = j)"
proof -
  have "in_order k (jobs d)" using assms(4) by (simp add: in_order_def run_jobs_def)
  from owner_run[OF assms(1,2) this] assms(3)
  have ord: "in_order k (jobs d')" "distinct (slots k (jobs d'))" by auto
  have free: "\<not> earlier_step i j" if "i \<in> set (run_jobs d' k)" "j \<in> set (run_jobs d' k)"
      "j_status i = Running" "j_status j = Running" for i j
  proof
    assume e: "earlier_step i j"
    have "i \<in> set (jobs d')" "j \<in> set (jobs d')" "j_pipeline_run_id i = k" "j_pipeline_run_id j = k"
      using that by (simp_all add: run_jobs_def)
    moreover have "j_status j \<noteq> Pending" using that by simp
    ultimately have "terminal (j_status i)" using ord(1) e unfolding in_order_def by blast
    with that show False by simp
  qed
  have "i = j" if "i \<in> set (run_jobs d' k)" "j \<in> set (run_jobs d' k)" "j_status i = Running"
      "j_status j = Running" for i j
    using that free[OF that] free[OF that(2,1,4,3)]
    by (intro slots_ordered[OF ord(2)]) (simp_all add: run_jobs_def)
  with ord(1) show ?thesis by blast
qed


theorem one_job_at_a_time_witness:
  "let d = the_db (demo_world [demo_job 3 1 Pending, demo_job 2 0 Pending])
   in \<exists>got d'. sql_claim_next_job (lit ''w'') 8 d = Inr (got, d') \<and> in_order 1 (jobs d') \<and>
      (\<forall>i \<in> set (run_jobs d' 1). \<forall>j \<in> set (run_jobs d' 1).
         j_status i = Running \<longrightarrow> j_status j = Running \<longrightarrow> i = j)"
proof -
  let ?d = "the_db (demo_world [demo_job 3 1 Pending, demo_job 2 0 Pending])"
  obtain got d' where s: "sql_claim_next_job (lit ''w'') 8 ?d = Inr (got, d')"
    using claim_done[of "lit ''w''" 8 ?d] by (cases "sql_claim_next_job (lit ''w'') 8 ?d") auto
  have "(owner_step 1)\<^sup>*\<^sup>* ?d d'" using Owner_Claim[OF s] by blast
  then have "in_order 1 (jobs d') \<and> (\<forall>i \<in> set (run_jobs d' 1). \<forall>j \<in> set (run_jobs d' 1).
      j_status i = Running \<longrightarrow> j_status j = Running \<longrightarrow> i = j)"
    by (rule one_job_at_a_time)
      (simp_all add: demo_world_def demo_job_def jobs_inv_def keys_ok_def job_ok_def empty_db_def
        run_jobs_def slots_def)
  with s show ?thesis unfolding Let_def by blast
qed

section \<open>A mark that comes late\<close>

text \<open>
  The queue in which everything but two jobs stands still: \<open>a\<close> and \<open>b\<close> are rows of it, and the
  rest of its rows is \<open>R\<close>.
\<close>

definition two_rows :: "db \<Rightarrow> job \<Rightarrow> job \<Rightarrow> job set \<Rightarrow> bool" where
  "two_rows d a b R \<longleftrightarrow> jobs_inv d \<and> row_locks d = {} \<and> set (jobs d) = insert a (insert b R) \<and>
     j_id a \<noteq> j_id b \<and> j_id a \<notin> j_id ` R \<and> j_id b \<notin> j_id ` R"

lemma two_rows_swap: "two_rows d a b R \<Longrightarrow> two_rows d b a R"
  by (auto simp: two_rows_def)

lemma two_rows_replace:
  assumes "two_rows d a b R" "jobs_inv d'" "row_locks d' = {}" "j_id a' = j_id a"
    and "set (jobs d') = insert a' (set (jobs d) - {a})"
  shows "two_rows d' a' b R"
  using assms by (auto simp: two_rows_def)

lemma earlier_step_sets [simp]:
  "earlier_step (reclaim_set j) k = earlier_step j k" "earlier_step k (reclaim_set j) = earlier_step k j"
  "earlier_step (completed_set e now j) k = earlier_step j k"
  "earlier_step k (completed_set e now j) = earlier_step k j"
  "earlier_step (failed_set e j) k = earlier_step j k" "earlier_step k (failed_set e j) = earlier_step k j"
  by (simp_all add: earlier_step_def)

lemma two_rows_claimable:
  assumes "two_rows d a b R" "j_status a = Pending" "\<not> earlier_step b a \<or> terminal (j_status b)"
    and "\<forall>x \<in> R. j_pipeline_run_id x = j_pipeline_run_id a \<longrightarrow> earlier_step x a \<longrightarrow> terminal (j_status x)"
  shows "claimable c (jobs d) a"
  using assms by (auto simp: two_rows_def claimable_def)

lemma two_rows_claim:
  assumes "two_rows d a b R" "length workerId \<le> 100" "claimable (workerId, now) (jobs d) a"
    and "\<not> claimable (workerId, now) (jobs d) b" "\<forall>x \<in> R. j_status x \<noteq> Pending"
  shows "\<exists>d'. sql_claim_next_job workerId now d = Inr ([claim_set (workerId, now) a], d') \<and>
    two_rows d' (claim_set (workerId, now) a) b R"
proof -
  have d: "jobs_inv d" "row_locks d = {}" "a \<in> set (jobs d)"
    using assms(1) by (auto simp: two_rows_def)
  have only: "x = a" if "x \<in> set (jobs d)" "claimable (workerId, now) (jobs d) x" for x
    using assms(1,4,5) that by (auto simp: two_rows_def claimable_def)
  obtain got d' where s: "sql_claim_next_job workerId now d = Inr (got, d')"
    using claim_done[of workerId now d] assms(2) by (cases "sql_claim_next_job workerId now d") auto
  from jobs_invD(1)[OF d(1)] s show ?thesis
  proof (cases rule: claim_statement_keyed)
    case none
    with d assms(3) show ?thesis by auto
  next
    case (one j)
    have "j = a" using only[OF one(1,2)] .
    moreover have "two_rows d' (claim_set (workerId, now) j) b R"
      by (rule two_rows_replace[OF assms(1) statement_jobs_inv(1)[OF s d(1)]])
        (use one(7) \<open>j = a\<close> in \<open>simp_all add: one(6) frame_simps d(2)\<close>)
    ultimately show ?thesis using s by (auto simp: one(4))
  qed
qed

lemma two_rows_update:
  assumes "two_rows d a b R" "jobs_inv (update_jobs now P f d)" "P a" "\<not> P b" "\<forall>x \<in> R. \<not> P x"
    and "j_id (f a) = j_id a"
  shows "two_rows (update_jobs now P f d) (f a) b R"
proof (rule two_rows_replace[OF assms(1,2)])
  show "row_locks (update_jobs now P f d) = {}" using assms(1) by (simp add: frame_simps two_rows_def)
  have "a \<noteq> b" "a \<notin> R" using assms(1) by (auto simp: two_rows_def)
  then show "set (jobs (update_jobs now P f d)) = insert (f a) (set (jobs d) - {a})"
    using assms(1,3-5) by (auto simp: frame_simps set_update_where two_rows_def)
qed (rule assms(6))

lemma two_rows_marks:
  assumes "two_rows d a b R"
  shows "\<exists>d'. sql_mark_completed (Some (j_id a)) e now d = Inr ((), d') \<and> two_rows d' (completed_set e now a) b R"
    and "\<exists>d'. sql_mark_failed (Some (j_id a)) e now d = Inr ((), d') \<and> two_rows d' (failed_set e a) b R"
proof -
  have d: "jobs_inv d" "\<not> is_row (Some (j_id a)) (j_id b)" "\<forall>x \<in> R. \<not> is_row (Some (j_id a)) (j_id x)"
    using assms by (auto simp: two_rows_def is_row_def)
  have m: "sql_mark_completed (Some (j_id a)) e now d = Inr ((), update_jobs now
      (\<lambda>j. is_row (Some (j_id a)) (j_id j)) (completed_set e now) d)"
    "sql_mark_failed (Some (j_id a)) e now d = Inr ((), update_jobs now
      (\<lambda>j. is_row (Some (j_id a)) (j_id j)) (failed_set e) d)"
    by (simp_all add: sql_mark_completed_def sql_mark_failed_def)
  show "\<exists>d'. sql_mark_completed (Some (j_id a)) e now d = Inr ((), d') \<and> two_rows d' (completed_set e now a) b R"
    unfolding m using two_rows_update[OF assms completed_jobs_inv[OF m(1) d(1)] _ d(2,3)]
    by (simp add: is_row_def)
  show "\<exists>d'. sql_mark_failed (Some (j_id a)) e now d = Inr ((), d') \<and> two_rows d' (failed_set e a) b R"
    unfolding m using two_rows_update[OF assms failed_jobs_inv[OF m(2) d(1)] _ d(2,3)]
    by (simp add: is_row_def)
qed

lemma two_rows_reclaim:
  assumes "two_rows d a b R" "stuck t now a" "\<not> stuck t now b" "\<forall>x \<in> R. \<not> stuck t now x"
  shows "\<exists>d'. sql_reclaim_stuck_jobs t now d = Inr ((), d') \<and> two_rows d' (reclaim_set a) b R"
proof -
  have s: "sql_reclaim_stuck_jobs t now d = Inr ((), update_jobs now (stuck t now) reclaim_set d)"
    by (simp add: sql_reclaim_stuck_jobs_def)
  have "jobs_inv d" using assms(1) by (simp add: two_rows_def)
  with s two_rows_update[OF assms(1) reclaim_jobs_inv[OF s]] assms(2-4) show ?thesis by auto
qed

text \<open>
  Property C36.  The marks themselves do not check who holds the job.  Let job \<open>j\<close>, on its first
  attempt, run in a slow worker whose heartbeats stopped, let the next job \<open>k\<close> of its run wait,
  all earlier jobs of the run being done, and let no other job wait or be stuck.  Then the
  reclaim hands \<open>j\<close> to a second worker; the late success of the slow one opens \<open>k\<close>, which a third
  worker is handed while the second is still running \<open>j\<close>; and when the second reports a failure,
  the next claim leaves both jobs of the sequential run running at once.
\<close>

theorem late_mark_runs_two_jobs:
  assumes "jobs_inv d" "row_locks d = {}" "j \<in> set (jobs d)" "k \<in> set (jobs d)"
    and "j_pipeline_run_id k = j_pipeline_run_id j" "earlier_step j k" "stuck t now j"
    and "j_retry_count j = 0" "j_status k = Pending"
    and "\<forall>x \<in> set (jobs d) - {j, k}. j_status x \<noteq> Pending \<and> \<not> stuck t now x \<and>
      (j_pipeline_run_id x = j_pipeline_run_id j \<longrightarrow> earlier_step x k \<longrightarrow> terminal (j_status x))"
    and "length v \<le> 100" "length w \<le> 100"
  shows "\<exists>d1 d2 d3 d4 d5 d6 j'.
    sql_reclaim_stuck_jobs t now d = Inr ((), d1) \<and>
    sql_claim_next_job v t_b d1 = Inr ([claim_set (v, t_b) (reclaim_set j)], d2) \<and>
    sql_mark_completed (Some (j_id j)) 0 t_c d2 = Inr ((), d3) \<and>
    sql_claim_next_job w t_d d3 = Inr ([claim_set (w, t_d) k], d4) \<and>
    sql_mark_failed (Some (j_id j)) e t_e d4 = Inr ((), d5) \<and>
    sql_claim_next_job v t_f d5 = Inr ([j'], d6) \<and> j_id j' = j_id j \<and>
    {j', claim_set (w, t_d) k} \<subseteq> set (jobs d6) \<and> j_status j' = Running"
proof -
  let ?R = "set (jobs d) - {j, k}"
  let ?j1 = "reclaim_set j"
  let ?j2 = "claim_set (v, t_b) ?j1"
  let ?j3 = "completed_set 0 t_c ?j2"
  let ?k4 = "claim_set (w, t_d) k"
  let ?j5 = "failed_set e ?j3"
  note ids = jobs_invD(1)[OF assms(1)]
  have "j \<noteq> k" using assms(7,9) by (auto simp: stuck_def)
  then have two: "two_rows d j k ?R"
    using assms(1-4) job_rows.key_unique[OF ids] by (auto simp: two_rows_def)
  have R: "\<forall>x \<in> ?R. j_status x \<noteq> Pending" "\<forall>x \<in> ?R. \<not> stuck t now x"
    using assms(10) by blast+
  have before: "\<forall>x \<in> ?R. j_pipeline_run_id x = j_pipeline_run_id j \<longrightarrow> earlier_step x k \<longrightarrow> terminal (j_status x)"
    using assms(10) by blast
  have "earlier_step x k" if "earlier_step x j" for x
    using that assms(6) by (auto simp: earlier_step_def)
  with before have before_j:
    "\<forall>x \<in> ?R. j_pipeline_run_id x = j_pipeline_run_id j \<longrightarrow> earlier_step x j \<longrightarrow> terminal (j_status x)" by blast
  have "\<not> earlier_step k j" using assms(6) by (auto simp: earlier_step_def)
  have max: "j_max_retries j = 3" using jobs_invD(3)[OF assms(1,3)] by (simp add: job_ok_def)
  have "\<not> stuck t now k" using assms(9) by (simp add: stuck_def)
  from two_rows_reclaim[OF two assms(7) this R(2)]
  obtain d1 where d1: "sql_reclaim_stuck_jobs t now d = Inr ((), d1)" "two_rows d1 ?j1 k ?R" by blast
  have "claimable (v, t_b) (jobs d1) ?j1"
    by (rule two_rows_claimable[OF d1(2)]) (use before_j \<open>\<not> earlier_step k j\<close> in simp_all)
  moreover have "\<not> claimable (v, t_b) (jobs d1) k"
    using d1(2) assms(5,6) by (auto simp: two_rows_def claimable_def)
  ultimately obtain d2 where d2: "sql_claim_next_job v t_b d1 = Inr ([?j2], d2)" "two_rows d2 ?j2 k ?R"
    using two_rows_claim[OF d1(2) assms(11) _ _ R(1)] by blast
  obtain d3 where d3: "sql_mark_completed (Some (j_id j)) 0 t_c d2 = Inr ((), d3)" "two_rows d3 k ?j3 ?R"
    using two_rows_marks(1)[OF d2(2), of 0 t_c] two_rows_swap by auto
  have "claimable (w, t_d) (jobs d3) k"
    by (rule two_rows_claimable[OF d3(2) assms(9)]) (use before assms(5) in simp_all)
  moreover have "\<not> claimable (w, t_d) (jobs d3) ?j3" by (simp add: claimable_def)
  ultimately obtain d4 where d4: "sql_claim_next_job w t_d d3 = Inr ([?k4], d4)" "two_rows d4 ?j3 ?k4 ?R"
    using two_rows_claim[OF d3(2) assms(12) _ _ R(1)] two_rows_swap by blast
  obtain d5 where d5: "sql_mark_failed (Some (j_id j)) e t_e d4 = Inr ((), d5)" "two_rows d5 ?j5 ?k4 ?R"
    using two_rows_marks(2)[OF d4(2), of e t_e] by auto
  have "j_status ?j5 = Pending"
    using assms(8) max by (simp add: failed_set_def completed_set_def claim_set.simps reclaim_set_def)
  then have "claimable (v, t_f) (jobs d5) ?j5"
    by (rule two_rows_claimable[OF d5(2)]) (use before_j \<open>\<not> earlier_step k j\<close> in simp_all)
  moreover have "\<not> claimable (v, t_f) (jobs d5) ?k4" by (simp add: claimable_def)
  ultimately obtain d6 where d6: "sql_claim_next_job v t_f d5 = Inr ([claim_set (v, t_f) ?j5], d6)"
    "two_rows d6 (claim_set (v, t_f) ?j5) ?k4 ?R"
    using two_rows_claim[OF d5(2) assms(11) _ _ R(1)] by blast
  have "{claim_set (v, t_f) ?j5, ?k4} \<subseteq> set (jobs d6)" using d6(2) by (simp add: two_rows_def)
  then show ?thesis
    using d1(1) d2(1) d3(1) d4(1) d5(1) d6(1)
    by (intro exI[of _ d1] exI[of _ d2] exI[of _ d3] exI[of _ d4] exI[of _ d5] exI[of _ d6]
        exI[of _ "claim_set (v, t_f) ?j5"]) simp
qed

theorem late_mark_runs_two_jobs_witness:
  "let d = the_db (demo_world [demo_job 2 0 Running, demo_job 3 1 Pending]);
       j = demo_job 2 0 Running; k = demo_job 3 1 Pending
   in \<exists>d1 d2 d3 d4 d5 d6 j'.
     sql_reclaim_stuck_jobs 30 (seconds 31) d = Inr ((), d1) \<and>
     sql_claim_next_job [] 40 d1 = Inr ([claim_set ([], 40) (reclaim_set j)], d2) \<and>
     sql_mark_completed (Some (j_id j)) 0 41 d2 = Inr ((), d3) \<and>
     sql_claim_next_job [] 42 d3 = Inr ([claim_set ([], 42) k], d4) \<and>
     sql_mark_failed (Some (j_id j)) 1 43 d4 = Inr ((), d5) \<and>
     sql_claim_next_job [] 44 d5 = Inr ([j'], d6) \<and> j_id j' = j_id j \<and>
     {j', claim_set ([], 42) k} \<subseteq> set (jobs d6) \<and> j_status j' = Running"
  unfolding Let_def
  by (rule late_mark_runs_two_jobs)
    (simp_all add: demo_world_def demo_job_def empty_db_def jobs_inv_def keys_ok_def job_ok_def
      earlier_step_def stuck_def seconds_def)

end
