(* ===== verification/ExecFacts.thy ===== *)
theory ExecFacts
  imports Worker JobOrder
begin

text \<open>
  What executing a job does: the exit code it comes to, the logs it writes, what it leaves
  alone, and that a deploy holds the lock of its environment while it runs and only then.
\<close>

section \<open>The exit code\<close>

text \<open>The first event that settles the promise.\<close>

fun exit_of :: "child_event list \<Rightarrow> int option" where
  "exit_of [] = None"
| "exit_of (Close None # es) = Some 1"
| "exit_of (Close (Some c) # es) = Some c"
| "exit_of (Child_Error m # es) = Some 1"
| "exit_of (e # es) = exit_of es"

lemma query_not_hangs: "query st w \<noteq> (Hangs, w')"
  by (simp add: query_def split: prod.split sum.split)

lemma seq_done: "m w = (Done x, w1) \<Longrightarrow> seq m k w = k x w1"
  by (simp add: seq_def)

lemma ignored_query_done: "\<exists>w'. ignore_error (seq (query st) (\<lambda>x. ret ())) w = (Done (), w')"
proof (cases "query st w")
  case (Pair x w1)
  then show ?thesis
    using query_not_hangs[of st w]
    by (cases x) (auto simp: ignore_error_def try_catch_def seq_def ret_def)
qed

lemma log_line_done: "\<exists>w'. log_line rt i line lvl w = (Done (), w')"
  using ignored_query_done[of "sql_insert_job_log (rt_format rt) i line lvl" w]
  by (simp add: log_line_def appendLog_def seq_assoc)

lemma log_lines_done: "\<exists>w'. log_lines rt i lvl ls w = (Done (), w')"
proof (induction ls arbitrary: w)
  case Nil
  then show ?case by (simp add: ret_def)
next
  case (Cons l ls)
  obtain w1 where "log_line rt i l lvl w = (Done (), w1)" using log_line_done by blast
  with Cons show ?case by (simp add: seq_done)
qed

lemma ignored_tick_done: "\<exists>w'. ignore_error (tick i) w = (Done (), w')"
  using ignored_query_done[of "sql_update_heartbeat i" w]
  by (simp add: tick_def updateHeartbeat_def ret_def[abs_def] seq_def ignore_error_def try_catch_def
      split: prod.splits outcome.splits)

lemma seq_log_lines_fst:
  assumes "\<And>w. fst (k () w) = x"
  shows "fst (seq (log_lines rt i lvl ls) k w) = x"
  using log_lines_done[of rt i lvl ls w] assms by (auto simp: seq_def)

lemma run_child_outcome:
  "fst (run_child rt i es out err settled w) =
     (case settled of Some c \<Rightarrow> Done c
      | None \<Rightarrow> (case exit_of es of Some c \<Rightarrow> Done c | None \<Rightarrow> Hangs))"
proof (induction rt i es out err settled arbitrary: w rule: run_child.induct)
  case (1 rt i out err settled)
  then show ?case by (cases settled) (simp_all add: ret_def hang_def)
next
  case (2 rt i chunk es out err settled)
  obtain ls out' where "lb_write out chunk = (ls, out')" by fastforce
  with 2 show ?case by (cases settled) (simp_all add: seq_log_lines_fst)
next
  case (3 rt i chunk es out err settled)
  obtain ls err' where "lb_write err chunk = (ls, err')" by fastforce
  with 3 show ?case by (cases settled) (simp_all add: seq_log_lines_fst)
next
  case (4 rt i es out err settled)
  obtain w1 where "ignore_error (tick (Some i)) w = (Done (), w1)" using ignored_tick_done by blast
  with 4 show ?case by (cases settled) (simp_all add: seq_done)
next
  case (5 rt i code es out err settled)
  obtain ls out' where o: "lb_flush out = (ls, out')" by fastforce
  obtain ls' err' where e: "lb_flush err = (ls', err')" by fastforce
  from 5[OF refl o[symmetric] e[symmetric]] show ?case
    by (cases settled; cases code) (simp_all add: o e seq_log_lines_fst)
next
  case (6 rt i m es out err settled)
  obtain ls out' where o: "lb_flush out = (ls, out')" by fastforce
  obtain ls' err' where e: "lb_flush err = (ls', err')" by fastforce
  have l: "fst (seq (log_line rt i line lvl) k w) = x" if "\<And>w. fst (k () w) = x" for line lvl k w and x :: "int outcome"
    using log_line_done[of rt i line lvl w] that by (auto simp: seq_def)
  from 6[OF refl o[symmetric] e[symmetric]] show ?case
    by (cases settled) (simp_all add: o e seq_log_lines_fst l)
qed

section \<open>What a command leaves alone\<close>

text \<open>The worlds that differ from \<open>w0\<close> in the logs only.\<close>

definition logs_only :: "world \<Rightarrow> world \<Rightarrow> bool" where
  "logs_only w0 w \<longleftrightarrow> (\<exists>ls n ns. w = w0\<lparr>the_db :=
     (the_db w0)\<lparr>job_logs := ls, next_log_id := n, notifications := ns\<rparr>\<rparr>)"

lemma logs_only_refl [simp]: "logs_only w w"
proof -
  have "w = w\<lparr>the_db := (the_db w)\<lparr>job_logs := job_logs (the_db w),
      next_log_id := next_log_id (the_db w), notifications := notifications (the_db w)\<rparr>\<rparr>"
    by simp
  then show ?thesis unfolding logs_only_def by blast
qed

lemma logs_onlyD:
  assumes "logs_only w0 w"
  shows "script w = script w0" "clock w = clock w0" "aborted w = aborted w0" "clients w = clients w0"
    "jobs (the_db w) = jobs (the_db w0)" "pipeline_runs (the_db w) = pipeline_runs (the_db w0)"
    "advisory (the_db w) = advisory (the_db w0)" "row_locks (the_db w) = row_locks (the_db w0)"
    "deployment_locks (the_db w) = deployment_locks (the_db w0)"
    "webhooks_outbox (the_db w) = webhooks_outbox (the_db w0)"
    "run_trigger (the_db w) = run_trigger (the_db w0)" "log_trigger (the_db w) = log_trigger (the_db w0)"
    "next_uuid (the_db w) = next_uuid (the_db w0)"
  using assms by (auto simp: logs_only_def)

lemma logs_only_insert:
  assumes "logs_only w0 w" "sql_insert_job_log fmt i line lvl now (the_db w) = Inr (n, d)"
  shows "logs_only w0 (w\<lparr>the_db := d\<rparr>)"
proof -
  obtain ls k ns where w: "w = w0\<lparr>the_db :=
     (the_db w0)\<lparr>job_logs := ls, next_log_id := k, notifications := ns\<rparr>\<rparr>"
    using assms(1) by (auto simp: logs_only_def)
  have "d = (the_db w)\<lparr>job_logs := job_logs d, next_log_id := next_log_id d,
      notifications := notifications d\<rparr>"
    using assms(2) by (auto simp: sql_insert_job_log_def pg_notify_def Let_def split: if_splits)
  then obtain ls' k' ns' where
    "d = (the_db w0)\<lparr>job_logs := ls', next_log_id := k', notifications := ns'\<rparr>"
    by (simp add: w)
  then have "w\<lparr>the_db := d\<rparr> = w0\<lparr>the_db :=
      (the_db w0)\<lparr>job_logs := ls', next_log_id := k', notifications := ns'\<rparr>\<rparr>"
    by (simp add: w)
  then show ?thesis unfolding logs_only_def by blast
qed

lemma stays_log:
  assumes "script w0 = []"
  shows "stays (logs_only w0) (query (sql_insert_job_log fmt i line lvl))"
  by (rule stays_query) (use assms logs_only_insert logs_onlyD(1) in \<open>metis+\<close>)

lemma stays_append:
  assumes "script w0 = []"
  shows "stays (logs_only w0) (appendLog fmt i line lvl)"
  unfolding appendLog_def by (intro stays_intros stays_log assms)

lemma stays_log_lines:
  assumes "script w0 = []"
  shows "stays (logs_only w0) (log_line rt i line lvl)" "stays (logs_only w0) (log_lines rt i lvl ls)"
proof -
  show *: "stays (logs_only w0) (log_line rt i line lvl)" for line
    unfolding log_line_def by (intro stays_intros stays_append assms)
  show "stays (logs_only w0) (log_lines rt i lvl ls)"
    by (induction ls) (auto intro!: stays_intros *)
qed

text \<open>With the clock standing still, a tick right after the claim writes what is there.\<close>

definition beats_now :: "uuid \<Rightarrow> world \<Rightarrow> bool" where
  "beats_now i w \<longleftrightarrow> (\<forall>j \<in> set (jobs (the_db w)). j_id j = i \<longrightarrow> j_heartbeat_at j = Some (clock w))"

lemma heartbeat_set_same: "j_heartbeat_at j = Some now \<Longrightarrow> heartbeat_set now j = j"
  by (simp add: heartbeat_set_def)

lemma stays_tick:
  assumes "script w0 = []" "beats_now i w0"
  shows "stays (logs_only w0) (ignore_error (tick (Some i)))"
  unfolding tick_def updateHeartbeat_def
proof (intro stays_intros stays_query)
  fix w assume "logs_only w0 w"
  then show "script w = []" using assms(1) logs_onlyD(1) by metis
next
  fix w x d assume w: "logs_only w0 w" and s: "sql_update_heartbeat (Some i) (clock w) (the_db w) = Inr (x, d)"
  have "update_where (\<lambda>j. is_row (Some i) (j_id j)) (heartbeat_set (clock w)) (jobs (the_db w)) =
      update_where (\<lambda>j. is_row (Some i) (j_id j)) id (jobs (the_db w))"
    by (rule update_where_cong_rows)
      (use assms(2) logs_onlyD[OF w] in \<open>auto simp: beats_now_def is_row_def heartbeat_set_same\<close>)
  also have "\<dots> = jobs (the_db w)" unfolding update_where_def by (rule map_idI) simp
  finally have "d = the_db w" using s by (simp add: sql_update_heartbeat_def)
  with w show "logs_only w0 (w\<lparr>the_db := d\<rparr>)" by simp
qed

lemma stays_run_child:
  assumes "script w0 = []" "beats_now i w0"
  shows "stays (logs_only w0) (run_child rt i es out err settled)"
  using assms(2)
proof (induction rt i es out err settled rule: run_child.induct)
  case (4 rt i es out err settled)
  then show ?case
    by (auto intro!: stays_seq[OF stays_tick[OF assms(1)]])
next
  case (5 rt i code es out err settled)
  then show ?case
    by (auto intro!: stays_intros stays_log_lines assms(1) split: prod.split)
next
  case (6 rt i m es out err settled)
  then show ?case
    by (auto intro!: stays_intros stays_log_lines assms(1) split: prod.split)
qed (auto intro!: stays_intros stays_log_lines stays_tick assms(1) split: prod.split option.split)

lemma stays_run_command:
  assumes "script w0 = []" "beats_now i w0"
  shows "stays (logs_only w0) (run_command rt i command workerId)"
proof -
  have "stays (logs_only w0) (spawn_child rt i command)"
    using stays_run_child[OF assms] by (simp add: stays_def spawn_child_def)
  then show ?thesis
    unfolding run_command_def by (intro stays_intros stays_append assms)
qed


section \<open>The deploy lock\<close>

fun lock_op_step :: "(session, int) lock_op \<Rightarrow> (session \<times> int) list \<Rightarrow> (session \<times> int) list" where
  "lock_op_step (Try s k) held = snd (pg_try_advisory_lock s k held)"
| "lock_op_step (Unlock s k) held = pg_advisory_unlock s k held"
| "lock_op_step (Disconnect s) held = close_session s held"

lemma lock_op_step_al: "lock_op_step = al.lock_step"
proof (rule ext, rule ext)
  fix op held show "lock_op_step op held = al.lock_step op held" by (cases op) simp_all
qed

lemma tryAcquire_granted:
  assumes "script w = []" "tryAcquire hashtext s env run w = (Done r, w1)" "acquired r"
  shows "pg_try_advisory_lock s (hashtext (LOCK_PREFIX @ env)) (advisory (the_db w)) =
      (True, advisory (the_db w1))"
    and "r = \<lparr>acquired = True, release = Release s env\<rparr>" and "script w1 = []"
    and "clients w1 = insert s (clients w)" and "clock w1 = clock w" and "aborted w1 = aborted w"
    and "advisory (the_db w1) = (s, hashtext (LOCK_PREFIX @ env)) # advisory (the_db w)"
    and "delete_where (\<lambda>l. dl_environment l = env) (deployment_locks (the_db w1)) =
      delete_where (\<lambda>l. dl_environment l = env) (deployment_locks (the_db w))"
    and "\<exists>ls. the_db w1 = (the_db w)\<lparr>advisory := (s, hashtext (LOCK_PREFIX @ env)) # advisory (the_db w),
      deployment_locks := ls\<rparr>"
proof -
  let ?k = "hashtext (LOCK_PREFIX @ env)"
  have got: "fst (pg_try_advisory_lock s ?k (advisory (the_db w)))"
    using assms(2,3) by (auto simp: tryAcquire_quiet[OF assms(1)] Let_def split: if_splits)
  then have lock: "pg_try_advisory_lock s ?k (advisory (the_db w)) = (True, (s, ?k) # advisory (the_db w))"
    by (simp add: pg_try_advisory_lock_def split: if_splits)
  have del: "delete_where P (update_where P f ls) = delete_where P ls" if "\<And>l. P (f l)" for P f and ls :: "'a list"
    using that by (induction ls) (auto simp: delete_where_def)
  let ?w1 = "w\<lparr>clients := insert s (clients w), the_db := (the_db w)\<lparr>advisory := (s, ?k) # advisory (the_db w)\<rparr>\<rparr>"
  have cases: "(run = None \<and> w1 = ?w1) \<or> (\<exists>i d u. run = Some i \<and>
      sql_insert_deployment_lock env i (clock w) (the_db ?w1) = Inr (u, d) \<and> w1 = ?w1\<lparr>the_db := d\<rparr>)"
    and r: "r = \<lparr>acquired = True, release = Release s env\<rparr>"
    using assms(2) got
    by (auto simp: tryAcquire_quiet[OF assms(1)] Let_def split: option.splits sum.splits)
  show "r = \<lparr>acquired = True, release = Release s env\<rparr>" by (rule r)
  from cases show "script w1 = []" "clients w1 = insert s (clients w)" "clock w1 = clock w"
    "aborted w1 = aborted w"
    using assms(1) by auto
  from cases have adv: "advisory (the_db w1) = (s, ?k) # advisory (the_db w)"
    by (auto simp: sql_insert_deployment_lock_def Let_def split: if_splits)
  then show "advisory (the_db w1) = (s, ?k) # advisory (the_db w)"
    "pg_try_advisory_lock s ?k (advisory (the_db w)) = (True, advisory (the_db w1))"
    by (simp_all add: lock)
  from cases show "delete_where (\<lambda>l. dl_environment l = env) (deployment_locks (the_db w1)) =
      delete_where (\<lambda>l. dl_environment l = env) (deployment_locks (the_db w))"
    by (auto simp: sql_insert_deployment_lock_def Let_def del split: if_splits)
      (simp_all add: delete_where_def)
  show "\<exists>ls. the_db w1 = (the_db w)\<lparr>advisory := (s, ?k) # advisory (the_db w), deployment_locks := ls\<rparr>"
  proof -
    have "the_db w1 = (the_db w)\<lparr>advisory := (s, ?k) # advisory (the_db w),
        deployment_locks := deployment_locks (the_db w1)\<rparr>"
      using cases by (auto simp: sql_insert_deployment_lock_def Let_def split: if_splits)
    then show ?thesis by blast
  qed
qed

text \<open>
  Once a session acquired the lock of an environment, every acquisition by
  another session is refused, whatever run it is for and whatever all sessions do to the
  locks in between, until the holder unlocks or its connection ends; a refusal leaves the
  database and the lock rows as they are and gives the client back.
\<close>

theorem deploy_lock_excludes:
  assumes "script w = []" "tryAcquire hashtext s env run w = (Done r, w1)" "acquired r"
    and "advisory (the_db w2) = fold lock_op_step ops (advisory (the_db w1))" "script w2 = []"
    and "Unlock s (hashtext (LOCK_PREFIX @ env)) \<notin> set ops" "Disconnect s \<notin> set ops" "t \<noteq> s"
  shows "tryAcquire hashtext t env run' w2 =
    (Done \<lparr>acquired = False, release = No_Release\<rparr>, w2\<lparr>clients := clients w2 - {t}\<rparr>)"
proof -
  have "\<not> fst (pg_try_advisory_lock t (hashtext (LOCK_PREFIX @ env)) (advisory (the_db w2)))"
    unfolding assms(4) lock_op_step_al
    by (rule al.granted_excludes[OF tryAcquire_granted(1)[OF assms(1-3)] assms(6-8)])
  then show ?thesis by (simp add: tryAcquire_quiet[OF assms(5)] Let_def)
qed

theorem deploy_lock_excludes_witness:
  "\<exists>w1. tryAcquire (\<lambda>_. 7) 1 (lit ''staging'') (Some 1) (demo_world []) =
       (Done \<lparr>acquired = True, release = Release 1 (lit ''staging'')\<rparr>, w1) \<and>
     tryAcquire (\<lambda>_. 7) 2 (lit ''staging'') (Some 1)
         (w1\<lparr>the_db := (the_db w1)\<lparr>advisory := lock_op_step (Try 3 8) (advisory (the_db w1))\<rparr>\<rparr>) =
       (Done \<lparr>acquired = False, release = No_Release\<rparr>,
        (w1\<lparr>the_db := (the_db w1)\<lparr>advisory := lock_op_step (Try 3 8) (advisory (the_db w1))\<rparr>,
            clients := clients w1 - {2}\<rparr>))"
proof -
  let ?r = "\<lparr>acquired = True, release = Release 1 (lit ''staging'')\<rparr>"
  have q: "script (demo_world []) = []" by (simp add: demo_world_def)
  have "\<exists>w1. tryAcquire (\<lambda>_. 7) 1 (lit ''staging'') (Some 1) (demo_world []) = (Done ?r, w1)"
    unfolding tryAcquire_quiet[OF q] Let_def
    by (simp add: pg_try_advisory_lock_def demo_world_def empty_db_def sql_insert_deployment_lock_def)
  then obtain w1 where a: "tryAcquire (\<lambda>_. 7) 1 (lit ''staging'') (Some 1) (demo_world []) = (Done ?r, w1)"
    by blast
  have s: "script w1 = []" by (rule tryAcquire_granted(3)[OF q a]) simp
  let ?w2 = "w1\<lparr>the_db := (the_db w1)\<lparr>advisory := lock_op_step (Try 3 8) (advisory (the_db w1))\<rparr>\<rparr>"
  have "tryAcquire (\<lambda>_. 7) 2 (lit ''staging'') (Some 1) ?w2 =
      (Done \<lparr>acquired = False, release = No_Release\<rparr>, ?w2\<lparr>clients := clients ?w2 - {2}\<rparr>)"
    by (rule deploy_lock_excludes[OF q a, where ops = "[Try 3 8]"]) (simp_all add: s)
  with a show ?thesis by auto
qed

lemma run_release_quiet:
  assumes "script w = []"
  shows "run_release hashtext (Release s env) w = (Done (), w\<lparr>clients := clients w - {s},
    the_db := (the_db w)\<lparr>
      deployment_locks := delete_where (\<lambda>l. dl_environment l = env) (deployment_locks (the_db w)),
      advisory := pg_advisory_unlock s (hashtext (LOCK_PREFIX @ env)) (advisory (the_db w))\<rparr>\<rparr>)"
  using assms
  by (simp add: try_finally_def seq_def client_query_quiet query_quiet sql_delete_deployment_lock_def
      sql_unlock_def client_release_def ret_def)

text \<open>
  Acquiring the lock of an environment and releasing it gives back the
  advisory lock, the row of deployment_locks and the pooled client: the world is the one
  before, up to a stale row for the environment, which is gone.
\<close>

theorem acquire_release_roundtrip:
  assumes "script w = []" "tryAcquire hashtext s env run w = (Done r, w1)" "acquired r" "s \<notin> clients w"
  shows "run_release hashtext (release r) w1 = (Done (), w\<lparr>the_db := (the_db w)\<lparr>
    deployment_locks := delete_where (\<lambda>l. dl_environment l = env) (deployment_locks (the_db w))\<rparr>\<rparr>)"
proof -
  note g = tryAcquire_granted[OF assms(1-3)]
  obtain ls where d: "the_db w1 = (the_db w)\<lparr>advisory := (s, hashtext (LOCK_PREFIX @ env)) # advisory (the_db w),
      deployment_locks := ls\<rparr>" using g(9) by blast
  have "w1 = w\<lparr>clients := insert s (clients w), the_db := the_db w1\<rparr>"
    using g(3-6) assms(1) by (cases w1; cases w) simp
  moreover have "insert s (clients w) - {s} = clients w" using assms(4) by blast
  ultimately show ?thesis
    using g(8) by (subst g(2), simp only: acquire_result.simps run_release_quiet[OF g(3)])
      (simp add: d pg_advisory_unlock_def)
qed


theorem acquire_release_roundtrip_witness:
  "\<exists>w1. tryAcquire (\<lambda>_. 7) 1 (lit ''staging'') (Some 1) (demo_world []) =
       (Done \<lparr>acquired = True, release = Release 1 (lit ''staging'')\<rparr>, w1) \<and>
     run_release (\<lambda>_. 7) (Release 1 (lit ''staging'')) w1 = (Done (), demo_world [])"
proof -
  let ?r = "\<lparr>acquired = True, release = Release 1 (lit ''staging'')\<rparr>"
  have q: "script (demo_world []) = []" by (simp add: demo_world_def)
  have "\<exists>w1. tryAcquire (\<lambda>_. 7) 1 (lit ''staging'') (Some 1) (demo_world []) = (Done ?r, w1)"
    unfolding tryAcquire_quiet[OF q] Let_def
    by (simp add: pg_try_advisory_lock_def demo_world_def empty_db_def sql_insert_deployment_lock_def)
  then obtain w1 where a: "tryAcquire (\<lambda>_. 7) 1 (lit ''staging'') (Some 1) (demo_world []) = (Done ?r, w1)"
    by blast
  have "demo_world [] = (demo_world [])\<lparr>the_db := (the_db (demo_world []))\<lparr>deployment_locks :=
      delete_where (\<lambda>l. dl_environment l = lit ''staging'') (deployment_locks (the_db (demo_world [])))\<rparr>\<rparr>"
    by (simp add: demo_world_def empty_db_def)
  with acquire_release_roundtrip[OF q a] a show ?thesis by (simp add: demo_world_def)
qed

text \<open>
  When the row of deployment_locks cannot be written (the run was deleted
  meanwhile), the acquisition fails, but the advisory lock stays with the connection, which
  goes back to the pool: nobody holds the deploy, and every other connection is refused
  until that connection ends.
\<close>

theorem failed_insert_leaks_lock:
  assumes "script w = []" "fst (pg_try_advisory_lock s (hashtext (LOCK_PREFIX @ env)) (advisory (the_db w)))"
    and "i \<notin> r_id ` set (pipeline_runs (the_db w))" "length env \<le> 100" "t \<noteq> s"
  shows "\<exists>w'. tryAcquire hashtext s env (Some i) w = (Threw (Query_Failed Foreign_Key_Violation), w') \<and>
    s \<notin> clients w' \<and> holds_lock (advisory (the_db w')) s (hashtext (LOCK_PREFIX @ env)) \<and>
    tryAcquire hashtext t env run w' =
      (Done \<lparr>acquired = False, release = No_Release\<rparr>, w'\<lparr>clients := clients w' - {t}\<rparr>)"
proof -
  let ?k = "hashtext (LOCK_PREFIX @ env)"
  let ?w' = "w\<lparr>clients := clients w - {s}, the_db := (the_db w)\<lparr>advisory := (s, ?k) # advisory (the_db w)\<rparr>\<rparr>"
  have "tryAcquire hashtext s env (Some i) w = (Threw (Query_Failed Foreign_Key_Violation), ?w')"
    using assms(2-4)
    by (auto simp: tryAcquire_quiet[OF assms(1)] Let_def sql_insert_deployment_lock_def)
  moreover have h: "holds_lock (advisory (the_db ?w')) s ?k" by (simp add: holds_lock_def)
  moreover have "tryAcquire hashtext t env run ?w' =
      (Done \<lparr>acquired = False, release = No_Release\<rparr>, ?w'\<lparr>clients := clients ?w' - {t}\<rparr>)"
    using al.held_refused[OF h assms(5)] assms(1)
    by (subst tryAcquire_quiet) (simp_all add: Let_def)
  ultimately show ?thesis by (intro exI[of _ ?w']) simp
qed

theorem failed_insert_leaks_lock_witness:
  "\<exists>w'. tryAcquire (\<lambda>_. 7) 1 (lit ''staging'') (Some 99) (demo_world []) =
       (Threw (Query_Failed Foreign_Key_Violation), w') \<and>
     1 \<notin> clients w' \<and> holds_lock (advisory (the_db w')) 1 7 \<and>
     tryAcquire (\<lambda>_. 7) 2 (lit ''staging'') (Some 1) w' =
       (Done \<lparr>acquired = False, release = No_Release\<rparr>, w'\<lparr>clients := clients w' - {2}\<rparr>)"
  by (rule failed_insert_leaks_lock)
    (simp_all add: demo_world_def empty_db_def pg_try_advisory_lock_def)

section \<open>Executing\<close>

lemma append_not_hangs: "appendLog fmt i line lvl w \<noteq> (Hangs, w')"
  using query_not_hangs
  by (fastforce simp: appendLog_def seq_def ret_def split: option.splits prod.splits outcome.splits)

lemma run_command_ends:
  assumes "exit_of (rt_child rt (clock w) command) = Some code" "script w = []"
    and "run_command rt i command workerId w = (x, w')"
  shows "x = Done code \<or> (\<exists>e. x = Threw e)"
proof -
  let ?a = "appendLog (rt_format rt) (Some i)
      (lit ''worker='' @ workerId @ lit '' exec: '' @ command) (lit ''info'')"
  obtain y w1 where a: "?a w = (y, w1)" by fastforce
  have "clock w1 = clock w"
    using staysD[OF stays_append[OF assms(2)] logs_only_refl a] by (rule logs_onlyD)
  then have "fst (spawn_child rt i command w1) = Done code"
    using assms(1) by (simp add: spawn_child_def run_child_outcome)
  with a append_not_hangs assms(3) show ?thesis
    by (cases y) (auto simp: run_command_def seq_def split: prod.splits)
qed

text \<open>The same with a line logged before, as after acquiring the lock.\<close>

lemma logged_command_ends:
  assumes "script w = []" "exit_of (rt_child rt (clock w) command) = Some code"
    and "seq (appendLog fmt (Some i) line lvl) (\<lambda>_. run_command rt i command workerId) w = (x, w')"
  shows "x = Done code \<or> (\<exists>e. x = Threw e)"
proof -
  obtain y w1 where a: "appendLog fmt (Some i) line lvl w = (y, w1)" by fastforce
  have l: "logs_only w w1"
    using staysD[OF stays_append[OF assms(1)] logs_only_refl a] .
  have 1: "exit_of (rt_child rt (clock w1) command) = Some code" "script w1 = []"
    using logs_onlyD[OF l] assms(1,2) by simp_all
  from a append_not_hangs assms(3) run_command_ends[OF 1] show ?thesis
    by (cases y) (auto simp: seq_def)
qed

text \<open>
  A deploy that finds its environment locked runs nothing: it writes one line
  to the log and comes to exit code 75; locks, clients and all other tables are as before.
\<close>

theorem busy_deploy_skips:
  assumes "script w = []" "jo_id job = Some i" "jo_stage job = lit ''deploy''"
    and "env = guessDeployEnvironment (jo_command job)"
    and "\<not> fst (pg_try_advisory_lock (rt_session rt) (rt_hashtext rt (LOCK_PREFIX @ env)) (advisory (the_db w)))"
    and "rt_session rt \<notin> clients w" "execute rt job workerId w = (x, w')"
  shows "(x = Done 75 \<or> (\<exists>e. x = Threw e)) \<and> logs_only w w' \<and>
    length (job_logs (the_db w')) \<le> length (job_logs (the_db w)) + 1"
proof -
  have "clients w - {rt_session rt} = clients w" using assms(6) by blast
  then have t: "tryAcquire (rt_hashtext rt) (rt_session rt) env (jo_pipeline_run_id job) w =
      (Done \<lparr>acquired = False, release = No_Release\<rparr>, w)"
    using assms(5) by (simp add: tryAcquire_quiet[OF assms(1)] Let_def)
  let ?line = "lit ''Deploy lock busy for '' @ env @ lit ''; skipping''"
  let ?a = "appendLog (rt_format rt) (Some i) ?line (lit ''warn'')"
  obtain y w1 where a: "?a w = (y, w1)" by fastforce
  have e: "execute rt job workerId w = (case y of Done _ \<Rightarrow> (Done 75, w1) | Threw e \<Rightarrow> (Threw e, w1)
      | Hangs \<Rightarrow> (Hangs, w1))"
    by (simp add: execute_def assms(2,3) assms(4)[symmetric] Let_def seq_def t a ret_def
        EX_TEMPFAIL_def split: outcome.split)
  have "y \<noteq> Hangs" using a append_not_hangs by metis
  moreover have "logs_only w w1" using staysD[OF stays_append[OF assms(1)] logs_only_refl a] .
  moreover have "length (job_logs (the_db w1)) \<le> length (job_logs (the_db w)) + 1"
    using a by (auto simp: appendLog_def seq_def query_quiet[OF assms(1)] ret_def
        sql_insert_job_log_def pg_notify_def Let_def split: prod.splits outcome.splits sum.splits if_splits)
  ultimately show ?thesis using e assms(7) by (cases y) auto
qed


definition demo_runtime :: "child_event list \<Rightarrow> runtime" where
  "demo_runtime es = \<lparr>rt_hashtext = \<lambda>_. 7, rt_session = 1,
     rt_format = \<lparr>uuid_text = \<lambda>_. replicate 36 97, time_text = \<lambda>_. replicate 32 48\<rparr>,
     rt_child = \<lambda>_ _. es\<rparr>"

definition demo_deploy :: job_object where
  "demo_deploy = \<lparr>jo_id = Some 2, jo_pipeline_run_id = Some 1,
     jo_command = lit ''./deploy.sh staging'', jo_stage = lit ''deploy''\<rparr>"

lemma demo_deploy_env: "guessDeployEnvironment (jo_command demo_deploy) = lit ''staging''"
proof -
  have "lit ''./deploy.sh staging'' = lit ''./deploy.sh'' @ 32 # lit ''staging''"
    by (simp add: lit_def)
  then show ?thesis
    using guess_word[of "lit ''staging''" 32 "lit ''./deploy.sh''"]
    by (simp add: demo_deploy_def environments_def is_space_def)
qed


theorem busy_deploy_skips_witness:
  "let w = (demo_world [])\<lparr>the_db := (the_db (demo_world []))\<lparr>advisory := [(5, 7)]\<rparr>\<rparr>;
       x = fst (execute (demo_runtime []) demo_deploy (lit ''w'') w);
       w' = snd (execute (demo_runtime []) demo_deploy (lit ''w'') w)
   in (x = Done 75 \<or> (\<exists>e. x = Threw e)) \<and> logs_only w w' \<and>
      length (job_logs (the_db w')) \<le> length (job_logs (the_db w)) + 1"
  unfolding Let_def
  by (rule busy_deploy_skips[where i = 2, OF _ _ _ demo_deploy_env[symmetric] _ _ prod.collapse[symmetric]])
    (simp_all add: demo_world_def demo_deploy_def demo_runtime_def pg_try_advisory_lock_def empty_db_def)

lemma logs_only_release:
  assumes "logs_only w1 w2" "advisory (the_db w1) = (s, hashtext (LOCK_PREFIX @ env)) # A"
    and "clients w1 = insert s C" "s \<notin> C" "script w1 = []"
  shows "\<exists>w'. run_release hashtext (Release s env) w2 = (Done (), w') \<and> advisory (the_db w') = A \<and>
    clients w' = C \<and> jobs (the_db w') = jobs (the_db w1) \<and>
    deployment_locks (the_db w') = delete_where (\<lambda>l. dl_environment l = env) (deployment_locks (the_db w1))"
proof -
  note f = logs_onlyD[OF assms(1)]
  have "script w2 = []" using f(1) assms(5) by simp
  from run_release_quiet[OF this, of hashtext s env] assms f show ?thesis
    by (auto simp: pg_advisory_unlock_def)
qed

lemma try_finally_done:
  assumes "m w = (x, w2)" "x = Done c \<or> (\<exists>e. x = Threw e)" "f w2 = (Done (), w')"
  shows "try_finally m f w = (x, w')"
  using assms by (auto simp: try_finally_def seq_def ret_def throw_def)

text \<open>
  A deploy that got its lock holds it to the end of its command and gives it
  back on every way out, whatever the exit code and also when writing the log fails: the
  advisory locks and the clients are those from before, and no row of deployment_locks is
  left for the environment.
\<close>

theorem deploy_releases_lock:
  assumes "script w = []" "jo_id job = Some i" "jo_stage job = lit ''deploy''"
    and "env = guessDeployEnvironment (jo_command job)" "jo_pipeline_run_id job = Some r"
    and "r \<in> r_id ` set (pipeline_runs (the_db w))" "rt_session rt \<notin> clients w" "beats_now i w"
    and "fst (pg_try_advisory_lock (rt_session rt) (rt_hashtext rt (LOCK_PREFIX @ env)) (advisory (the_db w)))"
    and "exit_of (rt_child rt (clock w) (jo_command job)) = Some code"
  shows "\<exists>x w'. execute rt job workerId w = (x, w') \<and> (x = Done code \<or> (\<exists>e. x = Threw e)) \<and>
    advisory (the_db w') = advisory (the_db w) \<and> clients w' = clients w \<and>
    jobs (the_db w') = jobs (the_db w) \<and>
    deployment_locks (the_db w') =
      delete_where (\<lambda>l. dl_environment l = env) (deployment_locks (the_db w))"
proof -
  let ?s = "rt_session rt" and ?h = "rt_hashtext rt"
  have len: "length env \<le> 100"
    by (auto simp: assms(4) guessDeployEnvironment_def Let_def environments_def split: option.split)
  have "\<exists>w1. tryAcquire ?h ?s env (Some r) w = (Done \<lparr>acquired = True, release = Release ?s env\<rparr>, w1)"
    using assms(6,9) len
    by (simp add: tryAcquire_quiet[OF assms(1)] Let_def sql_insert_deployment_lock_def)
  then obtain w1 where t: "tryAcquire ?h ?s env (Some r) w =
      (Done \<lparr>acquired = True, release = Release ?s env\<rparr>, w1)" by blast
  have ok: "acquired \<lparr>acquired = True, release = Release ?s env\<rparr>" by simp
  note g = tryAcquire_granted[OF assms(1) t ok]
  have same: "jobs (the_db w1) = jobs (the_db w)" using g(9) by auto
  have beats: "beats_now i w1" using assms(8) g(5) same by (simp add: beats_now_def)
  let ?m = "seq (appendLog (rt_format rt) (Some i)
      (lit ''Acquired deploy lock for '' @ env) (lit ''info'')) (\<lambda>_. run_command rt i (jo_command job) workerId)"
  obtain x w2 where m: "?m w1 = (x, w2)" by fastforce
  have "stays (logs_only w1) ?m"
    by (intro stays_intros stays_append stays_run_command g(3) beats)
  from staysD[of "logs_only w1" ?m w1 x w2, OF this logs_only_refl m]
  have l: "logs_only w1 w2" .
  obtain w' where r: "run_release ?h (Release ?s env) w2 = (Done (), w')"
    "advisory (the_db w') = advisory (the_db w)" "clients w' = clients w" "jobs (the_db w') = jobs (the_db w)"
    "deployment_locks (the_db w') = delete_where (\<lambda>l. dl_environment l = env) (deployment_locks (the_db w))"
    using logs_only_release[of w1 w2 ?s ?h env "advisory (the_db w)" "clients w", OF l g(7,4) assms(7) g(3)]
      g(8) same by auto
  have x: "x = Done code \<or> (\<exists>e. x = Threw e)"
  proof -
    have "exit_of (rt_child rt (clock w1) (jo_command job)) = Some code" using assms(10) g(5) by simp
    from logged_command_ends[of w1, OF g(3) this] m show ?thesis by blast
  qed
  have "execute rt job workerId w = try_finally ?m (run_release ?h (Release ?s env)) w1"
    by (simp add: execute_def assms(2,3,5) assms(4)[symmetric] Let_def del: run_release.simps
        add: seq_done[of "tryAcquire ?h ?s env (Some r)" w _ w1, OF t])
  also have "\<dots> = (x, w')"
    using try_finally_done[of ?m w1 x w2] m r(1) x by blast
  finally have "execute rt job workerId w = (x, w')" .
  with x r show ?thesis by blast
qed


theorem deploy_releases_lock_witness:
  "let w = demo_world [(demo_job 2 0 Running)\<lparr>j_heartbeat_at := Some 7\<rparr>]
   in \<exists>x w'. execute (demo_runtime [Stdout (lit ''ok''), Close (Some 3)]) demo_deploy (lit ''w'') w = (x, w') \<and>
        (x = Done 3 \<or> (\<exists>e. x = Threw e)) \<and> advisory (the_db w') = advisory (the_db w) \<and>
        clients w' = clients w \<and> jobs (the_db w') = jobs (the_db w) \<and>
        deployment_locks (the_db w') =
          delete_where (\<lambda>l. dl_environment l = lit ''staging'') (deployment_locks (the_db w))"
  unfolding Let_def
  by (rule deploy_releases_lock[where i = 2 and r = 1, OF _ _ _ demo_deploy_env[symmetric]])
    (simp_all add: demo_world_def demo_deploy_def demo_runtime_def pg_try_advisory_lock_def empty_db_def
      beats_now_def demo_job_def)

text \<open>
  Only deploys touch the locks: executing any other job changes nothing but
  the logs (its heartbeats apart, which the still clock of the statement hides), and comes
  to the exit code of its process, to 1 when a signal killed it or it could not be started,
  unless the exec line could not be logged.
\<close>

theorem plain_job_takes_no_lock:
  assumes "script w = []" "jo_id job = Some i" "jo_stage job \<noteq> lit ''deploy''" "beats_now i w"
    and "execute rt job workerId w = (x, w')"
  shows "logs_only w w' \<and>
    (case exit_of (rt_child rt (clock w) (jo_command job)) of
       None \<Rightarrow> True | Some code \<Rightarrow> x = Done code \<or> (\<exists>e. x = Threw e))"
proof -
  have r: "run_command rt i (jo_command job) workerId w = (x, w')"
    using assms(2,3,5) by (simp add: execute_def)
  have "logs_only w w'"
    using staysD[OF stays_run_command[OF assms(1,4)] logs_only_refl r] .
  with run_command_ends[OF _ assms(1) r] show ?thesis by (auto split: option.split)
qed

theorem plain_job_takes_no_lock_witness:
  "let w = demo_world [(demo_job 2 0 Running)\<lparr>j_heartbeat_at := Some 7\<rparr>];
       job = demo_deploy\<lparr>jo_stage := lit ''test''\<rparr>;
       x = fst (execute (demo_runtime [Heartbeat_Due, Close None]) job (lit ''w'') w)
   in x = Done 1 \<or> (\<exists>e. x = Threw e)"
  using plain_job_takes_no_lock[where i = 2 and w = "demo_world [(demo_job 2 0 Running)\<lparr>j_heartbeat_at := Some 7\<rparr>]"
      and job = "demo_deploy\<lparr>jo_stage := lit ''test''\<rparr>" and rt = "demo_runtime [Heartbeat_Due, Close None]"
      and workerId = "lit ''w''", OF _ _ _ _ prod.collapse[symmetric]]
  by (simp add: demo_world_def demo_deploy_def demo_runtime_def empty_db_def beats_now_def demo_job_def)


section \<open>The logged output\<close>

definition log_view :: "world \<Rightarrow> (uuid \<times> ustring \<times> ustring) list" where
  "log_view w = map (\<lambda>l. (l_job_id l, l_log_line l, l_log_level l)) (job_logs (the_db w))"

text \<open>Lines of printable ASCII, a job that exists, and room in the sequence of log ids.\<close>

definition loggable :: "runtime \<Rightarrow> uuid \<Rightarrow> nat \<Rightarrow> world \<Rightarrow> bool" where
  "loggable rt i n w \<longleftrightarrow> script w = [] \<and> i \<in> j_id ` set (jobs (the_db w)) \<and>
     format_ok (rt_format rt) \<and> next_log_id (the_db w) + n < 10 ^ 19"

lemma log_line_quiet:
  assumes "loggable rt i (Suc n) w" "plain_ascii line" "plain_ascii lvl" "length lvl \<le> 20"
  obtains w' where "log_line rt i line lvl w = (Done (), w')" "loggable rt i n w'"
    "log_view w' = log_view w @ [(i, line, lvl)]"
proof -
  let ?d = "the_db w"
  let ?l = "\<lparr>l_id = next_log_id ?d, l_job_id = i, l_log_line = line, l_log_level = lvl,
      l_timestamp = clock w\<rparr>"
  have "byte_length (payload_text (rt_format rt) (log_event_of ?l)) < 8000"
    using assms by (intro payload_plain) (simp_all add: loggable_def)
  then have "\<exists>d'. sql_insert_job_log (rt_format rt) i line lvl (clock w) ?d = Inr (l_id ?l, d') \<and>
      job_logs d' = job_logs ?d @ [?l] \<and> jobs d' = jobs ?d \<and> next_log_id d' = next_log_id ?d + 1"
    using assms(1,4) assms(2,3)[THEN plain_ascii_no_null] by (cases "log_trigger ?d")
      (simp_all add: sql_insert_job_log_def pg_notify_def Let_def loggable_def)
  then obtain d' where s: "sql_insert_job_log (rt_format rt) i line lvl (clock w) ?d = Inr (l_id ?l, d')"
    "job_logs d' = job_logs ?d @ [?l]" "jobs d' = jobs ?d" "next_log_id d' = next_log_id ?d + 1"
    by blast
  show thesis
  proof (rule that)
    show "log_line rt i line lvl w = (Done (), w\<lparr>the_db := d'\<rparr>)"
      using assms(1) by (simp add: log_line_def appendLog_def ignore_error_def try_catch_def seq_def
          query_quiet loggable_def s(1) ret_def)
    show "loggable rt i n (w\<lparr>the_db := d'\<rparr>)" using assms(1) by (simp add: loggable_def s)
    show "log_view (w\<lparr>the_db := d'\<rparr>) = log_view w @ [(i, line, lvl)]"
      by (simp add: log_view_def s)
  qed
qed

lemma log_lines_quiet:
  assumes "loggable rt i (length ls + n) w" "\<forall>l \<in> set ls. plain_ascii l" "plain_ascii lvl" "length lvl \<le> 20"
  obtains w' where "log_lines rt i lvl ls w = (Done (), w')" "loggable rt i n w'"
    "log_view w' = log_view w @ map (\<lambda>l. (i, l, lvl)) ls"
  using assms(1,2)
proof (induction ls arbitrary: w thesis)
  case Nil
  then show ?case by (simp add: ret_def)
next
  case (Cons l ls)
  obtain w1 where w1: "log_line rt i l lvl w = (Done (), w1)" "loggable rt i (length ls + n) w1"
    "log_view w1 = log_view w @ [(i, l, lvl)]"
    using log_line_quiet[of rt i "length ls + n" w l lvl] Cons.prems(2,3) assms(3,4) by auto
  obtain w' where "log_lines rt i lvl ls w1 = (Done (), w')" "loggable rt i n w'"
    "log_view w' = log_view w1 @ map (\<lambda>l. (i, l, lvl)) ls"
    using Cons.IH[OF _ w1(2)] Cons.prems(3) by auto
  with w1 show ?case by (intro Cons.prems(1)[of w']) (simp_all add: seq_def)
qed

lemma info_plain: "plain_ascii (lit ''info'')" "length (lit ''info'') \<le> 20"
  by (simp_all add: plain_ascii_def lit_def)

lemma stdout_logged:
  assumes "loggable rt i (length (fst (lb_writes out chunks)) + length (fst (lb_flush (snd (lb_writes out chunks))))) w"
    and "\<forall>l \<in> set (fst (lb_writes out chunks)) \<union> set (fst (lb_flush (snd (lb_writes out chunks)))). plain_ascii l"
  shows "\<exists>w'. run_child rt i (map Stdout chunks @ [Close (Some code)]) out [] None w = (Done code, w') \<and>
    log_view w' = log_view w @ map (\<lambda>l. (i, l, lit ''info''))
      (fst (lb_writes out chunks) @ fst (lb_flush (snd (lb_writes out chunks))))"
  using assms
proof (induction chunks arbitrary: out w)
  case Nil
  obtain ls out' where f: "lb_flush out = (ls, out')" by fastforce
  obtain w1 where "log_lines rt i (lit ''info'') ls w = (Done (), w1)"
    "log_view w1 = log_view w @ map (\<lambda>l. (i, l, lit ''info'')) ls"
    using log_lines_quiet[of rt i ls 0 w "lit ''info''"] Nil info_plain by (auto simp: f)
  then show ?case by (simp add: f seq_def lb_flush_def[of "[]"] ret_def)
next
  case (Cons chunk chunks)
  obtain ls out1 where f: "lb_write out chunk = (ls, out1)" by fastforce
  let ?n = "length (fst (lb_writes out1 chunks)) + length (fst (lb_flush (snd (lb_writes out1 chunks))))"
  have ws: "lb_writes out (chunk # chunks) = (ls @ fst (lb_writes out1 chunks), snd (lb_writes out1 chunks))"
    by (simp add: f split: prod.split)
  have "loggable rt i (length ls + ?n) w" using Cons.prems(1) unfolding ws by (simp add: add.assoc)
  then obtain w1 where "log_lines rt i (lit ''info'') ls w = (Done (), w1)" "loggable rt i ?n w1"
    "log_view w1 = log_view w @ map (\<lambda>l. (i, l, lit ''info'')) ls"
    using log_lines_quiet[of rt i ls ?n w "lit ''info''"] Cons.prems(2) info_plain
    unfolding ws by (metis Un_iff fst_conv set_append)
  moreover obtain w' where "run_child rt i (map Stdout chunks @ [Close (Some code)]) out1 [] None w1 = (Done code, w')"
    "log_view w' = log_view w1 @ map (\<lambda>l. (i, l, lit ''info''))
      (fst (lb_writes out1 chunks) @ fst (lb_flush (snd (lb_writes out1 chunks))))"
    using Cons.IH[OF \<open>loggable rt i ?n w1\<close>] Cons.prems(2) unfolding ws by auto
  ultimately show ?case unfolding ws by (simp add: f seq_def)
qed

text \<open>
  The output of a command is logged completely and in order: whatever chunks
  it arrives in, the rows added to job_logs are the lines of the whole output (the last one
  also when it has no line break), one row each, and the exit code is the process's.
\<close>

theorem output_logged_completely:
  assumes "script w = []" "i \<in> j_id ` set (jobs (the_db w))" "format_ok (rt_format rt)"
    and "next_log_id (the_db w) + length (lb_run chunks) < 10 ^ 19"
    and "\<forall>l \<in> set (lb_run chunks). plain_ascii l"
    and "rt_child rt (clock w) command = map Stdout chunks @ [Close (Some code)]"
  shows "\<exists>w'. spawn_child rt i command w = (Done code, w') \<and>
    log_view w' = log_view w @ map (\<lambda>l. (i, l, lit ''info''))
      (let parts = split_lines (concat chunks) in if last parts = [] then butlast parts else parts)"
proof -
  have run: "lb_run chunks = fst (lb_writes [] chunks) @ fst (lb_flush (snd (lb_writes [] chunks)))"
    by (simp add: lb_run_def split: prod.split)
  have "\<exists>w'. run_child rt i (map Stdout chunks @ [Close (Some code)]) [] [] None w = (Done code, w') \<and>
    log_view w' = log_view w @ map (\<lambda>l. (i, l, lit ''info'')) (lb_run chunks)"
    unfolding run
    by (rule stdout_logged) (use assms(1-5) in \<open>auto simp: loggable_def run\<close>)
  then show ?thesis
    by (simp add: spawn_child_def assms(6) lb_run_split)
qed

theorem output_logged_completely_witness:
  "\<exists>w'. spawn_child (demo_runtime [Stdout (lit ''a'' @ [13]), Stdout (10 # lit ''b''), Close (Some 0)]) 2 []
      (demo_world [demo_job 2 0 Running]) = (Done 0, w') \<and>
    log_view w' = log_view (demo_world [demo_job 2 0 Running]) @ map (\<lambda>l. (2, l, lit ''info''))
      (let parts = split_lines (concat [lit ''a'' @ [13], 10 # lit ''b''])
       in if last parts = [] then butlast parts else parts)"
  by (rule output_logged_completely)
    (simp_all add: demo_world_def demo_runtime_def demo_job_def format_ok_def plain_ascii_def lb_run_def
      lb_write_def lb_flush_def lit_def pop_last_def empty_db_def)

end
