(* ===== verification/LogService.thy ===== *)
theory LogService
  imports LogStream
begin

text \<open>
  The listening side of \<open>LogStreamService\<close> (src/src/streaming/log-stream.service.ts) in one
  process, and the server-sent-events endpoints that subscribe to it
  (src/src/streaming/sse.controller.ts): starting and stopping with the application, the
  handlers on the listening client, the restart after a lost connection, the subject and its
  subscribers.

  The connections are the environment's: which session the pool hands out, whether it can be
  reached, when it breaks.  A client that breaks emits \<open>error\<close> and then \<open>end\<close>, a client that
  is ended emits \<open>end\<close>; the pool ends its idle clients when it is ended and waits for those
  that are checked out; an unhandled rejection ends the process.  All this is documented
  behaviour of pg and of Node.
\<close>

section \<open>The state of the service\<close>

text \<open>A pool of raw clients: the idle ones and those that are checked out.\<close>

record pg_pool =
  idle :: "session list"
  checked_out :: "session list"

definition new_pool :: pg_pool where
  "new_pool = \<lparr>idle = [], checked_out = []\<rparr>"

text \<open>One open subscription of an endpoint: the job it asks for, and what it has been sent.\<close>

record subscription =
  sub_job :: "ustring option"
  sub_received :: "log_event list"
  sub_completed :: bool

text \<open>
  Of the clients whose connection is alive, \<open>attached\<close> are those the handlers were attached
  to, \<open>listening\<close> those that ran LISTEN too; \<open>restarts_pending\<close> counts the timers of \<open>restart\<close>
  that have not fired; \<open>crashed\<close> is the end of the process by an unhandled rejection.
\<close>

record log_service =
  database_url :: "ustring option"
  log_pool :: "pg_pool option"
  listen_client :: "session option"
  attached :: "session list"
  listening :: "session list"
  restarts_pending :: nat
  crashed :: bool
  subject_done :: bool
  subscribers :: "subscription list"

definition new_log_service :: "ustring option \<Rightarrow> log_service" where
  "new_log_service url = \<lparr>database_url = url, log_pool = None, listen_client = None,
     attached = [], listening = [], restarts_pending = 0, crashed = False,
     subject_done = False, subscribers = []\<rparr>"

section \<open>The subject\<close>

text \<open>\<open>getLogStream\<close> and \<open>getLogStreamForJob\<close>: the observables, as what a subscription to them wants.\<close>

definition getLogStream :: subscription where
  "getLogStream = \<lparr>sub_job = None, sub_received = [], sub_completed = False\<rparr>"

definition getLogStreamForJob :: "ustring \<Rightarrow> subscription" where
  "getLogStreamForJob jobId = \<lparr>sub_job = Some jobId, sub_received = [], sub_completed = False\<rparr>"

text \<open>\<open>ev.job_id === jobId\<close> compares texts.\<close>

definition sub_wants :: "pg_format \<Rightarrow> log_event \<Rightarrow> subscription \<Rightarrow> bool" where
  "sub_wants fmt e u \<longleftrightarrow> \<not> sub_completed u \<and>
     (case sub_job u of None \<Rightarrow> True | Some jobId \<Rightarrow> uuid_text fmt (ev_job_id e) = jobId)"

definition sub_next :: "pg_format \<Rightarrow> log_event \<Rightarrow> subscription \<Rightarrow> subscription" where
  "sub_next fmt e u = (if sub_wants fmt e u then u\<lparr>sub_received := sub_received u @ [e]\<rparr> else u)"

text \<open>\<open>logSubject.next(event)\<close> and \<open>logSubject.complete()\<close>\<close>

definition subject_next :: "pg_format \<Rightarrow> log_event \<Rightarrow> log_service \<Rightarrow> log_service" where
  "subject_next fmt e s =
     (if subject_done s then s else s\<lparr>subscribers := map (sub_next fmt e) (subscribers s)\<rparr>)"

definition subject_complete :: "log_service \<Rightarrow> log_service" where
  "subject_complete s =
     s\<lparr>subject_done := True,
       subscribers := map (\<lambda>u. u\<lparr>sub_completed := True\<rparr>) (subscribers s)\<rparr>"

text \<open>A subscription to a subject that is complete completes at once.\<close>

definition subscribe :: "subscription \<Rightarrow> log_service \<Rightarrow> log_service" where
  "subscribe u s = s\<lparr>subscribers := subscribers s @ [u\<lparr>sub_completed := subject_done s\<rparr>]\<rparr>"

text \<open>\<open>GET /stream/logs/:jobId\<close> and \<open>GET /stream/logs\<close>\<close>

definition streamJobLogs :: "ustring \<Rightarrow> log_service \<Rightarrow> log_service" where
  "streamJobLogs jobId s = subscribe (getLogStreamForJob jobId) s"

definition streamAllLogs :: "log_service \<Rightarrow> log_service" where
  "streamAllLogs s = subscribe getLogStream s"

section \<open>Listening\<close>

text \<open>\<open>getPool\<close>; \<open>getOrThrow\<close> throws when the variable is not set.\<close>

definition log_getPool :: "log_service \<Rightarrow> js_error + log_service" where
  "log_getPool s = (case log_pool s of
      Some p \<Rightarrow> Inr s
    | None \<Rightarrow> (case database_url s of
        None \<Rightarrow> Inl Type_Error
      | Some url \<Rightarrow> Inr (s\<lparr>log_pool := Some new_pool\<rparr>)))"

text \<open>How connecting ends: the server refuses, or it breaks before LISTEN has run, or neither.\<close>

datatype connection = Refused | Breaks session | Connects session

definition check_out :: "session \<Rightarrow> pg_pool \<Rightarrow> pg_pool" where
  "check_out c p = p\<lparr>idle := remove1 c (idle p), checked_out := c # checked_out p\<rparr>"

text \<open>
  The client becomes the service's own, and gets the three handlers (\<open>notification\<close>, and
  \<open>restart\<close> on both \<open>error\<close> and \<open>end\<close>).
\<close>

definition attach_client :: "session \<Rightarrow> log_service \<Rightarrow> log_service" where
  "attach_client c s =
     s\<lparr>log_pool := map_option (check_out c) (log_pool s), listen_client := Some c,
       attached := attached s @ [c]\<rparr>"

text \<open>\<open>startListening\<close>; the first component is what it throws.\<close>

definition startListening :: "connection \<Rightarrow> log_service \<Rightarrow> js_error option \<times> log_service" where
  "startListening conn s = (case log_getPool s of
      Inl e \<Rightarrow> (Some e, s)
    | Inr s1 \<Rightarrow> (case conn of
        Refused \<Rightarrow> (Some Connection_Lost, s1)
      | Breaks c \<Rightarrow> (Some Connection_Lost, attach_client c s1)
      | Connects c \<Rightarrow> (None, (attach_client c s1)\<lparr>listening := listening s1 @ [c]\<rparr>)))"

text \<open>
  \<open>client.release()\<close>: a client whose connection is gone is dropped by the pool; a second
  release throws, which \<open>restart\<close> ignores.
\<close>

definition release_listener :: "session \<Rightarrow> log_service \<Rightarrow> log_service" where
  "release_listener c s =
     s\<lparr>log_pool := map_option (\<lambda>p.
         if c \<notin> set (checked_out p) then p
         else p\<lparr>checked_out := remove1 c (checked_out p),
                idle := (if c \<in> set (attached s) then c # idle p else idle p)\<rparr>) (log_pool s)\<rparr>"

definition drop_listen_client :: "log_service \<Rightarrow> log_service" where
  "drop_listen_client s = (case listen_client s of
      None \<Rightarrow> s
    | Some c \<Rightarrow> (release_listener c s)\<lparr>listen_client := None\<rparr>)"

text \<open>\<open>restart\<close>\<close>

definition restart :: "log_service \<Rightarrow> log_service" where
  "restart s = (drop_listen_client s)\<lparr>restarts_pending := restarts_pending s + 1\<rparr>"

definition connection_gone :: "session \<Rightarrow> log_service \<Rightarrow> log_service" where
  "connection_gone c s =
     s\<lparr>attached := removeAll c (attached s), listening := removeAll c (listening s),
       log_pool := map_option (\<lambda>p. p\<lparr>idle := removeAll c (idle p)\<rparr>) (log_pool s)\<rparr>"

text \<open>
  \<open>Notification\<close>: a notification arrives at a client; its payload is what JSON.parse made of
  it, if it parsed.  \<open>Restart_Timer\<close>: a timer of \<open>restart\<close> fires, and the promise of its
  \<open>startListening\<close> is not awaited by anyone.
\<close>

datatype log_service_event =
    Notification session ustring "log_event option"
  | Client_Error session
  | Client_End session
  | Restart_Timer connection

fun on_event :: "pg_format \<Rightarrow> log_service_event \<Rightarrow> log_service \<Rightarrow> log_service" where
  "on_event fmt (Notification c channel payload) s =
     (if crashed s \<or> c \<notin> set (attached s) \<or> channel \<noteq> lit ''job_logs'' then s
      else (case payload of None \<Rightarrow> s | Some e \<Rightarrow> subject_next fmt e s))"
| "on_event fmt (Client_Error c) s =
     (if crashed s \<or> c \<notin> set (attached s) then s else restart s)"
| "on_event fmt (Client_End c) s =
     (if crashed s \<or> c \<notin> set (attached s) then s else restart (connection_gone c s))"
| "on_event fmt (Restart_Timer conn) s =
     (if crashed s \<or> restarts_pending s = 0 then s
      else (case startListening conn (s\<lparr>restarts_pending := restarts_pending s - 1\<rparr>) of
          (None, s') \<Rightarrow> s'
        | (Some e, s') \<Rightarrow> s'\<lparr>crashed := True\<rparr>))"

text \<open>Postgres delivers a committed notification to every client that listens.\<close>

definition deliver :: "pg_format \<Rightarrow> log_event \<Rightarrow> log_service \<Rightarrow> log_service" where
  "deliver fmt e s =
     fold (\<lambda>c. on_event fmt (Notification c (lit ''job_logs'') (Some e))) (listening s) s"

section \<open>Starting and stopping\<close>

text \<open>\<open>process.env.SYNC_DATABASE === 'true'\<close>\<close>

definition shouldRunTriggerDdl :: "ustring option \<Rightarrow> bool" where
  "shouldRunTriggerDdl sync_database \<longleftrightarrow> sync_database = Some (lit ''true'')"

definition log_onModuleInit ::
  "ustring option \<Rightarrow> connection \<Rightarrow> log_service \<Rightarrow> world \<Rightarrow> unit outcome \<times> log_service \<times> world" where
  "log_onModuleInit sync_database conn s w =
     (case ensureNotifyTrigger (shouldRunTriggerDdl sync_database) w of
        (Done _, w') \<Rightarrow>
          if shouldRunTriggerDdl sync_database then
            (case startListening conn s of
               (None, s') \<Rightarrow> (Done (), s', w')
             | (Some e, s') \<Rightarrow> (Threw e, s', w'))
          else (Done (), s, w')
      | (Threw e, w') \<Rightarrow> (Threw e, s, w')
      | (Hangs, w') \<Rightarrow> (Hangs, s, w'))"

text \<open>
  \<open>await this.pool.end()\<close>: the idle clients end, each with its \<open>end\<close> event; then it waits
  for the clients that are checked out.
\<close>

definition log_pool_end :: "pg_format \<Rightarrow> pg_pool \<Rightarrow> log_service \<Rightarrow> unit outcome \<times> log_service" where
  "log_pool_end fmt p s =
     (if checked_out p = [] then Done () else Hangs,
      fold (\<lambda>c. on_event fmt (Client_End c)) (idle p) s)"

definition log_onModuleDestroy :: "pg_format \<Rightarrow> log_service \<Rightarrow> unit outcome \<times> log_service" where
  "log_onModuleDestroy fmt s =
     (let s1 = drop_listen_client s in
      case log_pool s1 of
        None \<Rightarrow> (Done (), subject_complete s1)
      | Some p \<Rightarrow> (case log_pool_end fmt p s1 of
            (Done _, s2) \<Rightarrow> (Done (), subject_complete (s2\<lparr>log_pool := None\<rparr>))
          | r \<Rightarrow> r))"

section \<open>Facts\<close>

lemma subject_next_fields [simp]:
  "crashed (subject_next fmt e s) = crashed s" "attached (subject_next fmt e s) = attached s"
  "listening (subject_next fmt e s) = listening s" "log_pool (subject_next fmt e s) = log_pool s"
  "restarts_pending (subject_next fmt e s) = restarts_pending s"
  "subject_done (subject_next fmt e s) = subject_done s"
  "listen_client (subject_next fmt e s) = listen_client s"
  by (simp_all add: subject_next_def)

lemma drop_listen_client_fields [simp]:
  "crashed (drop_listen_client s) = crashed s" "attached (drop_listen_client s) = attached s"
  "listening (drop_listen_client s) = listening s"
  "restarts_pending (drop_listen_client s) = restarts_pending s"
  "subject_done (drop_listen_client s) = subject_done s"
  "subscribers (drop_listen_client s) = subscribers s"
  "log_pool (drop_listen_client s) = None \<longleftrightarrow> log_pool s = None"
  "(\<exists>p. log_pool (drop_listen_client s) = Some p) \<longleftrightarrow> (\<exists>p. log_pool s = Some p)"
  "listen_client (drop_listen_client s) = None"
  by (simp_all add: drop_listen_client_def release_listener_def split: option.split)

text \<open>
  The service serves: it has a pool, its attached clients are the listening ones, and there
  is one or a restart to come.
\<close>

definition serving :: "log_service \<Rightarrow> bool" where
  "serving s \<longleftrightarrow> log_pool s \<noteq> None \<and> attached s = listening s \<and>
     (listening s \<noteq> [] \<or> 0 < restarts_pending s)"

fun failing :: "connection \<Rightarrow> bool" where
  "failing (Connects c) = False"
| "failing _ = True"

lemma startListening_serving:
  assumes "log_pool s \<noteq> None" "attached s = listening s" "\<not> failing conn"
  obtains s' where "startListening conn s = (None, s')" "serving s'" "crashed s' = crashed s"
  using assms
  by (cases conn)
    (auto simp: startListening_def log_getPool_def attach_client_def serving_def)

lemma on_event_serving:
  assumes "serving s" "\<not> crashed s"
  shows "serving (on_event fmt ev s) \<and> \<not> crashed (on_event fmt ev s) \<or>
    crashed (on_event fmt ev s) \<and> (\<exists>conn. ev = Restart_Timer conn \<and> failing conn)"
proof (cases ev)
  case (Restart_Timer conn)
  show ?thesis
  proof (cases "restarts_pending s = 0 \<or> failing conn")
    case False
    let ?s = "s\<lparr>restarts_pending := restarts_pending s - 1\<rparr>"
    obtain s' where s': "startListening conn ?s = (None, s')" "serving s'" "crashed s' = crashed ?s"
      by (rule startListening_serving[of ?s conn]) (use assms False in \<open>auto simp: serving_def\<close>)
    then show ?thesis using False assms by (simp add: Restart_Timer)
  next
    case True
    then show ?thesis
      using assms by (cases conn)
        (auto simp: Restart_Timer serving_def startListening_def log_getPool_def split: option.split)
  qed
qed (use assms in \<open>auto simp: serving_def restart_def connection_gone_def split: option.split\<close>)

lemma crashed_stays: "crashed s \<Longrightarrow> fold (on_event fmt) evs s = s"
proof (induction evs)
  case (Cons ev evs)
  then have "on_event fmt ev s = s" by (cases ev) auto
  with Cons show ?case by simp
qed simp

lemma events_serving:
  assumes "serving s" "\<not> crashed s"
  shows "serving (fold (on_event fmt) evs s) \<and> \<not> crashed (fold (on_event fmt) evs s) \<or>
    crashed (fold (on_event fmt) evs s) \<and> (\<exists>conn. Restart_Timer conn \<in> set evs \<and> failing conn)"
  using assms
proof (induction evs arbitrary: s)
  case (Cons ev evs)
  from on_event_serving[OF Cons.prems, of fmt ev] show ?case
  proof
    assume a: "serving (on_event fmt ev s) \<and> \<not> crashed (on_event fmt ev s)"
    with Cons.IH[of "on_event fmt ev s"] show ?thesis by auto
  next
    assume a: "crashed (on_event fmt ev s) \<and> (\<exists>conn. ev = Restart_Timer conn \<and> failing conn)"
    with crashed_stays[of "on_event fmt ev s" fmt evs] show ?thesis by auto
  qed
qed simp

text \<open>
  Property C30.  A process that started to listen does not go deaf: whatever happens to its
  clients, it listens with every client it has attached to, and there is such a client or a
  restart on its way, unless a restart itself failed, which ends the process.
\<close>

theorem listener_never_lost:
  assumes "startListening conn (new_log_service url) = (None, s0)"
    and "s = fold (on_event fmt) evs s0"
  shows "if crashed s then \<exists>c. Restart_Timer c \<in> set evs \<and> failing c
    else attached s = listening s \<and> (listening s \<noteq> [] \<or> 0 < restarts_pending s)"
proof -
  have "serving s0 \<and> \<not> crashed s0"
    using assms(1)
    by (auto simp: startListening_def log_getPool_def new_log_service_def attach_client_def
        serving_def split: option.splits connection.splits)
  then show ?thesis
    using events_serving[of s0 fmt evs] assms(2) by (auto simp: serving_def)
qed

theorem listener_never_lost_witness:
  "let fmt = \<lparr>uuid_text = \<lambda>i. [i], time_text = \<lambda>_. []\<rparr>;
       s0 = snd (startListening (Connects 4) (new_log_service (Some [])));
       s = fold (on_event fmt) [Client_End 4, Restart_Timer (Connects 5), Client_End 5] s0
   in if crashed s then \<exists>c. Restart_Timer c \<in> set [Client_End 4, Restart_Timer (Connects 5), Client_End 5] \<and> failing c
      else attached s = listening s \<and> (listening s \<noteq> [] \<or> 0 < restarts_pending s)"
  unfolding Let_def
  by (rule listener_never_lost[where conn = "Connects 4" and url = "Some []", OF _ refl])
    (simp add: startListening_def log_getPool_def new_log_service_def)

text \<open>
  A process whose SYNC_DATABASE is not \<open>true\<close> neither installs the trigger nor
  listens, ever: it starts, answers the stream endpoints, and sends their subscribers nothing,
  whatever is logged.
\<close>

theorem unsynced_process_streams_nothing:
  assumes "sync_database \<noteq> Some (lit ''true'')"
  shows "\<exists>s. log_onModuleInit sync_database conn (new_log_service url) w = (Done (), s, w) \<and>
    fold (on_event fmt) evs (streamJobLogs jobId s) = streamJobLogs jobId s \<and>
    fold (deliver fmt) es (streamJobLogs jobId s) = streamJobLogs jobId s"
proof -
  let ?s = "streamJobLogs jobId (new_log_service url)"
  have "on_event fmt ev ?s = ?s" for ev
    by (cases ev) (simp_all add: streamJobLogs_def subscribe_def new_log_service_def)
  then have "fold (on_event fmt) evs ?s = ?s" by (induction evs) simp_all
  moreover have "deliver fmt e ?s = ?s" for e
    by (simp add: deliver_def streamJobLogs_def subscribe_def new_log_service_def)
  then have "fold (deliver fmt) es ?s = ?s" by (induction es) simp_all
  ultimately show ?thesis
    using assms by (simp add: log_onModuleInit_def shouldRunTriggerDdl_def ensureNotifyTrigger_def ret_def)
qed

theorem unsynced_process_streams_nothing_witness:
  "let fmt = \<lparr>uuid_text = \<lambda>i. [i], time_text = \<lambda>_. []\<rparr>;
       w = \<lparr>the_db = empty_db, clock = 5, aborted = False, clients = {}, script = []\<rparr>;
       e = \<lparr>ev_job_id = 1, ev_log_line = [], ev_log_level = [], ev_timestamp = 0, ev_id = 1\<rparr>
   in \<exists>s. log_onModuleInit None (Connects 4) (new_log_service (Some [])) w = (Done (), s, w) \<and>
     fold (on_event fmt) [Notification 4 (lit ''job_logs'') (Some e)] (streamJobLogs [1] s) =
       streamJobLogs [1] s \<and>
     fold (deliver fmt) [e] (streamJobLogs [1] s) = streamJobLogs [1] s"
  unfolding Let_def by (rule unsynced_process_streams_nothing) simp

section \<open>What subscribers are sent\<close>

text \<open>The usual state: one client, which the pool has handed out and which listens.\<close>

definition live :: "session \<Rightarrow> log_service \<Rightarrow> bool" where
  "live c s \<longleftrightarrow> log_pool s = Some \<lparr>idle = [], checked_out = [c]\<rparr> \<and> listen_client s = Some c \<and>
     attached s = [c] \<and> listening s = [c] \<and> restarts_pending s = 0 \<and>
     \<not> crashed s \<and> \<not> subject_done s"

lemma live_init:
  "startListening (Connects c) (new_log_service (Some url)) = (None, s) \<Longrightarrow> live c s"
  by (auto simp: startListening_def log_getPool_def new_log_service_def attach_client_def
      check_out_def new_pool_def live_def)

lemma live_subscribe [simp]: "live c (subscribe u s) \<longleftrightarrow> live c s"
  by (simp add: live_def subscribe_def)

lemma live_next [simp]: "live c (subject_next fmt e s) \<longleftrightarrow> live c s"
  by (simp add: live_def)

lemma deliver_live: "live c s \<Longrightarrow> deliver fmt e s = subject_next fmt e s"
  by (simp add: deliver_def live_def)

lemma delivers_live:
  "live c s \<Longrightarrow> live c (fold (deliver fmt) es s) \<and>
     subscribers (fold (deliver fmt) es s) = map (fold (sub_next fmt) es) (subscribers s)"
proof (induction es arbitrary: s)
  case (Cons e es)
  have "subscribers (subject_next fmt e s) = map (sub_next fmt e) (subscribers s)"
    using Cons.prems by (simp add: subject_next_def live_def)
  with Cons show ?case by (simp add: deliver_live)
qed (simp add: map_idI)

lemma sub_received_fold:
  "fold (sub_next fmt) es u = u\<lparr>sub_received := sub_received u @ filter (\<lambda>e. sub_wants fmt e u) es\<rparr>"
proof (induction es arbitrary: u)
  case (Cons e es)
  have "sub_wants fmt e' (u\<lparr>sub_received := x\<rparr>) = sub_wants fmt e' u" for e' x
    by (simp add: sub_wants_def)
  with Cons show ?case by (simp add: sub_next_def)
qed simp

text \<open>Log lines written one after the other, by whatever processes; a statement that fails writes none.\<close>

type_synonym log_write = "timestamp \<times> uuid \<times> ustring \<times> ustring"

fun commit_log :: "pg_format \<Rightarrow> log_write \<Rightarrow> db \<Rightarrow> db" where
  "commit_log fmt (now, i, line, lvl) d =
     (case sql_insert_job_log fmt i line lvl now d of Inl e \<Rightarrow> d | Inr (n, d') \<Rightarrow> d')"

lemma insert_log_row:
  assumes "sql_insert_job_log fmt i line lvl now d = Inr (n, d')" "log_trigger d"
  shows "\<exists>l. job_logs d' = job_logs d @ [l] \<and> notifications d' = notifications d @ [log_event_of l] \<and>
    l_job_id l \<in> j_id ` set (jobs d)"
  using assms
  by (intro exI[of _ "\<lparr>l_id = next_log_id d, l_job_id = i, l_log_line = line, l_log_level = lvl,
            l_timestamp = now\<rparr>"])
    (auto simp: sql_insert_job_log_def pg_notify_def Let_def split: if_splits)

lemma commit_logs_rows:
  assumes "log_trigger d"
  shows "\<exists>ls. job_logs (fold (commit_log fmt) ws d) = job_logs d @ ls \<and>
    notifications (fold (commit_log fmt) ws d) = notifications d @ map log_event_of ls \<and>
    l_job_id ` set ls \<subseteq> j_id ` set (jobs d)"
  using assms
proof (induction ws arbitrary: d)
  case (Cons w ws)
  obtain now i line lvl where w: "w = (now, i, line, lvl)" by (cases w)
  show ?case
  proof (cases "sql_insert_job_log fmt i line lvl now d")
    case (Inl e)
    with Cons show ?thesis by (simp add: w)
  next
    case (Inr r)
    then obtain n d1 where r: "sql_insert_job_log fmt i line lvl now d = Inr (n, d1)"
      by (cases r) auto
    from insert_log_row[OF this Cons.prems] obtain l where l:
      "job_logs d1 = job_logs d @ [l]" "notifications d1 = notifications d @ [log_event_of l]"
      "l_job_id l \<in> j_id ` set (jobs d)" by blast
    from Cons.IH[of d1] insert_job_log_frame[OF r] Cons.prems obtain ls where
      "job_logs (fold (commit_log fmt) ws d1) = job_logs d1 @ ls"
      "notifications (fold (commit_log fmt) ws d1) = notifications d1 @ map log_event_of ls"
      "l_job_id ` set ls \<subseteq> j_id ` set (jobs d)" by auto
    then show ?thesis using l r by (intro exI[of _ "l # ls"]) (simp add: w)
  qed
qed simp

text \<open>
  Property C35.  Live logs are complete, while the service listens, the trigger on job_logs is
  there and different jobs have different texts.  Of all the lines any processes write to job_logs
  after a client opened the stream of a job (or of all jobs), and of no others, the client
  is sent exactly the rows of its job, each once and in the order of commit, as the trigger
  prints them.
\<close>

theorem live_stream_complete:
  assumes "live c s" "log_trigger d" "inj_on (uuid_text fmt) (insert i (j_id ` set (jobs d)))"
    and "d' = fold (commit_log fmt) ws d"
    and "s1 = streamAllLogs (streamJobLogs (uuid_text fmt i) s)"
    and "s2 = fold (deliver fmt) (drop (length (notifications d)) (notifications d')) s1"
  shows "\<exists>old. map sub_received (subscribers s2) = old @
      [map log_event_of (filter (\<lambda>l. l_job_id l = i) (drop (length (job_logs d)) (job_logs d'))),
       map log_event_of (drop (length (job_logs d)) (job_logs d'))]"
proof -
  let ?n = "length (subscribers s)"
  obtain ls where ls: "job_logs d' = job_logs d @ ls"
    "notifications d' = notifications d @ map log_event_of ls"
    "l_job_id ` set ls \<subseteq> j_id ` set (jobs d)"
    using commit_logs_rows[OF assms(2), of fmt ws] assms(4) by blast
  have "uuid_text fmt (l_job_id l) = uuid_text fmt i \<longleftrightarrow> l_job_id l = i" if "l \<in> set ls" for l
    using assms(3) ls(3) that by (auto simp: inj_on_def)
  then have "filter (\<lambda>l. uuid_text fmt (l_job_id l) = uuid_text fmt i) ls =
      filter (\<lambda>l. l_job_id l = i) ls"
    by (intro filter_cong) auto
  moreover have "live c s1" "subject_done s = False" using assms(1,5)
    by (simp_all add: streamAllLogs_def streamJobLogs_def live_def subscribe_def)
  ultimately show ?thesis
    using delivers_live[of c s1 fmt "map log_event_of ls"] ls(1,2)
    by (intro exI[of _ "map sub_received (map (fold (sub_next fmt) (map log_event_of ls)) (subscribers s))"])
      (simp add: assms(5,6) streamAllLogs_def streamJobLogs_def subscribe_def sub_received_fold
        getLogStream_def getLogStreamForJob_def sub_wants_def filter_map comp_def log_event_of_def)
qed

text \<open>A job row and a configuration for the examples.\<close>

definition sample_job :: "uuid \<Rightarrow> job" where
  "sample_job i = \<lparr>j_id = i, j_pipeline_run_id = 1, j_stage = [], j_stage_order = 0, j_step_name = [],
     j_step_order = 0, j_command = [], j_status = Running, j_priority = 5,
     j_claimed_by = None, j_claimed_at = None, j_heartbeat_at = None, j_retry_count = 0,
     j_max_retries = 3, j_exit_code = None, j_started_at = None, j_completed_at = None,
     j_created_at = 0\<rparr>"

definition sample_service :: log_service where
  "sample_service = snd (startListening (Connects 4) (new_log_service (Some [])))"

lemma sample_service_live: "live 4 sample_service"
proof -
  have "fst (startListening (Connects 4) (new_log_service (Some []))) = None"
    by (simp add: startListening_def log_getPool_def new_log_service_def)
  then show ?thesis
    unfolding sample_service_def by (intro live_init[of 4 "[]"]) (simp add: prod_eq_iff)
qed

theorem live_stream_complete_witness:
  "let fmt = \<lparr>uuid_text = \<lambda>i. [i], time_text = \<lambda>_. []\<rparr>;
       d = empty_db\<lparr>log_trigger := True, jobs := [sample_job 7, sample_job 8]\<rparr>;
       d' = fold (commit_log fmt) [(3, 8, [97], [105]), (4, 7, [98], [105]), (4, 9, [99], [105])] d;
       s2 = fold (deliver fmt) (drop (length (notifications d)) (notifications d'))
              (streamAllLogs (streamJobLogs (uuid_text fmt 7) sample_service))
   in \<exists>old. map sub_received (subscribers s2) = old @
      [map log_event_of (filter (\<lambda>l. l_job_id l = 7) (drop (length (job_logs d)) (job_logs d'))),
       map log_event_of (drop (length (job_logs d)) (job_logs d'))]"
  unfolding Let_def
  by (rule live_stream_complete[OF sample_service_live _ _ refl refl refl])
    (simp_all add: sample_job_def inj_on_def empty_db_def)

section \<open>What goes wrong\<close>

text \<open>
  A client that breaks reports an error and then its end, and \<open>restart\<close>
  answers both: two clients listen afterwards, every notification is sent twice to every
  subscriber it concerns, and the service cannot shut down any more, because the first of
  the two clients is never released.
\<close>

theorem broken_client_duplicates:
  assumes "live c s" "a \<noteq> b" "a \<noteq> c" "b \<noteq> c"
    and "s' = fold (on_event fmt)
      [Client_Error c, Client_End c, Restart_Timer (Connects a), Restart_Timer (Connects b)] s"
  shows "map sub_received (subscribers (deliver fmt e s')) =
      map (\<lambda>u. sub_received u @ (if sub_wants fmt e u then [e, e] else [])) (subscribers s) \<and>
    fst (log_onModuleDestroy fmt s') = Hangs"
proof -
  have s': "listening s' = [a, b]" "attached s' = [a, b]" "listen_client s' = Some b"
    "log_pool s' = Some \<lparr>idle = [], checked_out = [b, a]\<rparr>" "\<not> crashed s'" "\<not> subject_done s'"
    "subscribers s' = subscribers s"
    using assms
    by (simp_all add: live_def restart_def drop_listen_client_def release_listener_def
        connection_gone_def startListening_def log_getPool_def attach_client_def check_out_def)
  have wants: "sub_wants fmt e (sub_next fmt e u) = sub_wants fmt e u" for u
    by (simp add: sub_next_def sub_wants_def)
  have "subscribers (deliver fmt e s') =
      map (\<lambda>u. sub_next fmt e (sub_next fmt e u)) (subscribers s)"
    using s' by (simp add: deliver_def subject_next_def)
  then have "map sub_received (subscribers (deliver fmt e s')) =
      map (\<lambda>u. sub_received u @ (if sub_wants fmt e u then [e, e] else [])) (subscribers s)"
    by (simp add: sub_next_def[of fmt e "sub_next fmt e u" for u] wants) (simp add: sub_next_def)
  moreover have "fst (log_onModuleDestroy fmt s') = Hangs"
    using s' assms(2)
    by (simp add: log_onModuleDestroy_def drop_listen_client_def release_listener_def
        log_pool_end_def Let_def)
  ultimately show ?thesis by blast
qed

theorem broken_client_duplicates_witness:
  "let fmt = \<lparr>uuid_text = \<lambda>i. [i], time_text = \<lambda>_. []\<rparr>;
       s = streamAllLogs sample_service;
       e = \<lparr>ev_job_id = 1, ev_log_line = [], ev_log_level = [], ev_timestamp = 0, ev_id = 1\<rparr>;
       s' = fold (on_event fmt)
         [Client_Error 4, Client_End 4, Restart_Timer (Connects 5), Restart_Timer (Connects 6)] s
   in map sub_received (subscribers (deliver fmt e s')) =
        map (\<lambda>u. sub_received u @ (if sub_wants fmt e u then [e, e] else [])) (subscribers s) \<and>
      fst (log_onModuleDestroy fmt s') = Hangs"
  unfolding Let_def
  by (rule broken_client_duplicates[OF _ _ _ _ refl])
    (simp_all add: streamAllLogs_def sample_service_live)

text \<open>
  Shutting down does not stop the service from listening: ending the pool
  ends the listening client, whose \<open>end\<close> handler is still attached and starts a timer.  When
  it fires there is a new pool with a new listening client, or, if the database is gone too,
  an unhandled rejection.  The subscribers, at least, are completed and get nothing more.
\<close>

theorem shutdown_listens_again:
  assumes "live c s"
  shows "\<exists>s'. log_onModuleDestroy fmt s = (Done (), s') \<and>
    log_pool s' = None \<and> restarts_pending s' = 1 \<and> (\<forall>u \<in> set (subscribers s'). sub_completed u) \<and>
    (database_url s \<noteq> None \<longrightarrow>
       log_pool (on_event fmt (Restart_Timer (Connects a)) s') =
         Some \<lparr>idle = [], checked_out = [a]\<rparr> \<and>
       listening (on_event fmt (Restart_Timer (Connects a)) s') = [a]) \<and>
    crashed (on_event fmt (Restart_Timer Refused) s') \<and>
    subscribers (fold (on_event fmt) evs s') = subscribers s'"
proof -
  let ?s1 = "drop_listen_client s"
  define s' where "s' = snd (log_onModuleDestroy fmt s)"
  have l: "log_pool ?s1 = Some \<lparr>idle = [c], checked_out = []\<rparr>"
    using assms by (simp add: live_def drop_listen_client_def release_listener_def)
  have s': "log_onModuleDestroy fmt s = (Done (), s')" "log_pool s' = None"
    "restarts_pending s' = 1" "\<forall>u \<in> set (subscribers s'). sub_completed u"
    "attached s' = []" "listening s' = []" "\<not> crashed s'" "subject_done s'"
    "database_url s' = database_url s"
    using assms l unfolding s'_def
    by (simp_all add: log_onModuleDestroy_def Let_def log_pool_end_def subject_complete_def
        restart_def connection_gone_def live_def drop_listen_client_def release_listener_def
        split: option.split)
  have after: "subject_done (on_event fmt ev t) \<and> subscribers (on_event fmt ev t) = subscribers t"
    if "subject_done t" for ev t
    using that
    by (cases ev) (auto simp: subject_next_def restart_def connection_gone_def startListening_def
        log_getPool_def attach_client_def split: option.split connection.split)
  have "subscribers (fold (on_event fmt) evs t) = subscribers t" if "subject_done t" for t
    using that
  proof (induction evs arbitrary: t)
    case (Cons ev evs)
    then show ?case using after[of t ev] by simp
  qed simp
  with s' show ?thesis
    by (intro exI[of _ s'])
      (auto simp: startListening_def log_getPool_def attach_client_def check_out_def new_pool_def
        split: option.split)
qed

theorem shutdown_listens_again_witness:
  "let fmt = \<lparr>uuid_text = \<lambda>i. [i], time_text = \<lambda>_. []\<rparr>; s = streamAllLogs sample_service
   in \<exists>s'. log_onModuleDestroy fmt s = (Done (), s') \<and>
    log_pool s' = None \<and> restarts_pending s' = 1 \<and> (\<forall>u \<in> set (subscribers s'). sub_completed u) \<and>
    (database_url s \<noteq> None \<longrightarrow>
       log_pool (on_event fmt (Restart_Timer (Connects 5)) s') =
         Some \<lparr>idle = [], checked_out = [5]\<rparr> \<and>
       listening (on_event fmt (Restart_Timer (Connects 5)) s') = [5]) \<and>
    crashed (on_event fmt (Restart_Timer Refused) s') \<and>
    subscribers (fold (on_event fmt) [Restart_Timer (Connects 5)] s') = subscribers s'"
  unfolding Let_def
  by (rule shutdown_listens_again[where c = 4]) (simp add: streamAllLogs_def sample_service_live)

text \<open>
  A database that is still away one second after the connection was lost ends
  the process: nothing handles the rejection of the timer's \<open>startListening\<close>.
\<close>

theorem outage_crashes_process:
  assumes "live c s"
    and "s' = fold (on_event fmt) [Client_Error c, Client_End c, Restart_Timer Refused] s"
  shows "crashed s' \<and> fold (on_event fmt) evs s' = s'"
proof -
  have "crashed s'"
    using assms
    by (simp add: live_def restart_def drop_listen_client_def release_listener_def
        connection_gone_def startListening_def log_getPool_def)
  then show ?thesis by (simp add: crashed_stays)
qed

theorem outage_crashes_process_witness:
  "let fmt = \<lparr>uuid_text = \<lambda>i. [i], time_text = \<lambda>_. []\<rparr>;
       s' = fold (on_event fmt) [Client_Error 4, Client_End 4, Restart_Timer Refused] sample_service
   in crashed s' \<and> fold (on_event fmt) [Restart_Timer (Connects 5)] s' = s'"
  unfolding Let_def by (rule outage_crashes_process[OF sample_service_live refl])

end
