(* ===== verification/StreamFacts.thy ===== *)
theory StreamFacts
  imports ExecFacts LogService
begin

text \<open>
  From the output of a command to the screen of whoever watches it: the executor's log lines,
  the trigger's notifications and the stream of the job, composed, for every output on both
  channels, with the lines that the database refuses among them.
\<close>

section \<open>The lines a command issues\<close>

text \<open>
  The log lines of a child process with their levels, in the order in which the executor issues
  them, from the two line buffers on.
\<close>

fun issued :: "child_event list \<Rightarrow> ustring \<Rightarrow> ustring \<Rightarrow> (ustring \<times> ustring) list" where
  "issued [] out err = []"
| "issued (Stdout chunk # es) out err = (case lb_write out chunk of (ls, out') \<Rightarrow>
     map (\<lambda>l. (l, lit ''info'')) ls @ issued es out' err)"
| "issued (Stderr chunk # es) out err = (case lb_write err chunk of (ls, err') \<Rightarrow>
     map (\<lambda>l. (l, lit ''error'')) ls @ issued es out err')"
| "issued (Heartbeat_Due # es) out err = issued es out err"
| "issued (Close code # es) out err = (case (lb_flush out, lb_flush err) of ((ls, out'), (ls', err')) \<Rightarrow>
     map (\<lambda>l. (l, lit ''info'')) ls @ map (\<lambda>l. (l, lit ''error'')) ls' @ issued es out' err')"
| "issued (Child_Error message # es) out err = (case (lb_flush out, lb_flush err) of ((ls, out'), (ls', err')) \<Rightarrow>
     map (\<lambda>l. (l, lit ''info'')) ls @ map (\<lambda>l. (l, lit ''error'')) ls' @
     (lit ''Execution error: '' @ message, lit ''error'') # issued es out' err')"

text \<open>What a command prints on each channel, and whether it does nothing but print.\<close>

fun stdout_of :: "child_event list \<Rightarrow> ustring list" where
  "stdout_of (Stdout chunk # es) = chunk # stdout_of es"
| "stdout_of (e # es) = stdout_of es"
| "stdout_of [] = []"

fun stderr_of :: "child_event list \<Rightarrow> ustring list" where
  "stderr_of (Stderr chunk # es) = chunk # stderr_of es"
| "stderr_of (e # es) = stderr_of es"
| "stderr_of [] = []"

fun prints :: "child_event \<Rightarrow> bool" where
  "prints (Stdout chunk) = True"
| "prints (Stderr chunk) = True"
| "prints Heartbeat_Due = True"
| "prints _ = False"

definition text_lines :: "ustring \<Rightarrow> ustring list" where
  "text_lines s = (let parts = split_lines s in if last parts = [] then butlast parts else parts)"

lemma distinct_levels: "lit ''info'' \<noteq> lit ''error''"
  by simp

lemma issued_writes:
  assumes "\<forall>e \<in> set es. prints e"
  shows "map fst (filter (\<lambda>x. snd x = lit ''info'') (issued (es @ [Close code]) out err)) =
      fst (lb_writes out (stdout_of es)) @ fst (lb_flush (snd (lb_writes out (stdout_of es))))"
    and "map fst (filter (\<lambda>x. snd x = lit ''error'') (issued (es @ [Close code]) out err)) =
      fst (lb_writes err (stderr_of es)) @ fst (lb_flush (snd (lb_writes err (stderr_of es))))"
proof -
  have f: "filter (\<lambda>x. snd x = k) (map (\<lambda>l. (l, k')) ls) = (if k = k' then map (\<lambda>l. (l, k')) ls else [])"
    for k k' :: ustring and ls :: "ustring list"
    by (induction ls) auto
  show "map fst (filter (\<lambda>x. snd x = lit ''info'') (issued (es @ [Close code]) out err)) =
      fst (lb_writes out (stdout_of es)) @ fst (lb_flush (snd (lb_writes out (stdout_of es))))"
    using assms by (induction es out err rule: issued.induct) (auto simp: f comp_def split: prod.split)
  show "map fst (filter (\<lambda>x. snd x = lit ''error'') (issued (es @ [Close code]) out err)) =
      fst (lb_writes err (stderr_of es)) @ fst (lb_flush (snd (lb_writes err (stderr_of es))))"
    using assms by (induction es out err rule: issued.induct) (auto simp: f comp_def split: prod.split)
qed

lemma issued_lines:
  assumes "\<forall>e \<in> set es. prints e"
  shows "map fst (filter (\<lambda>x. snd x = lit ''info'') (issued (es @ [Close code]) [] [])) = text_lines (concat (stdout_of es))"
    and "map fst (filter (\<lambda>x. snd x = lit ''error'') (issued (es @ [Close code]) [] [])) = text_lines (concat (stderr_of es))"
  using issued_writes[OF assms, of code "[]" "[]"] lb_run_split[of "stdout_of es"] lb_run_split[of "stderr_of es"]
  by (simp_all add: text_lines_def lb_run_def case_prod_beta)

lemma issued_levels: "x \<in> set (issued es out err) \<Longrightarrow> snd x \<in> {lit ''info'', lit ''error''}"
  by (induction es out err rule: issued.induct) (auto split: prod.splits)

section \<open>The rows that are stored\<close>

text \<open>
  The rows the issued lines become while the trigger on job_logs is there: a line with a zero
  character is refused, and so is one whose notification does not fit.
\<close>

fun kept_rows :: "pg_format \<Rightarrow> uuid \<Rightarrow> timestamp \<Rightarrow> nat \<Rightarrow> (ustring \<times> ustring) list \<Rightarrow> job_log list" where
  "kept_rows fmt i now n [] = []"
| "kept_rows fmt i now n ((line, level) # ls) =
     (let r = \<lparr>l_id = n, l_job_id = i, l_log_line = line, l_log_level = level, l_timestamp = now\<rparr>
      in if 0 \<in> set line \<or> 8000 \<le> byte_length (payload_text fmt (log_event_of r))
         then kept_rows fmt i now n ls
         else r # kept_rows fmt i now (Suc n) ls)"

lemma kept_rows_append:
  "kept_rows fmt i now n (xs @ ys) =
     kept_rows fmt i now n xs @ kept_rows fmt i now (n + length (kept_rows fmt i now n xs)) ys"
  by (induction fmt i now n xs rule: kept_rows.induct) (simp_all add: Let_def)

lemma kept_rows_job: "r \<in> set (kept_rows fmt i now n ls) \<Longrightarrow> l_job_id r = i"
  by (induction fmt i now n ls rule: kept_rows.induct) (auto simp: Let_def split: if_splits)

text \<open>A line whose text takes at most 7700 bytes in the payload, after the cut, fits.\<close>

definition ordinary :: "ustring \<Rightarrow> bool" where
  "ordinary line \<longleftrightarrow> 0 \<notin> set line \<and> byte_length (json_string (line_trunc line)) \<le> 7700"

lemma ordinary_fits:
  assumes "format_ok fmt" "ordinary line" "plain_ascii lvl" "length lvl \<le> 20" "n < 10 ^ 19"
  shows "byte_length (payload_text fmt (log_event_of
      \<lparr>l_id = n, l_job_id = jid, l_log_line = line, l_log_level = lvl, l_timestamp = t\<rparr>)) < 8000"
proof -
  have "byte_length (json_string (uuid_text fmt jid)) = 38"
    "byte_length (json_string (time_text fmt t)) \<le> 42" "byte_length (json_string lvl) \<le> 22"
    using assms(1,3,4) by (auto simp: format_ok_def json_string_plain)
  moreover have "byte_length (decimal n) \<le> 19" by (rule decimal_length[OF assms(5)]) simp
  ultimately show ?thesis
    using assms(2) by (simp add: ordinary_def payload_text_def log_event_of_def json_key_lengths separator_lengths)
qed

lemma kept_ordinary:
  assumes "format_ok fmt" "\<forall>x \<in> set ls. ordinary (fst x) \<and> snd x \<in> {lit ''info'', lit ''error''}"
    and "n + length ls < 10 ^ 19"
  shows "map (\<lambda>r. (l_log_line r, l_log_level r)) (kept_rows fmt i now n ls) = ls"
  using assms(2,3)
proof (induction ls arbitrary: n)
  case (Cons x ls)
  obtain line level where x: "x = (line, level)" by (cases x)
  have lvl: "plain_ascii level" "length level \<le> 20"
    using Cons.prems(1) by (auto simp: x plain_ascii_def lit_def)
  have "ordinary line" "n < 10 ^ 19" using Cons.prems by (auto simp: x)
  from ordinary_fits[OF assms(1) this(1) lvl this(2), of i now] \<open>ordinary line\<close> Cons.IH[of "Suc n"] Cons.prems
  show ?case by (simp add: x ordinary_def Let_def)
qed simp

section \<open>The child's lines reach the table and the channel\<close>

text \<open>Nothing interferes, the trigger is there, and since \<open>w\<close> the rows \<open>ks\<close> were stored and notified.\<close>

definition grown :: "uuid \<Rightarrow> world \<Rightarrow> job_log list \<Rightarrow> world \<Rightarrow> bool" where
  "grown i w ks w' \<longleftrightarrow> script w' = [] \<and> clock w' = clock w \<and> log_trigger (the_db w') \<and>
     i \<in> j_id ` set (jobs (the_db w')) \<and> job_logs (the_db w') = job_logs (the_db w) @ ks \<and>
     next_log_id (the_db w') = next_log_id (the_db w) + length ks \<and>
     notifications (the_db w') = notifications (the_db w) @ map log_event_of ks"

definition watched :: "uuid \<Rightarrow> world \<Rightarrow> bool" where
  "watched i w \<longleftrightarrow> script w = [] \<and> log_trigger (the_db w) \<and> i \<in> j_id ` set (jobs (the_db w))"

lemma grown_trans: "grown i w ks w1 \<Longrightarrow> grown i w1 ks' w2 \<Longrightarrow> grown i w (ks @ ks') w2"
  by (simp add: grown_def)

lemma grown_watched: "grown i w ks w' \<Longrightarrow> watched i w'"
  by (simp add: grown_def watched_def)

lemma grown_refl: "watched i w \<Longrightarrow> grown i w [] w"
  by (simp add: grown_def watched_def)

abbreviation "kept rt i w ls \<equiv> kept_rows (rt_format rt) i (clock w) (next_log_id (the_db w)) ls"

lemma kept_later:
  "grown i w (kept rt i w xs) w1 \<Longrightarrow> kept rt i w (xs @ ys) = kept rt i w xs @ kept rt i w1 ys"
  by (simp add: kept_rows_append grown_def)

lemma log_line_grows:
  assumes "watched i w" "length lvl \<le> 20" "0 \<notin> set lvl"
  obtains w' where "log_line rt i line lvl w = (Done (), w')" "grown i w (kept rt i w [(line, lvl)]) w'"
proof -
  let ?r = "\<lparr>l_id = next_log_id (the_db w), l_job_id = i, l_log_line = line, l_log_level = lvl, l_timestamp = clock w\<rparr>"
  show thesis
  proof (cases "0 \<in> set line \<or> 8000 \<le> byte_length (payload_text (rt_format rt) (log_event_of ?r))")
    case True
    then have "\<exists>e. sql_insert_job_log (rt_format rt) i line lvl (clock w) (the_db w) = Inl e"
      using assms by (auto simp: sql_insert_job_log_def pg_notify_def Let_def watched_def)
    then obtain e where "sql_insert_job_log (rt_format rt) i line lvl (clock w) (the_db w) = Inl e" by blast
    with True assms(1) show ?thesis
      by (intro that[of w]) (auto simp: log_line_def appendLog_def ignore_error_def try_catch_def seq_def
          query_quiet ret_def watched_def Let_def grown_def)
  next
    case False
    with assms obtain d' where "sql_insert_job_log (rt_format rt) i line lvl (clock w) (the_db w) = Inr (l_id ?r, d')"
      "job_logs d' = job_logs (the_db w) @ [?r]" "next_log_id d' = Suc (next_log_id (the_db w))"
      "notifications d' = notifications (the_db w) @ [log_event_of ?r]" "jobs d' = jobs (the_db w)"
      "log_trigger d' = log_trigger (the_db w)"
      by (auto simp: sql_insert_job_log_def pg_notify_def Let_def watched_def)
    with False assms(1) show ?thesis
      by (intro that[of "w\<lparr>the_db := d'\<rparr>"]) (auto simp: log_line_def appendLog_def ignore_error_def
          try_catch_def seq_def query_quiet ret_def watched_def Let_def grown_def)
  qed
qed

lemma log_lines_grow:
  assumes "watched i w" "length lvl \<le> 20" "0 \<notin> set lvl"
  obtains w' where "log_lines rt i lvl ls w = (Done (), w')"
    "grown i w (kept rt i w (map (\<lambda>l. (l, lvl)) ls)) w'"
  using assms(1)
proof (induction ls arbitrary: w thesis)
  case Nil
  then show ?case by (simp add: ret_def grown_refl)
next
  case (Cons l ls)
  obtain w1 where w1: "log_line rt i l lvl w = (Done (), w1)" "grown i w (kept rt i w [(l, lvl)]) w1"
    using log_line_grows[OF Cons.prems(2) assms(2,3)] by blast
  obtain w2 where w2: "log_lines rt i lvl ls w1 = (Done (), w2)"
    "grown i w1 (kept rt i w1 (map (\<lambda>l. (l, lvl)) ls)) w2"
    using Cons.IH grown_watched[OF w1(2)] by blast
  have "kept rt i w ((l, lvl) # map (\<lambda>l. (l, lvl)) ls) =
      kept rt i w [(l, lvl)] @ kept rt i w1 (map (\<lambda>l. (l, lvl)) ls)"
    using kept_later[OF w1(2), of "map (\<lambda>l. (l, lvl)) ls"] by simp
  then show ?case
    using Cons.prems(1)[of w2] w1(1) w2(1) grown_trans[OF w1(2) w2(2)] by (simp add: seq_def)
qed

lemma info_level: "length (lit ''info'') \<le> 20" "0 \<notin> set (lit ''info'')"
  and error_level: "length (lit ''error'') \<le> 20" "0 \<notin> set (lit ''error'')"
  by (simp_all add: lit_def)

lemma tick_grows:
  assumes "watched i w"
  obtains w' where "ignore_error (tick (Some k)) w = (Done (), w')" "grown i w [] w'"
  using assms by (intro that[of "w\<lparr>the_db := (the_db w)\<lparr>jobs :=
      update_where (\<lambda>j. is_row (Some k) (j_id j)) (heartbeat_set (clock w)) (jobs (the_db w))\<rparr>\<rparr>"])
    (simp_all add: ignore_error_def try_catch_def tick_def updateHeartbeat_def query_quiet
      sql_update_heartbeat_def watched_def grown_def image_update_where)

text \<open>Lines, then the rest of the child.\<close>

lemma log_lines_then:
  assumes "watched i w" "length lvl \<le> 20" "0 \<notin> set lvl"
    and "\<And>w1. watched i w1 \<Longrightarrow> grown i w1 (kept rt i w1 rest) (snd (k () w1))"
  shows "grown i w (kept rt i w (map (\<lambda>l. (l, lvl)) ls @ rest)) (snd (seq (log_lines rt i lvl ls) k w))"
proof -
  obtain w1 where w1: "log_lines rt i lvl ls w = (Done (), w1)"
    "grown i w (kept rt i w (map (\<lambda>l. (l, lvl)) ls)) w1"
    using log_lines_grow[OF assms(1-3)] by blast
  show ?thesis
    using grown_trans[OF w1(2) assms(4)[OF grown_watched[OF w1(2)]]]
    by (simp add: seq_def w1(1) kept_later[OF w1(2)])
qed

lemma run_child_grows:
  "watched i w \<Longrightarrow> grown i w (kept rt i w (issued es out err)) (snd (run_child rt i es out err settled w))"
proof (induction es out err arbitrary: w settled rule: issued.induct)
  case (1 out err)
  then show ?case by (cases settled) (simp_all add: ret_def hang_def grown_refl)
next
  case (2 chunk es out err)
  obtain ls out' where b: "lb_write out chunk = (ls, out')" by fastforce
  have "grown i w1 (kept rt i w1 (issued es out' err)) (snd (run_child rt i es out' err settled w1))"
    if "watched i w1" for w1 by (rule 2(1)[OF b[symmetric] that])
  from log_lines_then[OF 2(2) info_level this, of ls] show ?case by (simp add: b)
next
  case (3 chunk es out err)
  obtain ls err' where b: "lb_write err chunk = (ls, err')" by fastforce
  have "grown i w1 (kept rt i w1 (issued es out err')) (snd (run_child rt i es out err' settled w1))"
    if "watched i w1" for w1 by (rule 3(1)[OF b[symmetric] that])
  from log_lines_then[OF 3(2) error_level this, of ls] show ?case by (simp add: b)
next
  case (4 es out err)
  obtain w1 where w1: "ignore_error (tick (Some i)) w = (Done (), w1)" "grown i w [] w1"
    using tick_grows[OF 4(2)] by blast
  have same: "clock w1 = clock w" "next_log_id (the_db w1) = next_log_id (the_db w)"
    using w1(2) by (simp_all add: grown_def)
  show ?case
    using grown_trans[OF w1(2) 4(1)[OF grown_watched[OF w1(2)]]] 4(1)[OF 4(2)]
    by (simp add: seq_def w1(1) same)
next
  case (5 code es out err)
  obtain ls out' where o: "lb_flush out = (ls, out')" by fastforce
  obtain ls' err' where e: "lb_flush err = (ls', err')" by fastforce
  have rest: "grown i w1 (kept rt i w1 (issued es out' err')) (snd (run_child rt i es out' err' s w1))"
    if "watched i w1" for w1 s by (rule 5(1)[OF refl o[symmetric] e[symmetric] that])
  show ?case
    unfolding run_child.simps issued.simps o e prod.case
    by (intro log_lines_then[OF 5(2) info_level] log_lines_then[OF _ error_level] rest)
next
  case (6 m es out err)
  obtain ls out' where o: "lb_flush out = (ls, out')" by fastforce
  obtain ls' err' where e: "lb_flush err = (ls', err')" by fastforce
  let ?m = "lit ''Execution error: '' @ m"
  have last: "grown i w1 (kept rt i w1 ((?m, lit ''error'') # issued es out' err'))
      (snd (seq (log_line rt i ?m (lit ''error'')) (\<lambda>_. run_child rt i es out' err' s) w1))"
    if w: "watched i w1" for w1 s
  proof -
    obtain w2 where w2: "log_line rt i ?m (lit ''error'') w1 = (Done (), w2)"
      "grown i w1 (kept rt i w1 [(?m, lit ''error'')]) w2"
      using log_line_grows[OF w error_level] by blast
    show ?thesis
      using grown_trans[OF w2(2) 6(1)[OF refl o[symmetric] e[symmetric] grown_watched[OF w2(2)]]]
        kept_later[OF w2(2), of "issued es out' err'"]
      by (simp add: seq_def w2(1))
  qed
  show ?case
    unfolding run_child.simps issued.simps o e prod.case
    by (intro log_lines_then[OF 6(2) info_level] log_lines_then[OF _ error_level] last)
qed

section \<open>The output on the watcher's screen\<close>

lemma exit_after_prints: "\<forall>e \<in> set es. prints e \<Longrightarrow>
    exit_of (es @ [Close code]) = Some (case code of None \<Rightarrow> 1 | Some n \<Rightarrow> n)"
proof (induction es)
  case Nil
  then show ?case by (cases code) simp_all
next
  case (Cons e es)
  then show ?case by (cases e) simp_all
qed

lemma watcher_receives:
  assumes "live c s" "s1 = streamJobLogs (uuid_text fmt i) s" "\<forall>r \<in> set rows. l_job_id r = i"
  shows "sub_received (last (subscribers (fold (deliver fmt) (map log_event_of rows) s1))) = map log_event_of rows"
proof -
  have "live c s1" "subject_done s = False"
    using assms(1,2) by (simp_all add: streamJobLogs_def live_def subscribe_def)
  moreover have "filter (\<lambda>r. uuid_text fmt (l_job_id r) = uuid_text fmt i) rows = rows"
    using assms(3) by (simp add: filter_id_conv)
  ultimately show ?thesis
    using delivers_live[of c s1 fmt "map log_event_of rows"]
    by (simp add: assms(2) streamJobLogs_def subscribe_def last_map sub_received_fold
        getLogStreamForJob_def sub_wants_def filter_map comp_def log_event_of_def)
qed

lemma two_levels:
  assumes "snd ` set xs \<subseteq> {a, b}" "a \<noteq> b"
    and "map fst (filter (\<lambda>x. snd x = a) xs) = as" "map fst (filter (\<lambda>x. snd x = b) xs) = bs"
  shows "fst ` set xs = set as \<union> set bs" "length xs = length as + length bs"
proof -
  show "fst ` set xs = set as \<union> set bs"
    unfolding assms(3,4)[symmetric] using assms(1) by (induction xs) auto
  have "length xs = length (filter (\<lambda>x. snd x = a) xs) + length (filter (\<lambda>x. snd x = b) xs)"
    using assms(1,2) by (induction xs) auto
  then show "length xs = length as + length bs"
    using assms(3,4) by (metis length_map)
qed

text \<open>
  Property C26.  The output of a job's command reaches whoever watches the job, while nothing
  interferes and the trigger on job_logs is there.  For every command that prints any chunks on
  both channels and then closes, with any heartbeats among them, the child ends with its exit
  code (1 if it was killed).  The lines the executor issues are, at level info, the lines of all
  it printed on stdout, however the chunks cut them, and at level error those of stderr, in the
  order of the chunks.  job_logs gets exactly the rows of \<open>kept_rows\<close>: a line is missing
  there if and only if it contains a zero character or the payload of its notification is 8000
  bytes or more.  A subscriber of the job with a live service is sent exactly the events of these
  rows, in this order.  If every line is \<open>ordinary\<close>, that is without a zero character and
  at most 7700 bytes long in the payload, where it is cut and escaped, none is missing.
\<close>

theorem output_streamed_live:
  assumes "script w = []" "i \<in> j_id ` set (jobs (the_db w))" "log_trigger (the_db w)"
    and "rt_child rt (clock w) command = es @ [Close code]" "\<forall>e \<in> set es. prints e"
    and "live c s" "s1 = streamJobLogs (uuid_text (rt_format rt) i) s"
    and "infos = text_lines (concat (stdout_of es))" "errors = text_lines (concat (stderr_of es))"
  shows "\<exists>w' s2 issue rows.
    spawn_child rt i command w = (Done (case code of None \<Rightarrow> 1 | Some n \<Rightarrow> n), w') \<and>
    map fst (filter (\<lambda>x. snd x = lit ''info'') issue) = infos \<and>
    map fst (filter (\<lambda>x. snd x = lit ''error'') issue) = errors \<and>
    snd ` set issue \<subseteq> {lit ''info'', lit ''error''} \<and>
    rows = kept_rows (rt_format rt) i (clock w) (next_log_id (the_db w)) issue \<and>
    job_logs (the_db w') = job_logs (the_db w) @ rows \<and>
    s2 = fold (deliver (rt_format rt)) (drop (length (notifications (the_db w))) (notifications (the_db w'))) s1 \<and>
    sub_received (last (subscribers s2)) = map log_event_of rows \<and>
    (format_ok (rt_format rt) \<and> next_log_id (the_db w) + length infos + length errors < 10 ^ 19 \<and>
     (\<forall>line \<in> set infos \<union> set errors. ordinary line) \<longrightarrow>
     map (\<lambda>r. (l_log_line r, l_log_level r)) rows = issue)"
proof -
  let ?issue = "issued (es @ [Close code]) [] []"
  let ?rows = "kept rt i w ?issue"
  let ?code = "case code of None \<Rightarrow> 1 | Some n \<Rightarrow> n"
  obtain w' where spawned: "spawn_child rt i command w = (Done ?code, w')"
    using run_child_outcome[of rt i "es @ [Close code]" "[]" "[]" None w] exit_after_prints[OF assms(5), of code]
    by (cases "spawn_child rt i command w") (simp add: spawn_child_def assms(4))
  have "watched i w" using assms(1-3) by (simp add: watched_def)
  from run_child_grows[OF this, of rt "es @ [Close code]" "[]" "[]" None] spawned
  have grown: "grown i w ?rows w'" by (simp add: spawn_child_def assms(4))
  let ?s2 = "fold (deliver (rt_format rt)) (drop (length (notifications (the_db w))) (notifications (the_db w'))) s1"
  have received: "sub_received (last (subscribers ?s2)) = map log_event_of ?rows"
    using watcher_receives[OF assms(6,7), of ?rows] kept_rows_job grown by (simp add: grown_def)
  have levels: "snd ` set ?issue \<subseteq> {lit ''info'', lit ''error''}"
    using issued_levels by (intro subsetI) blast
  note lines = issued_lines[OF assms(5), of code, folded assms(8,9)]
  have full: "map (\<lambda>r. (l_log_line r, l_log_level r)) ?rows = ?issue"
    if "format_ok (rt_format rt) \<and> next_log_id (the_db w) + length infos + length errors < 10 ^ 19 \<and>
      (\<forall>line \<in> set infos \<union> set errors. ordinary line)"
  proof (rule kept_ordinary)
    show "format_ok (rt_format rt)" using that by blast
    show "\<forall>x \<in> set ?issue. ordinary (fst x) \<and> snd x \<in> {lit ''info'', lit ''error''}"
      using that issued_levels two_levels(1)[OF levels distinct_levels lines] by blast
    show "next_log_id (the_db w) + length ?issue < 10 ^ 19"
      using that two_levels(2)[OF levels distinct_levels lines] by simp
  qed
  have stored: "job_logs (the_db w') = job_logs (the_db w) @ ?rows"
    using grown by (simp add: grown_def)
  show ?thesis
    by (intro exI[of _ w'] exI[of _ ?s2] exI[of _ ?issue] exI[of _ ?rows] conjI impI)
      (fact spawned lines levels refl stored received | erule full)+
qed

theorem output_streamed_live_witness:
  "let es = [Stdout (lit ''a'' @ [13]), Stderr [233, 34], Heartbeat_Due, Stdout (10 # lit ''b'')];
       rt = demo_runtime (es @ [Close (Some 3)]);
       w = demo_world [demo_job 2 0 Running];
       wt = w\<lparr>the_db := (the_db w)\<lparr>log_trigger := True\<rparr>\<rparr>;
       s1 = streamJobLogs (uuid_text (rt_format rt) 2) sample_service
   in \<exists>w' s2 issue rows.
    spawn_child rt 2 [] wt = (Done 3, w') \<and>
    map fst (filter (\<lambda>x. snd x = lit ''info'') issue) = [lit ''a'', lit ''b''] \<and>
    map fst (filter (\<lambda>x. snd x = lit ''error'') issue) = [[233, 34]] \<and>
    snd ` set issue \<subseteq> {lit ''info'', lit ''error''} \<and>
    rows = kept_rows (rt_format rt) 2 (clock wt) (next_log_id (the_db wt)) issue \<and>
    job_logs (the_db w') = job_logs (the_db wt) @ rows \<and>
    s2 = fold (deliver (rt_format rt)) (drop (length (notifications (the_db wt))) (notifications (the_db w'))) s1 \<and>
    sub_received (last (subscribers s2)) = map log_event_of rows \<and>
    map (\<lambda>r. (l_log_line r, l_log_level r)) rows = issue"
proof -
  let ?es = "[Stdout (lit ''a'' @ [13]), Stderr [233, 34], Heartbeat_Due, Stdout (10 # lit ''b'')]"
  let ?rt = "demo_runtime (?es @ [Close (Some 3)])"
  let ?w = "demo_world [demo_job 2 0 Running]"
  let ?wt = "?w\<lparr>the_db := (the_db ?w)\<lparr>log_trigger := True\<rparr>\<rparr>"
  have lines: "[lit ''a'', lit ''b''] = text_lines (concat (stdout_of ?es))"
    "[[233, 34]] = text_lines (concat (stderr_of ?es))"
    by (simp_all add: text_lines_def lit_def)
  have small: "format_ok (rt_format ?rt) \<and>
      next_log_id (the_db ?wt) + length [lit ''a'', lit ''b''] + length [[233, 34 :: nat]] < 10 ^ 19 \<and>
      (\<forall>line \<in> set [lit ''a'', lit ''b''] \<union> set [[233, 34]]. ordinary line)"
    by (simp add: demo_world_def demo_runtime_def empty_db_def format_ok_def plain_ascii_def lit_def
        ordinary_def line_trunc_def json_string_def escape_char_def byte_length_def utf8_width_def)
  show ?thesis
    unfolding Let_def
    using output_streamed_live[of ?wt 2 ?rt "[]" ?es "Some 3", OF _ _ _ _ _ sample_service_live refl lines] small
    by (simp add: demo_world_def demo_runtime_def demo_job_def)
qed

end
