(* ===== verification/Deploys.thy ===== *)
theory Deploys
  imports ExecFacts
begin

text \<open>
  Any number of workers deploying at the same time, over one database: the statements
  \<open>tryAcquire\<close> and \<open>release\<close> (src/src/locks/deployment-lock.service.ts) send around the command of
  a deploy job (\<open>execute\<close> in src/src/worker/job-executor.service.ts), interleaved in any order,
  with connections that break at any point.  Each deploy has its own session, a client of the
  pool; a session that is idle may be used by the next deploy.
\<close>

section \<open>Steps\<close>

text \<open>Where a deploy stands: between the lock and its row, at its command, before the unlock.\<close>

datatype deploy_pc =
    Idle
  | Acquired ustring "uuid option"
  | Deploying ustring "uuid option"
  | Unlocking ustring

text \<open>\<open>broken\<close>: the sessions whose connection is gone, which their workers have not noticed yet.\<close>

record deploys =
  dep_db :: db
  dep_pc :: "session \<Rightarrow> deploy_pc"
  broken :: "session set"

definition lock_key :: "(ustring \<Rightarrow> int) \<Rightarrow> ustring \<Rightarrow> int" where
  "lock_key hashtext env = hashtext (LOCK_PREFIX @ env)"

definition at_pc :: "session \<Rightarrow> deploy_pc \<Rightarrow> db \<Rightarrow> deploys \<Rightarrow> deploys" where
  "at_pc s pc d st = st\<lparr>dep_db := d, dep_pc := (dep_pc st)(s := pc)\<rparr>"

text \<open>
  \<open>Row_Refused\<close>: the INSERT fails, the client goes back to the pool as it is.  \<open>Give_Up\<close>: a
  statement, or the release, on a broken connection throws, and the worker leaves the deploy.
  \<open>Elsewhere\<close>: any statement that touches neither the advisory locks nor deployment_locks.
\<close>

inductive deploy_step :: "(ustring \<Rightarrow> int) \<Rightarrow> deploys \<Rightarrow> deploys \<Rightarrow> bool" for hashtext where
  Lock: "dep_pc st s = Idle \<Longrightarrow> s \<notin> broken st \<Longrightarrow>
    sql_try_lock s (lock_key hashtext env) now (dep_db st) = Inr (True, d) \<Longrightarrow>
    deploy_step hashtext st (at_pc s (Acquired env run) d st)"
| Lock_Busy: "dep_pc st s = Idle \<Longrightarrow> s \<notin> broken st \<Longrightarrow>
    sql_try_lock s (lock_key hashtext env) now (dep_db st) = Inr (False, d) \<Longrightarrow>
    deploy_step hashtext st (at_pc s Idle d st)"
| Row_Written: "dep_pc st s = Acquired env (Some r) \<Longrightarrow> s \<notin> broken st \<Longrightarrow>
    sql_insert_deployment_lock env r now (dep_db st) = Inr ((), d) \<Longrightarrow>
    deploy_step hashtext st (at_pc s (Deploying env (Some r)) d st)"
| Row_Refused: "dep_pc st s = Acquired env (Some r) \<Longrightarrow> s \<notin> broken st \<Longrightarrow>
    sql_insert_deployment_lock env r now (dep_db st) = Inl e \<Longrightarrow>
    deploy_step hashtext st (at_pc s Idle (dep_db st) st)"
| No_Row: "dep_pc st s = Acquired env None \<Longrightarrow>
    deploy_step hashtext st (at_pc s (Deploying env None) (dep_db st) st)"
| Row_Deleted: "dep_pc st s = Deploying env run \<Longrightarrow> s \<notin> broken st \<Longrightarrow>
    sql_delete_deployment_lock env now (dep_db st) = Inr ((), d) \<Longrightarrow>
    deploy_step hashtext st (at_pc s (Unlocking env) d st)"
| Unlocked: "dep_pc st s = Unlocking env \<Longrightarrow> s \<notin> broken st \<Longrightarrow>
    sql_unlock s (lock_key hashtext env) now (dep_db st) = Inr ((), d) \<Longrightarrow>
    deploy_step hashtext st (at_pc s Idle d st)"
| Break: "deploy_step hashtext st
    (st\<lparr>dep_db := (dep_db st)\<lparr>advisory := close_session s (advisory (dep_db st))\<rparr>,
        broken := insert s (broken st)\<rparr>)"
| Give_Up: "s \<in> broken st \<Longrightarrow>
    deploy_step hashtext st ((at_pc s Idle (dep_db st) st)\<lparr>broken := broken st - {s}\<rparr>)"
| Elsewhere: "advisory d = advisory (dep_db st) \<Longrightarrow>
    deployment_locks d = deployment_locks (dep_db st) \<Longrightarrow>
    deploy_step hashtext st (st\<lparr>dep_db := d\<rparr>)"

text \<open>No deploy under way, and nobody holds a lock.\<close>

definition no_deploys :: "db \<Rightarrow> deploys" where
  "no_deploys d = \<lparr>dep_db = d, dep_pc = (\<lambda>_. Idle), broken = {}\<rparr>"

inductive deploys_reach :: "(ustring \<Rightarrow> int) \<Rightarrow> deploys \<Rightarrow> bool" for hashtext where
  Start: "advisory d = [] \<Longrightarrow> distinct (map dl_environment (deployment_locks d)) \<Longrightarrow>
    deploys_reach hashtext (no_deploys d)"
| Next: "deploys_reach hashtext st \<Longrightarrow> deploy_step hashtext st st' \<Longrightarrow> deploys_reach hashtext st'"

section \<open>The invariant\<close>

fun env_of :: "deploy_pc \<Rightarrow> ustring option" where
  "env_of Idle = None"
| "env_of (Acquired env run) = Some env"
| "env_of (Deploying env run) = Some env"
| "env_of (Unlocking env) = Some env"

text \<open>
  Who is between lock and unlock holds the lock, and while its command runs the row of the
  environment names its run.
\<close>

definition deploys_ok :: "(ustring \<Rightarrow> int) \<Rightarrow> deploys \<Rightarrow> bool" where
  "deploys_ok hashtext st \<longleftrightarrow> al.exclusive (advisory (dep_db st)) \<and>
     distinct (map dl_environment (deployment_locks (dep_db st))) \<and>
     (\<forall>s env. s \<notin> broken st \<longrightarrow> env_of (dep_pc st s) = Some env \<longrightarrow>
        holds_lock (advisory (dep_db st)) s (lock_key hashtext env)) \<and>
     (\<forall>s env r. s \<notin> broken st \<longrightarrow> dep_pc st s = Deploying env (Some r) \<longrightarrow>
        (\<exists>l \<in> set (deployment_locks (dep_db st)). dl_environment l = env \<and> dl_locked_by l = Some r))"

lemma deploys_okD:
  assumes "deploys_ok hashtext st"
  shows "al.exclusive (advisory (dep_db st))"
    "s \<notin> broken st \<Longrightarrow> env_of (dep_pc st s) = Some env \<Longrightarrow>
       holds_lock (advisory (dep_db st)) s (lock_key hashtext env)"
    "s \<notin> broken st \<Longrightarrow> dep_pc st s = Deploying env (Some r) \<Longrightarrow>
       \<exists>l \<in> set (deployment_locks (dep_db st)). dl_environment l = env \<and> dl_locked_by l = Some r"
    "distinct (map dl_environment (deployment_locks (dep_db st)))"
  using assms by (auto simp: deploys_ok_def)

text \<open>Two deploys of an environment between lock and unlock are one.\<close>

lemma one_deploy:
  assumes "deploys_ok hashtext st" "s \<notin> broken st" "t \<notin> broken st"
    and "env_of (dep_pc st s) = Some env" "env_of (dep_pc st t) = Some env"
  shows "s = t"
  using deploys_okD(1,2)[OF assms(1)] assms(2-5) unfolding al.exclusive_def by blast

text \<open>What the statements do to locks and rows.\<close>

lemma lock_frame:
  assumes "sql_try_lock s k now d = Inr (b, d')"
  shows "pg_try_advisory_lock s k (advisory d) = (b, advisory d')"
    "deployment_locks d' = deployment_locks d"
  using assms by (auto simp: sql_try_lock_def split: prod.splits)

lemma row_frame:
  assumes "sql_insert_deployment_lock env r now d = Inr ((), d')"
  shows "advisory d' = advisory d"
    "\<exists>l \<in> set (deployment_locks d'). dl_environment l = env \<and> dl_locked_by l = Some r"
    "l \<in> set (deployment_locks d) \<Longrightarrow> dl_environment l \<noteq> env \<Longrightarrow> l \<in> set (deployment_locks d')"
    "distinct (map dl_environment (deployment_locks d)) \<Longrightarrow> distinct (map dl_environment (deployment_locks d'))"
proof -
  let ?row = "\<lparr>dl_environment = env, dl_locked_by = Some r, dl_locked_at = now, dl_expires_at = None\<rparr>"
  have "?row \<in> set (deployment_locks d')"
    using assms by (force simp: sql_insert_deployment_lock_def Let_def update_where_def split: if_splits)
  then show "\<exists>l \<in> set (deployment_locks d'). dl_environment l = env \<and> dl_locked_by l = Some r"
    by (rule rev_bexI) simp
  show "advisory d' = advisory d"
    "l \<in> set (deployment_locks d) \<Longrightarrow> dl_environment l \<noteq> env \<Longrightarrow> l \<in> set (deployment_locks d')"
    using assms
    by (auto simp: sql_insert_deployment_lock_def Let_def update_where_def image_iff split: if_splits)
  have "map dl_environment (update_where (\<lambda>l. dl_environment l = env) (\<lambda>_. ?row) ls) = map dl_environment ls" for ls
    by (simp add: update_where_def)
  then show "distinct (map dl_environment (deployment_locks d'))" if "distinct (map dl_environment (deployment_locks d))"
    using assms that by (auto simp: sql_insert_deployment_lock_def Let_def split: if_splits)
qed

lemma deploys_ok_at:
  assumes ok: "deploys_ok hashtext st" and s: "s \<notin> broken st"
    and ex: "al.exclusive (advisory d)" and ks: "distinct (map dl_environment (deployment_locks d))"
    and mine: "\<And>env. env_of pc = Some env \<Longrightarrow> holds_lock (advisory d) s (lock_key hashtext env)"
    and held: "\<And>t env. t \<noteq> s \<Longrightarrow> holds_lock (advisory (dep_db st)) t (lock_key hashtext env) \<Longrightarrow>
        holds_lock (advisory d) t (lock_key hashtext env)"
    and row: "\<And>env r. pc = Deploying env (Some r) \<Longrightarrow>
        \<exists>l \<in> set (deployment_locks d). dl_environment l = env \<and> dl_locked_by l = Some r"
    and rows: "\<And>t env r. t \<noteq> s \<Longrightarrow> t \<notin> broken st \<Longrightarrow> dep_pc st t = Deploying env (Some r) \<Longrightarrow>
        \<exists>l \<in> set (deployment_locks d). dl_environment l = env \<and> dl_locked_by l = Some r"
  shows "deploys_ok hashtext (at_pc s pc d st)"
  unfolding deploys_ok_def at_pc_def
  using ex ks mine held row rows deploys_okD(2)[OF ok] by auto

text \<open>The statements on rows leave the rows of other deploys alone, which are for other environments.\<close>

lemma row_written_ok:
  assumes "deploys_ok hashtext st" "dep_pc st s = Acquired env (Some r)" "s \<notin> broken st"
    and "sql_insert_deployment_lock env r now (dep_db st) = Inr ((), d)"
  shows "deploys_ok hashtext (at_pc s (Deploying env (Some r)) d st)"
proof (rule deploys_ok_at[OF assms(1,3)])
  note rf = row_frame[OF assms(4)]
  fix t env' r' assume t: "t \<noteq> s" "t \<notin> broken st" "dep_pc st t = Deploying env' (Some r')"
  then have "env' \<noteq> env" using one_deploy[OF assms(1,3) t(2), of env] assms(2) by auto
  with deploys_okD(3)[OF assms(1) t(2,3)] rf(3)
  show "\<exists>l \<in> set (deployment_locks d). dl_environment l = env' \<and> dl_locked_by l = Some r'" by metis
qed (use deploys_okD(1,2,4)[OF assms(1)] assms(2,3) row_frame[OF assms(4)] in auto)

lemma row_deleted_ok:
  assumes "deploys_ok hashtext st" "dep_pc st s = Deploying env run" "s \<notin> broken st"
    and "sql_delete_deployment_lock env now (dep_db st) = Inr ((), d)"
  shows "deploys_ok hashtext (at_pc s (Unlocking env) d st)"
proof -
  have d: "advisory d = advisory (dep_db st)"
    "deployment_locks d = delete_where (\<lambda>l. dl_environment l = env) (deployment_locks (dep_db st))"
    using assms(4) by (auto simp: sql_delete_deployment_lock_def)
  show ?thesis
  proof (rule deploys_ok_at[OF assms(1,3)])
    fix t env' r' assume t: "t \<noteq> s" "t \<notin> broken st" "dep_pc st t = Deploying env' (Some r')"
    then have "env' \<noteq> env" using one_deploy[OF assms(1,3) t(2), of env] assms(2) by auto
    with deploys_okD(3)[OF assms(1) t(2,3)]
    show "\<exists>l \<in> set (deployment_locks d). dl_environment l = env' \<and> dl_locked_by l = Some r'"
      by (auto simp: d(2) delete_where_def)
  next
    show "distinct (map dl_environment (deployment_locks d))"
      using deploys_okD(4)[OF assms(1)] by (simp add: d(2) delete_where_def distinct_map_filter)
  qed (use deploys_okD(1,2,4)[OF assms(1)] assms(2,3) d(1) in auto)
qed

lemma deploy_step_ok:
  assumes "deploy_step hashtext st st'" "deploys_ok hashtext st"
  shows "deploys_ok hashtext st'"
  using assms
proof (induction rule: deploy_step.induct)
  case (Lock st s env now d run)
  note ok = Lock.prems and lf = lock_frame[OF Lock.hyps(3)]
  note g = al.granted[OF lf(1)]
  show ?case
    by (rule deploys_ok_at[OF ok Lock.hyps(2)])
      (use g al.try_exclusive[OF deploys_okD(1)[OF ok] lf(1)] deploys_okD(3,4)[OF ok] lf(2) in auto)
next
  case (Lock_Busy st s env now d)
  note ok = Lock_Busy.prems and lf = lock_frame[OF Lock_Busy.hyps(3)]
  have "advisory d = advisory (dep_db st)" using al.refused[OF lf(1)] by simp
  then show ?case
    by (intro deploys_ok_at[OF ok Lock_Busy.hyps(2)])
      (use deploys_okD[OF ok] lf(2) in auto)
next
  case (Row_Written st s env r now d)
  then show ?case by (intro row_written_ok)
next
  case (Row_Refused st s env r now e)
  then show ?case by (intro deploys_ok_at) (auto simp: deploys_ok_def)
next
  case (No_Row st s env)
  then show ?case by (auto simp: deploys_ok_def at_pc_def)
next
  case (Row_Deleted st s env run now d)
  then show ?case by (intro row_deleted_ok)
next
  case (Unlocked st s env now d)
  note ok = Unlocked.prems and h = Unlocked.hyps
  have d: "advisory d = pg_advisory_unlock s (lock_key hashtext env) (advisory (dep_db st))"
    "deployment_locks d = deployment_locks (dep_db st)"
    using h(3) by (auto simp: sql_unlock_def)
  show ?case
    by (rule deploys_ok_at[OF ok h(2)])
      (use al.unlock_exclusive[OF deploys_okD(1)[OF ok]] al.unlock_frame deploys_okD(3,4)[OF ok] d in auto)
next
  case (Break st s)
  then show ?case
    using al.close_exclusive[OF deploys_okD(1)[OF Break]] deploys_okD(2,3,4)[OF Break]
    by (auto simp: deploys_ok_def al.close_holds)
next
  case (Give_Up s st)
  then show ?case by (auto simp: deploys_ok_def at_pc_def)
next
  case (Elsewhere d st)
  then show ?case by (simp add: deploys_ok_def)
qed

lemma deploys_reach_ok: "deploys_reach hashtext st \<Longrightarrow> deploys_ok hashtext st"
proof (induction rule: deploys_reach.induct)
  case (Start d)
  then show ?case by (simp add: deploys_ok_def no_deploys_def al.exclusive_def holds_lock_def)
next
  case (Next st st')
  then show ?case by (blast intro: deploy_step_ok)
qed


section \<open>The executor moves along these steps\<close>

abbreviation deploy_steps :: "(ustring \<Rightarrow> int) \<Rightarrow> deploys \<Rightarrow> deploys \<Rightarrow> bool" where
  "deploy_steps hashtext \<equiv> (deploy_step hashtext)\<^sup>*\<^sup>*"

lemma two_steps: "deploy_step h a b \<Longrightarrow> deploy_step h b c \<Longrightarrow> deploy_steps h a c"
  by (rule rtranclp.rtrancl_into_rtrancl[OF r_into_rtranclp])

lemma reach_steps: "deploy_steps h st st' \<Longrightarrow> deploys_reach h st \<Longrightarrow> deploys_reach h st'"
  by (induction rule: rtranclp_induct) (auto intro: Next)

text \<open>Where \<open>tryAcquire\<close> leaves its session.\<close>

fun acquired_pc :: "ustring \<Rightarrow> uuid option \<Rightarrow> acquire_result outcome \<Rightarrow> deploy_pc" where
  "acquired_pc env run (Done r) = (if acquired r then Deploying env run else Idle)"
| "acquired_pc env run (Threw e) = Idle"
| "acquired_pc env run Hangs = Idle"

lemma acquire_steps:
  assumes q: "script w = []" and d: "dep_db st = the_db w" and pc: "dep_pc st s = Idle"
    and up: "s \<notin> broken st" and t: "tryAcquire h s env run w = (res, w1)"
  shows "\<exists>st1. deploy_steps h st st1 \<and> dep_db st1 = the_db w1 \<and> broken st1 = broken st \<and>
    dep_pc st1 = (dep_pc st)(s := acquired_pc env run res)"
proof -
  let ?k = "h (LOCK_PREFIX @ env)"
  let ?d1 = "(the_db w)\<lparr>advisory := (s, ?k) # advisory (the_db w)\<rparr>"
  let ?st1 = "at_pc s (Acquired env run) ?d1 st"
  show ?thesis
  proof (cases "fst (pg_try_advisory_lock s ?k (advisory (the_db w)))")
    case False
    then have l: "sql_try_lock s (lock_key h env) (clock w) (dep_db st) = Inr (False, the_db w)"
      by (simp add: sql_try_lock_def pg_try_advisory_lock_def lock_key_def d split: if_splits)
    have r: "acquired_pc env run res = Idle" "the_db w1 = the_db w"
      using t False by (auto simp: tryAcquire_quiet[OF q] Let_def)
    show ?thesis
      using Lock_Busy[OF pc up l] by (intro exI[of _ "at_pc s Idle (the_db w) st"]) (simp add: at_pc_def r)
  next
    case True
    then have "sql_try_lock s (lock_key h env) (clock w) (dep_db st) = Inr (True, ?d1)"
      by (simp add: sql_try_lock_def pg_try_advisory_lock_def lock_key_def d split: if_splits)
    from Lock[OF pc up this] have l: "deploy_step h st ?st1" .
    have s1: "dep_pc ?st1 s = Acquired env run" "s \<notin> broken ?st1" "dep_db ?st1 = ?d1"
      using up by (simp_all add: at_pc_def)
    show ?thesis
    proof (cases run)
      case None
      with t True have r: "acquired_pc env run res = Deploying env run" "the_db w1 = ?d1"
        by (auto simp: tryAcquire_quiet[OF q] Let_def)
      from two_steps[OF l No_Row[of ?st1 s env]] s1 None show ?thesis
        by (intro exI[of _ "at_pc s (Deploying env None) ?d1 ?st1"]) (simp add: at_pc_def r[unfolded None] None)
    next
      case (Some i)
      show ?thesis
      proof (cases "sql_insert_deployment_lock env i (clock w) ?d1")
        case (Inl e)
        with t True Some have r: "acquired_pc env run res = Idle" "the_db w1 = ?d1"
          by (auto simp: tryAcquire_quiet[OF q] Let_def)
        from two_steps[OF l Row_Refused[of ?st1 s env i "clock w" e]] s1 Some Inl show ?thesis
          by (intro exI[of _ "at_pc s Idle ?d1 ?st1"]) (simp add: at_pc_def r[unfolded Some])
      next
        case (Inr x)
        then obtain d2 where x: "sql_insert_deployment_lock env i (clock w) ?d1 = Inr ((), d2)"
          by (cases x) simp
        with t True Some have r: "acquired_pc env run res = Deploying env run" "the_db w1 = d2"
          by (auto simp: tryAcquire_quiet[OF q] Let_def)
        from two_steps[OF l Row_Written[of ?st1 s env i "clock w" d2]] s1 Some x show ?thesis
          by (intro exI[of _ "at_pc s (Deploying env run) d2 ?st1"]) (simp add: at_pc_def r[unfolded Some])
      qed
    qed
  qed
qed

lemma release_steps:
  assumes q: "script w = []" and d: "dep_db st = the_db w" and pc: "dep_pc st s = Deploying env run"
    and up: "s \<notin> broken st"
  shows "\<exists>w' st'. run_release h (Release s env) w = (Done (), w') \<and> deploy_steps h st st' \<and>
    dep_db st' = the_db w' \<and> broken st' = broken st \<and> dep_pc st' = (dep_pc st)(s := Idle)"
proof -
  let ?d1 = "(the_db w)\<lparr>deployment_locks :=
      delete_where (\<lambda>l. dl_environment l = env) (deployment_locks (the_db w))\<rparr>"
  let ?d2 = "?d1\<lparr>advisory := pg_advisory_unlock s (lock_key h env) (advisory ?d1)\<rparr>"
  let ?st1 = "at_pc s (Unlocking env) ?d1 st"
  have "deploy_step h st ?st1"
    by (rule Row_Deleted[OF pc up, of "clock w"]) (simp add: d sql_delete_deployment_lock_def)
  moreover have "deploy_step h ?st1 (at_pc s Idle ?d2 ?st1)"
    by (rule Unlocked[where env = env and now = "clock w"]) (simp_all add: at_pc_def up sql_unlock_def)
  ultimately have "deploy_steps h st (at_pc s Idle ?d2 ?st1)" by (rule two_steps)
  then show ?thesis
    unfolding run_release_quiet[OF q] by (force simp: at_pc_def lock_key_def)
qed

text \<open>What the command does between leaves locks and rows alone.\<close>

definition locks_same :: "world \<Rightarrow> world \<Rightarrow> bool" where
  "locks_same w0 w \<longleftrightarrow> script w = [] \<and> advisory (the_db w) = advisory (the_db w0) \<and>
     deployment_locks (the_db w) = deployment_locks (the_db w0)"

lemma stays_locks_append: "stays (locks_same w0) (appendLog fmt i line lvl)"
  unfolding appendLog_def
  by (intro stays_intros stays_query)
    (auto simp: locks_same_def sql_insert_job_log_def pg_notify_def Let_def split: if_splits)

lemma stays_locks_tick: "stays (locks_same w0) (ignore_error (tick i))"
  unfolding tick_def updateHeartbeat_def
  by (intro stays_intros stays_query)
    (auto simp: locks_same_def sql_update_heartbeat_def update_jobs_def frame_simps)

lemma stays_locks_lines: "stays (locks_same w0) (log_line rt i line lvl)"
    "stays (locks_same w0) (log_lines rt i lvl ls)"
proof -
  show *: "stays (locks_same w0) (log_line rt i line lvl)" for line
    unfolding log_line_def by (intro stays_intros stays_locks_append)
  show "stays (locks_same w0) (log_lines rt i lvl ls)"
    by (induction ls) (auto intro!: stays_intros *)
qed

lemma stays_locks_child: "stays (locks_same w0) (run_child rt i es out err settled)"
  by (induction rt i es out err settled rule: run_child.induct)
    (auto intro!: stays_intros stays_locks_lines stays_locks_tick split: prod.split option.split)

lemma stays_locks_command: "stays (locks_same w0) (run_command rt i command workerId)"
proof -
  have "stays (locks_same w0) (spawn_child rt i command)"
    using stays_locks_child by (simp add: stays_def spawn_child_def)
  then show ?thesis unfolding run_command_def by (intro stays_intros stays_locks_append)
qed

lemma elsewhere_step:
  assumes "dep_db st = the_db w" "locks_same w w'"
  shows "deploy_step h st (st\<lparr>dep_db := the_db w'\<rparr>)"
  by (rule Elsewhere) (use assms in \<open>simp_all add: locks_same_def\<close>)


lemma acquire_ends:
  assumes "script w = []" "tryAcquire h s env run w = (res, w1)"
  shows "res \<noteq> Hangs" "script w1 = []"
  using assms by (auto simp: tryAcquire_quiet Let_def split: if_splits option.splits sum.splits)

lemma locks_same_refl: "script w = [] \<Longrightarrow> locks_same w w"
  by (simp add: locks_same_def)

text \<open>The two ways an acquisition that did not throw goes on.\<close>

lemma busy_ends:
  assumes "script w1 = []" "seq (appendLog fmt i line lvl) (\<lambda>_. ret c) w1 = (x, w')"
  shows "locks_same w1 w'" "x \<noteq> Hangs"
proof -
  have "stays (locks_same w1) (seq (appendLog fmt i line lvl) (\<lambda>_. ret c))"
    by (intro stays_intros stays_locks_append)
  from staysD[of "locks_same w1", OF this locks_same_refl[OF assms(1)] assms(2)]
  show "locks_same w1 w'" .
  show "x \<noteq> Hangs"
    using assms(2) append_not_hangs by (auto simp: seq_def ret_def split: prod.splits outcome.splits)
qed

lemma held_steps:
  assumes "script w1 = []" "dep_db st = the_db w1" "dep_pc st s = Deploying env run" "s \<notin> broken st"
    and "stays (locks_same w1) m" "try_finally m (run_release h (Release s env)) w1 = (x, w')"
  shows "\<exists>st'. deploy_steps h st st' \<and> dep_db st' = the_db w' \<and> broken st' = broken st \<and>
    dep_pc st' = (dep_pc st)(s := if x = Hangs then Deploying env run else Idle)"
proof -
  obtain y w2 where m: "m w1 = (y, w2)" by fastforce
  have l: "locks_same w1 w2"
    by (rule staysD[of "locks_same w1", OF assms(5) locks_same_refl[OF assms(1)] m])
  let ?st2 = "st\<lparr>dep_db := the_db w2\<rparr>"
  have st2: "deploy_step h st ?st2" by (rule elsewhere_step[OF assms(2) l])
  have "script w2 = []" using l by (simp add: locks_same_def)
  from release_steps[OF this, of ?st2 s env run h] assms(3,4) obtain w3 st3 where
    rel: "run_release h (Release s env) w2 = (Done (), w3)" and
    st3: "deploy_steps h ?st2 st3" "dep_db st3 = the_db w3" "broken st3 = broken st"
      "dep_pc st3 = (dep_pc st)(s := Idle)" by auto
  show ?thesis
  proof (cases "y = Hangs")
    case True
    then have "x = Hangs \<and> w' = w2" using assms(6) m by (simp add: try_finally_def)
    with st2 assms(3) show ?thesis by (intro exI[of _ ?st2]) auto
  next
    case False
    then have "x = y \<and> w' = w3"
      using assms(6) m rel
      by (cases y) (simp_all add: try_finally_def seq_def ret_def throw_def del: run_release.simps)
    with converse_rtranclp_into_rtranclp[of "deploy_step h", OF st2 st3(1)] st3 False show ?thesis
      by (intro exI[of _ st3]) simp
  qed
qed

text \<open>A job that is no deploy leaves the locks alone.\<close>

lemma plain_job_steps:
  assumes "script w = []" "dep_db st = the_db w" "execute rt job workerId w = (x, w')"
    and "jo_id job = None \<or> jo_stage job \<noteq> lit ''deploy''"
  shows "deploy_steps h st (st\<lparr>dep_db := the_db w'\<rparr>)" "\<not> (x = Hangs \<and> jo_stage job = lit ''deploy'')"
proof -
  have "locks_same w w'"
    using staysD[OF stays_locks_command locks_same_refl[OF assms(1)]] assms(3,4)
      locks_same_refl[OF assms(1)]
    by (cases "jo_id job") (auto simp: execute_def ret_def)
  then show "deploy_steps h st (st\<lparr>dep_db := the_db w'\<rparr>)"
    using elsewhere_step[OF assms(2)] by blast
  show "\<not> (x = Hangs \<and> jo_stage job = lit ''deploy'')"
    using assms(3,4) by (auto simp: execute_def ret_def)
qed

text \<open>A deploy that got its lock: its command, and the release on every way out.\<close>

lemma granted_steps:
  assumes "script w = []" "tryAcquire h s env run w = (Done r, w1)" "acquired r" "script w1 = []"
    and "dep_db st1 = the_db w1" "dep_pc st1 s = Deploying env run" "s \<notin> broken st1"
    and "try_finally (seq (appendLog (rt_format rt) (Some i) msg lvl) (\<lambda>_. run_command rt i command workerId))
      (run_release h (release r)) w1 = (x, w')"
  shows "\<exists>st'. deploy_steps h st1 st' \<and> dep_db st' = the_db w' \<and> broken st' = broken st1 \<and>
    dep_pc st' = (dep_pc st1)(s := if x = Hangs then Deploying env run else Idle)"
proof -
  have r: "release r = Release s env"
    using tryAcquire_granted(2)[OF assms(1-3)] by simp
  have "stays (locks_same w1) (seq (appendLog (rt_format rt) (Some i) msg lvl)
      (\<lambda>_. run_command rt i command workerId))"
    by (intro stays_intros stays_locks_append stays_locks_command)
  from held_steps[OF assms(4-7) this assms(8)[unfolded r]] show ?thesis .
qed

text \<open>
  Property C20.  Executing a job, with nothing interfering, is a path of these steps, from an
  idle session to an idle session, for every job, every outcome of the acquisition, every
  behaviour of the command, and also when the logs cannot be written; only a command that
  never ends leaves its session deploying.
\<close>

theorem execute_deploys:
  assumes "script w = []" "dep_db st = the_db w" "s = rt_session rt"
    and "dep_pc st s = Idle" "s \<notin> broken st" "execute rt job workerId w = (x, w')"
  shows "\<exists>st'. deploy_steps (rt_hashtext rt) st st' \<and> dep_db st' = the_db w' \<and> broken st' = broken st \<and>
    dep_pc st' = (dep_pc st)(s := if x = Hangs \<and> jo_stage job = lit ''deploy''
      then Deploying (guessDeployEnvironment (jo_command job)) (jo_pipeline_run_id job) else Idle)"
proof (cases "jo_id job = None \<or> jo_stage job \<noteq> lit ''deploy''")
  case True
  from plain_job_steps[OF assms(1,2,6) True] assms(4) show ?thesis
    by (intro exI[of _ "st\<lparr>dep_db := the_db w'\<rparr>"]) auto
next
  case False
  let ?h = "rt_hashtext rt" and ?env = "guessDeployEnvironment (jo_command job)"
  let ?run = "jo_pipeline_run_id job"
  from False obtain i where i: "jo_id job = Some i" and dep: "jo_stage job = lit ''deploy''" by auto
  obtain res w1 where t: "tryAcquire ?h s ?env ?run w = (res, w1)" by fastforce
  note q1 = acquire_ends[OF assms(1) t]
  from acquire_steps[OF assms(1,2,4,5) t] obtain st1 where
    st1: "deploy_steps ?h st st1" "dep_db st1 = the_db w1" "broken st1 = broken st"
      "dep_pc st1 = (dep_pc st)(s := acquired_pc ?env ?run res)" by blast
  note ex = assms(6)[unfolded execute_def i option.case Let_def dep if_P[OF refl] assms(3)[symmetric]]
  show ?thesis
  proof (cases res)
    case Hangs
    with q1(1) show ?thesis by simp
  next
    case (Threw e)
    with ex t have "x = Threw e \<and> w' = w1" by (simp add: seq_def)
    with st1 Threw show ?thesis by auto
  next
    case (Done r)
    note go = ex[unfolded seq_done[of "tryAcquire ?h s ?env ?run", OF t[unfolded Done]]]
    show ?thesis
    proof (cases "acquired r")
      case False
      note b = busy_ends[OF q1(2) go[unfolded if_P[OF False]]]
      show ?thesis
        using rtranclp.rtrancl_into_rtrancl[of "deploy_step ?h", OF st1(1) elsewhere_step[OF st1(2) b(1)]]
          st1 b(2) Done False
        by (intro exI[of _ "st1\<lparr>dep_db := the_db w'\<rparr>"]) auto
    next
      case True
      have nn: "(\<not> acquired r) = False" using True by simp
      from granted_steps[OF assms(1) t[unfolded Done] True q1(2) st1(2) _ _ go[unfolded nn if_False]] st1 Done True assms(5)
      obtain st' where "deploy_steps ?h st1 st'" "dep_db st' = the_db w'" "broken st' = broken st"
        "dep_pc st' = (dep_pc st)(s := if x = Hangs then Deploying ?env ?run else Idle)" by auto
      with rtranclp_trans[OF st1(1)] dep show ?thesis by (intro exI[of _ st']) simp
    qed
  qed
qed

theorem execute_deploys_witness:
  "let rt = demo_runtime [Stdout (lit ''ok''), Close (Some 3)]; w = demo_world [demo_job 2 0 Running]
   in \<exists>st'. deploy_steps (rt_hashtext rt) (no_deploys (the_db w)) st' \<and>
        dep_db st' = the_db (snd (execute rt demo_deploy (lit ''w'') w)) \<and> broken st' = {} \<and>
        dep_pc st' = (\<lambda>_. Idle)(rt_session rt :=
          if fst (execute rt demo_deploy (lit ''w'') w) = Hangs \<and> jo_stage demo_deploy = lit ''deploy''
          then Deploying (guessDeployEnvironment (jo_command demo_deploy)) (jo_pipeline_run_id demo_deploy)
          else Idle)"
proof -
  let ?rt = "demo_runtime [Stdout (lit ''ok''), Close (Some 3)]" and ?w = "demo_world [demo_job 2 0 Running]"
  have "script ?w = []" "dep_db (no_deploys (the_db ?w)) = the_db ?w"
    "dep_pc (no_deploys (the_db ?w)) (rt_session ?rt) = Idle"
    "rt_session ?rt \<notin> broken (no_deploys (the_db ?w))"
    by (simp_all add: demo_world_def no_deploys_def)
  from execute_deploys[OF this(1,2) refl this(3,4) prod.collapse[symmetric], of demo_deploy "lit ''w''"]
  show ?thesis unfolding Let_def by (simp add: no_deploys_def)
qed

section \<open>One deploy per environment\<close>

lemma row_names_run:
  assumes "deploys_ok hashtext st" "s \<notin> broken st" "dep_pc st s = Deploying env (Some r)"
  shows "map dl_locked_by (filter (\<lambda>l. dl_environment l = env) (deployment_locks (dep_db st))) = [Some r]"
proof -
  from deploys_okD(3)[OF assms] obtain l where
    l: "l \<in> set (deployment_locks (dep_db st))" "dl_environment l = env" "dl_locked_by l = Some r" by blast
  have "filter (\<lambda>l. dl_environment l = env) ls = [l]"
    if "l \<in> set ls" "distinct (map dl_environment ls)" for ls
    using that l(2) by (induction ls) (auto simp: filter_empty_conv image_iff)
  with l deploys_okD(4)[OF assms(1)] show ?thesis by simp
qed

definition quiet_world :: "db \<Rightarrow> world" where
  "quiet_world d = \<lparr>the_db = d, clock = 0, aborted = False, clients = {}, script = []\<rparr>"

text \<open>With no other holder, a session comes to its command.\<close>

lemma reach_deploying:
  assumes "deploys_reach h st" "dep_pc st s = Idle" "s \<notin> broken st"
    and "fst (pg_try_advisory_lock s (h (LOCK_PREFIX @ env)) (advisory (dep_db st)))"
    and "r \<in> r_id ` set (pipeline_runs (dep_db st))" "length env \<le> 100"
  shows "\<exists>st1. deploys_reach h st1 \<and> broken st1 = broken st \<and>
    dep_pc st1 = (dep_pc st)(s := Deploying env (Some r)) \<and>
    pipeline_runs (dep_db st1) = pipeline_runs (dep_db st) \<and>
    advisory (dep_db st1) = (s, h (LOCK_PREFIX @ env)) # advisory (dep_db st)"
proof -
  let ?w = "quiet_world (dep_db st)"
  have q: "script ?w = []" "dep_db st = the_db ?w" by (simp_all add: quiet_world_def)
  have "\<exists>w1. tryAcquire h s env (Some r) ?w = (Done \<lparr>acquired = True, release = Release s env\<rparr>, w1) \<and>
      pipeline_runs (the_db w1) = pipeline_runs (dep_db st) \<and>
      advisory (the_db w1) = (s, h (LOCK_PREFIX @ env)) # advisory (dep_db st)"
    unfolding tryAcquire_quiet[OF q(1)] using assms(4-6) q(2)
    by (auto simp: Let_def sql_insert_deployment_lock_def)
  then obtain w1 where w1: "tryAcquire h s env (Some r) ?w =
      (Done \<lparr>acquired = True, release = Release s env\<rparr>, w1)"
    "pipeline_runs (the_db w1) = pipeline_runs (dep_db st)"
    "advisory (the_db w1) = (s, h (LOCK_PREFIX @ env)) # advisory (dep_db st)" by blast
  from acquire_steps[OF q assms(2,3) w1(1)] obtain st1 where
    "deploy_steps h st st1" "dep_db st1 = the_db w1" "broken st1 = broken st"
    "dep_pc st1 = (dep_pc st)(s := Deploying env (Some r))" by auto
  with w1 reach_steps[OF _ assms(1)] show ?thesis by (intro exI[of _ st1]) auto
qed

text \<open>
  Property C19.  However many workers deploy at the same time, whatever their statements
  interleave with and whichever connections break: of the sessions whose connection stands,
  at most one is between lock and unlock of an environment; while its command runs, the one
  row of deployment_locks for the environment names its run; and any other session that asks
  for the environment is refused.
\<close>

theorem deploys_exclusive:
  assumes "deploys_reach hashtext st" "s \<notin> broken st" "env_of (dep_pc st s) = Some env"
  shows "(\<forall>t. t \<notin> broken st \<longrightarrow> env_of (dep_pc st t) = Some env \<longrightarrow> t = s) \<and>
    (\<forall>r. dep_pc st s = Deploying env (Some r) \<longrightarrow>
       map dl_locked_by (filter (\<lambda>l. dl_environment l = env) (deployment_locks (dep_db st))) = [Some r]) \<and>
    (\<forall>t w run. t \<noteq> s \<longrightarrow> script w = [] \<longrightarrow> the_db w = dep_db st \<longrightarrow>
       tryAcquire hashtext t env run w =
         (Done \<lparr>acquired = False, release = No_Release\<rparr>, w\<lparr>clients := clients w - {t}\<rparr>))"
proof (intro conjI allI impI)
  note ok = deploys_reach_ok[OF assms(1)]
  show "t = s" if "t \<notin> broken st" "env_of (dep_pc st t) = Some env" for t
    by (rule one_deploy[OF ok that(1) assms(2) that(2) assms(3)])
  show "map dl_locked_by (filter (\<lambda>l. dl_environment l = env) (deployment_locks (dep_db st))) = [Some r]"
    if "dep_pc st s = Deploying env (Some r)" for r
    by (rule row_names_run[OF ok assms(2) that])
  fix t and w :: world and run assume t: "t \<noteq> s" and w: "script w = []" "the_db w = dep_db st"
  have "holds_lock (advisory (the_db w)) s (hashtext (LOCK_PREFIX @ env))"
    using deploys_okD(2)[OF ok assms(2,3)] w(2) by (simp add: lock_key_def)
  from al.held_refused[OF this t]
  show "tryAcquire hashtext t env run w =
      (Done \<lparr>acquired = False, release = No_Release\<rparr>, w\<lparr>clients := clients w - {t}\<rparr>)"
    by (simp add: tryAcquire_quiet[OF w(1)] Let_def)
qed

text \<open>A deploy of staging, under way with a worker's session 1.\<close>

lemma demo_deploying:
  "\<exists>st. deploys_reach (\<lambda>_. 7) st \<and> broken st = {} \<and>
     dep_pc st = (\<lambda>_. Idle)(1 := Deploying (lit ''staging'') (Some 1))"
  using reach_deploying[OF Start[of "the_db (demo_world [])" "\<lambda>_. 7"], where s = 1 and env = "lit ''staging''" and r = 1]
  by (auto simp: no_deploys_def demo_world_def empty_db_def pg_try_advisory_lock_def)

theorem deploys_exclusive_witness:
  "\<exists>st :: deploys. dep_pc st 1 = Deploying (lit ''staging'') (Some 1) \<and>
     (\<forall>t. t \<notin> broken st \<longrightarrow> env_of (dep_pc st t) = Some (lit ''staging'') \<longrightarrow> t = 1) \<and>
     map dl_locked_by (filter (\<lambda>l. dl_environment l = lit ''staging'') (deployment_locks (dep_db st))) = [Some 1] \<and>
     tryAcquire (\<lambda>_. 7) 2 (lit ''staging'') None (quiet_world (dep_db st)) =
       (Done \<lparr>acquired = False, release = No_Release\<rparr>, quiet_world (dep_db st))"
proof -
  obtain st where st: "deploys_reach (\<lambda>_. 7) st" "broken st = {}"
    "dep_pc st = (\<lambda>_. Idle)(1 := Deploying (lit ''staging'') (Some 1))"
    using demo_deploying by blast
  have "1 \<notin> broken st" "env_of (dep_pc st 1) = Some (lit ''staging'')" using st(2,3) by simp_all
  note x = deploys_exclusive[OF st(1) this]
  have pc: "dep_pc st 1 = Deploying (lit ''staging'') (Some 1)" by (simp add: st(3))
  note row = x[THEN conjunct2, THEN conjunct1, rule_format, OF pc]
  have q: "script (quiet_world (dep_db st)) = []" "the_db (quiet_world (dep_db st)) = dep_db st"
    and c: "(quiet_world (dep_db st))\<lparr>clients := clients (quiet_world (dep_db st)) - {2}\<rparr> = quiet_world (dep_db st)"
    by (simp_all add: quiet_world_def)
  have "tryAcquire (\<lambda>_. 7) 2 (lit ''staging'') None (quiet_world (dep_db st)) =
      (Done \<lparr>acquired = False, release = No_Release\<rparr>, quiet_world (dep_db st))"
    using x[THEN conjunct2, THEN conjunct2, rule_format, OF _ q, of 2 None] c by simp
  then show ?thesis using pc row x[THEN conjunct1] by (intro exI[of _ st] conjI)
qed

section \<open>A lock lost while its command runs\<close>

text \<open>
  Property C40.  The lock is not enough to keep deploys of an environment apart: the
  connection that holds it may break while the command runs, which nobody notices before the
  release; the command goes on, another worker is granted the lock, and two commands deploy
  the same environment at the same time, the dashboard naming the second.
\<close>

theorem broken_connection_overlaps:
  assumes "advisory (d :: db) = []" "distinct (map dl_environment (deployment_locks d))"
    and "a \<in> r_id ` set (pipeline_runs d)" "b \<in> r_id ` set (pipeline_runs d)" "length env \<le> 100" "s \<noteq> t"
  shows "\<exists>st. deploys_reach hashtext st \<and>
    dep_pc st s = Deploying env (Some a) \<and> dep_pc st t = Deploying env (Some b) \<and>
    map dl_locked_by (filter (\<lambda>l. dl_environment l = env) (deployment_locks (dep_db st))) = [Some b]"
proof -
  have "deploys_reach hashtext (no_deploys d)" by (rule Start[OF assms(1,2)])
  from reach_deploying[OF this, of s env a] assms(1,3,5) obtain st1 where
    st1: "deploys_reach hashtext st1" "broken st1 = {}" "dep_pc st1 = (\<lambda>_. Idle)(s := Deploying env (Some a))"
      "pipeline_runs (dep_db st1) = pipeline_runs d"
      "advisory (dep_db st1) = [(s, hashtext (LOCK_PREFIX @ env))]"
    by (auto simp: no_deploys_def pg_try_advisory_lock_def)
  let ?st2 = "st1\<lparr>dep_db := (dep_db st1)\<lparr>advisory := close_session s (advisory (dep_db st1))\<rparr>,
      broken := insert s (broken st1)\<rparr>"
  have "deploys_reach hashtext ?st2" by (rule Next[OF st1(1) Break])
  from reach_deploying[OF this, of t env b] st1(2-5) assms(4-6) obtain st3 where
    st3: "deploys_reach hashtext st3" "broken st3 = {s}"
      "dep_pc st3 = (dep_pc st1)(t := Deploying env (Some b))"
    by (auto simp: close_session_def pg_try_advisory_lock_def)
  with row_names_run[OF deploys_reach_ok[OF st3(1)], of t env b] st1(3) assms(6) show ?thesis
    by (intro exI[of _ st3]) auto
qed

definition two_runs :: db where
  "two_runs = (let d = the_db (demo_world []) in
     d\<lparr>pipeline_runs := pipeline_runs d @ map (r_id_update (\<lambda>_. 2)) (pipeline_runs d)\<rparr>)"

theorem broken_connection_overlaps_witness:
  "\<exists>st. deploys_reach (\<lambda>_. 7) st \<and> dep_pc st 1 = Deploying (lit ''staging'') (Some 1) \<and>
     dep_pc st 2 = Deploying (lit ''staging'') (Some 2) \<and>
     map dl_locked_by (filter (\<lambda>l. dl_environment l = lit ''staging'') (deployment_locks (dep_db st))) = [Some 2]"
  by (rule broken_connection_overlaps[of two_runs])
    (simp_all add: two_runs_def demo_world_def empty_db_def)

end
