(* ===== verification/Http.thy ===== *)
theory Http
  imports GitWebhook Dashboard LogService
begin

text \<open>
  The HTTP interface: the routes the decorators of the controllers declare
  (src/src/app.controller.ts, src/src/api/*/*.controller.ts, src/src/streaming/sse.controller.ts;
  gathered by src/src/app.module.ts), and how a request is answered, with its status.

  Nest itself is the parameter \<open>nest\<close>: the status of a handler that returned and of an error
  that was thrown; \<open>nest_ok\<close> is its documented behaviour.  \<open>parse_id\<close> is how Postgres reads the
  text of an id.
\<close>

section \<open>Routes\<close>

datatype http_method = GET | POST | PATCH | DELETE

datatype segment = Seg ustring | Param

datatype handler =
    H_Hello
  | H_List_Pipelines | H_Show_Pipeline | H_Create_Pipeline | H_Update_Pipeline | H_Remove_Pipeline
  | H_List_Runs | H_Job_Logs | H_Run_Jobs | H_Show_Run | H_Trigger_Run
  | H_Push
  | H_Pipeline_Stats | H_Refresh_Stats | H_Deployment_Locks
  | H_Stream_Job | H_Stream_All

record route =
  rt_method :: http_method
  rt_pattern :: "segment list"
  rt_handler :: handler

definition route_of :: "http_method \<Rightarrow> segment list \<Rightarrow> handler \<Rightarrow> route" where
  "route_of m p h = \<lparr>rt_method = m, rt_pattern = p, rt_handler = h\<rparr>"

definition seg :: "string \<Rightarrow> segment" where
  "seg s = Seg (lit s)"

definition app_routes :: "route list" where
  "app_routes = [route_of GET [] H_Hello]"

definition pipelines_routes :: "route list" where
  "pipelines_routes =
     [route_of GET [seg ''pipelines''] H_List_Pipelines,
      route_of GET [seg ''pipelines'', Param] H_Show_Pipeline,
      route_of POST [seg ''pipelines''] H_Create_Pipeline,
      route_of PATCH [seg ''pipelines'', Param] H_Update_Pipeline,
      route_of DELETE [seg ''pipelines'', Param] H_Remove_Pipeline]"

definition runs_routes :: "route list" where
  "runs_routes =
     [route_of GET [seg ''runs''] H_List_Runs,
      route_of GET [seg ''runs'', Param, seg ''jobs'', Param, seg ''logs''] H_Job_Logs,
      route_of GET [seg ''runs'', Param, seg ''jobs''] H_Run_Jobs,
      route_of GET [seg ''runs'', Param] H_Show_Run,
      route_of POST [seg ''runs''] H_Trigger_Run]"

definition webhooks_routes :: "route list" where
  "webhooks_routes = [route_of POST [seg ''webhooks'', seg ''git'', seg ''push''] H_Push]"

definition sse_routes :: "route list" where
  "sse_routes =
     [route_of GET [seg ''stream'', seg ''logs'', Param] H_Stream_Job,
      route_of GET [seg ''stream'', seg ''logs''] H_Stream_All]"

definition dashboard_routes :: "route list" where
  "dashboard_routes =
     [route_of GET [seg ''dashboard'', seg ''pipeline-stats''] H_Pipeline_Stats,
      route_of POST [seg ''dashboard'', seg ''pipeline-stats'', seg ''refresh''] H_Refresh_Stats,
      route_of GET [seg ''dashboard'', seg ''deployment-locks''] H_Deployment_Locks]"

text \<open>\<open>AppModule\<close>: its own controller and those of the modules it imports.\<close>

definition ROUTES :: "route list" where
  "ROUTES = app_routes @ pipelines_routes @ runs_routes @ webhooks_routes @ sse_routes @
     dashboard_routes"

text \<open>The parameters of a path, when it matches the pattern; a parameter is not empty.\<close>

fun match_path :: "segment list \<Rightarrow> ustring list \<Rightarrow> ustring list option" where
  "match_path [] [] = Some []"
| "match_path (Seg s # ps) (x # xs) = (if x = s then match_path ps xs else None)"
| "match_path (Param # ps) (x # xs) =
     (if x = [] then None else map_option (Cons x) (match_path ps xs))"
| "match_path _ _ = None"

definition matches :: "http_method \<Rightarrow> ustring list \<Rightarrow> route \<Rightarrow> bool" where
  "matches m path r \<longleftrightarrow> rt_method r = m \<and> match_path (rt_pattern r) path \<noteq> None"

text \<open>The first route that matches takes the request.\<close>

definition dispatch :: "http_method \<Rightarrow> ustring list \<Rightarrow> (handler \<times> ustring list) option" where
  "dispatch m path =
     map_option (\<lambda>r. (rt_handler r, the (match_path (rt_pattern r) path)))
       (find (matches m path) ROUTES)"

section \<open>Requests and answers\<close>

text \<open>A request for one of the handlers, with what it is passed.\<close>

datatype request =
    Hello
  | List_Pipelines
  | Show_Pipeline ustring
  | Create_Pipeline create_pipeline_dto
  | Update_Pipeline ustring update_pipeline_dto
  | Remove_Pipeline ustring
  | List_Runs "ustring option"
  | Job_Logs ustring ustring
  | Run_Jobs ustring
  | Show_Run ustring
  | Trigger_Run ustring "ustring option" "json option"
  | Push json
  | Pipeline_Stats
  | Refresh_Stats
  | Deployment_Locks
  | Stream_Job ustring
  | Stream_All

fun method_of :: "request \<Rightarrow> http_method" where
  "method_of (Create_Pipeline _) = POST"
| "method_of (Update_Pipeline _ _) = PATCH"
| "method_of (Remove_Pipeline _) = DELETE"
| "method_of (Trigger_Run _ _ _) = POST"
| "method_of (Push _) = POST"
| "method_of Refresh_Stats = POST"
| "method_of _ = GET"

fun path_of :: "request \<Rightarrow> ustring list" where
  "path_of Hello = []"
| "path_of List_Pipelines = [lit ''pipelines'']"
| "path_of (Show_Pipeline i) = [lit ''pipelines'', i]"
| "path_of (Create_Pipeline _) = [lit ''pipelines'']"
| "path_of (Update_Pipeline i _) = [lit ''pipelines'', i]"
| "path_of (Remove_Pipeline i) = [lit ''pipelines'', i]"
| "path_of (List_Runs _) = [lit ''runs'']"
| "path_of (Job_Logs r j) = [lit ''runs'', r, lit ''jobs'', j, lit ''logs'']"
| "path_of (Run_Jobs i) = [lit ''runs'', i, lit ''jobs'']"
| "path_of (Show_Run i) = [lit ''runs'', i]"
| "path_of (Trigger_Run _ _ _) = [lit ''runs'']"
| "path_of (Push _) = [lit ''webhooks'', lit ''git'', lit ''push'']"
| "path_of Pipeline_Stats = [lit ''dashboard'', lit ''pipeline-stats'']"
| "path_of Refresh_Stats = [lit ''dashboard'', lit ''pipeline-stats'', lit ''refresh'']"
| "path_of Deployment_Locks = [lit ''dashboard'', lit ''deployment-locks'']"
| "path_of (Stream_Job j) = [lit ''stream'', lit ''logs'', j]"
| "path_of Stream_All = [lit ''stream'', lit ''logs'']"

fun handler_of :: "request \<Rightarrow> handler \<times> ustring list" where
  "handler_of Hello = (H_Hello, [])"
| "handler_of List_Pipelines = (H_List_Pipelines, [])"
| "handler_of (Show_Pipeline i) = (H_Show_Pipeline, [i])"
| "handler_of (Create_Pipeline _) = (H_Create_Pipeline, [])"
| "handler_of (Update_Pipeline i _) = (H_Update_Pipeline, [i])"
| "handler_of (Remove_Pipeline i) = (H_Remove_Pipeline, [i])"
| "handler_of (List_Runs _) = (H_List_Runs, [])"
| "handler_of (Job_Logs r j) = (H_Job_Logs, [r, j])"
| "handler_of (Run_Jobs i) = (H_Run_Jobs, [i])"
| "handler_of (Show_Run i) = (H_Show_Run, [i])"
| "handler_of (Trigger_Run _ _ _) = (H_Trigger_Run, [])"
| "handler_of (Push _) = (H_Push, [])"
| "handler_of Pipeline_Stats = (H_Pipeline_Stats, [])"
| "handler_of Refresh_Stats = (H_Refresh_Stats, [])"
| "handler_of Deployment_Locks = (H_Deployment_Locks, [])"
| "handler_of (Stream_Job j) = (H_Stream_Job, [j])"
| "handler_of Stream_All = (H_Stream_All, [])"

datatype reply_body =
    Text ustring
  | Pipelines_Body "pipeline list" | Pipeline_Body pipeline
  | Runs_Body "pipeline_run list" | Run_Body pipeline_run
  | Run_Jobs_Body pipeline_run "job list" | Logs_Body "job_log list"
  | Push_Body push_response
  | Stats_Body "pipeline_stats_row list" | Ok_Body bool | Locks_Body "deployment_lock_row list"
  | Event_Stream subscription
  | No_Body | Error_Body js_error

record response =
  status :: int
  body :: reply_body

record nest =
  ok_status :: "http_method \<Rightarrow> int"
  error_status :: "js_error \<Rightarrow> int"

definition nest_ok :: "nest \<Rightarrow> bool" where
  "nest_ok n \<longleftrightarrow> ok_status n GET = 200 \<and> ok_status n PATCH = 200 \<and> ok_status n DELETE = 200 \<and>
     ok_status n POST = 201 \<and>
     (\<forall>e. error_status n e = (case e of Not_Found_Exception _ \<Rightarrow> 404
        | Bad_Request_Exception _ \<Rightarrow> 400 | _ \<Rightarrow> 500))"

record api_env =
  ae_nest :: nest
  ae_driver :: pg_driver
  ae_sched :: "job_insert list \<Rightarrow> job_insert list"
  ae_refused :: bool
  parse_id :: "ustring \<Rightarrow> path_id"

text \<open>\<open>getHello\<close>\<close>

definition getHello :: ustring where
  "getHello = lit ''Hello World!''"

definition reply :: "api_env \<Rightarrow> int \<Rightarrow> ('a \<Rightarrow> reply_body) \<Rightarrow> 'a act \<Rightarrow> response act" where
  "reply env code f m w = (case m w of
      (Done x, w') \<Rightarrow> (Done \<lparr>status = code, body = f x\<rparr>, w')
    | (Threw e, w') \<Rightarrow> (Done \<lparr>status = error_status (ae_nest env) e, body = Error_Body e\<rparr>, w')
    | (Hangs, w') \<Rightarrow> (Hangs, w'))"

text \<open>
  A request in its handler; only the deletion declares a status of its own
  (\<open>@HttpCode(NO_CONTENT)\<close>).
\<close>

fun serve :: "api_env \<Rightarrow> request \<Rightarrow> response act" where
  "serve env Hello = reply env (ok_status (ae_nest env) GET) Text (ret getHello)"
| "serve env List_Pipelines =
     reply env (ok_status (ae_nest env) GET) Pipelines_Body get_pipelines"
| "serve env (Show_Pipeline i) =
     reply env (ok_status (ae_nest env) GET) Pipeline_Body (get_pipeline (parse_id env i))"
| "serve env (Create_Pipeline dto) =
     reply env (ok_status (ae_nest env) POST) Pipeline_Body (post_pipeline dto)"
| "serve env (Update_Pipeline i dto) =
     reply env (ok_status (ae_nest env) PATCH) Pipeline_Body (patch_pipeline (parse_id env i) dto)"
| "serve env (Remove_Pipeline i) = reply env 204 (\<lambda>_. No_Body) (delete_pipeline (parse_id env i))"
| "serve env (List_Runs p) =
     reply env (ok_status (ae_nest env) GET) Runs_Body (get_runs (filter_id (parse_id env) p))"
| "serve env (Job_Logs r j) =
     reply env (ok_status (ae_nest env) GET) Logs_Body
       (get_job_logs (parse_id env r) (parse_id env j))"
| "serve env (Run_Jobs i) =
     reply env (ok_status (ae_nest env) GET) (\<lambda>(r, js). Run_Jobs_Body r js)
       (get_run_with_jobs (parse_id env i))"
| "serve env (Show_Run i) =
     reply env (ok_status (ae_nest env) GET) Run_Body (get_run (parse_id env i))"
| "serve env (Trigger_Run p tt m) =
     reply env (ok_status (ae_nest env) POST) Run_Body
       (post_run (ae_driver env) (ae_sched env)
         \<lparr>tr_pipelineId = parse_id env p, tr_triggerType = tt, tr_trigger_metadata = m\<rparr>)"
| "serve env (Push j) =
     reply env (ok_status (ae_nest env) POST) Push_Body
       (handlePush (ae_driver env) (ae_sched env) j)"
| "serve env Pipeline_Stats =
     reply env (ok_status (ae_nest env) GET) Stats_Body get_pipeline_stats"
| "serve env Refresh_Stats =
     reply env (ok_status (ae_nest env) POST) Ok_Body (post_refresh (ae_refused env))"
| "serve env Deployment_Locks =
     reply env (ok_status (ae_nest env) GET) Locks_Body get_deployment_locks"
| "serve env (Stream_Job j) =
     reply env (ok_status (ae_nest env) GET) Event_Stream (ret (getLogStreamForJob j))"
| "serve env Stream_All =
     reply env (ok_status (ae_nest env) GET) Event_Stream (ret getLogStream)"

section \<open>Facts\<close>

lemmas route_defs = ROUTES_def app_routes_def pipelines_routes_def runs_routes_def
  webhooks_routes_def sse_routes_def dashboard_routes_def route_of_def seg_def

lemma match_path_length: "match_path p xs \<noteq> None \<Longrightarrow> length xs = length p"
  by (induction p xs rule: match_path.induct) (auto split: if_splits)

text \<open>
  Every request whose ids are not empty reaches its own handler, with the ids of
  its path, and the order in which the routes are declared does not matter: no method and path match two of them,
  whatever the ids are.
\<close>

theorem requests_dispatched:
  assumes "\<forall>x \<in> set (path_of q). x \<noteq> []"
  shows "dispatch (method_of q) (path_of q) = Some (handler_of q) \<and>
    length (filter (matches m path) ROUTES) \<le> 1"
proof
  have l: "lit ''pipelines'' \<noteq> lit ''runs''" "lit ''runs'' \<noteq> lit ''pipelines''"
    "lit ''dashboard'' \<noteq> lit ''runs''" "lit ''dashboard'' \<noteq> lit ''pipelines''"
    "lit ''stream'' \<noteq> lit ''runs''" "lit ''stream'' \<noteq> lit ''pipelines''"
    "lit ''webhooks'' \<noteq> lit ''dashboard''" "lit ''dashboard'' \<noteq> lit ''webhooks''"
    "lit ''dashboard'' \<noteq> lit ''stream''" "lit ''stream'' \<noteq> lit ''dashboard''"
    "lit ''pipeline-stats'' \<noteq> lit ''deployment-locks''"
    "lit ''deployment-locks'' \<noteq> lit ''pipeline-stats''"
    by (simp_all add: lit_def)
  show "dispatch (method_of q) (path_of q) = Some (handler_of q)"
    using assms by (cases q) (simp_all add: dispatch_def route_defs matches_def l)
  show "length (filter (matches m path) ROUTES) \<le> 1"
  proof (cases "\<exists>a b c d e. path = [] \<or> path = [a] \<or> path = [a, b] \<or> path = [a, b, c] \<or> path = [a, b, c, d, e]")
    case True
    then show ?thesis
      by (elim exE disjE; cases m) (simp_all add: route_defs matches_def l)
  next
    case False
    have "filter (matches m path) ROUTES = []"
    proof (rule ccontr)
      assume "filter (matches m path) ROUTES \<noteq> []"
      then obtain r where r: "r \<in> set ROUTES" "matches m path r" by (auto simp: filter_empty_conv)
      then have "length path = length (rt_pattern r)" using match_path_length by (simp add: matches_def)
      with r(1) have "length path \<in> {0, 1, 2, 3, 5}" by (auto simp: route_defs)
      with False show False
        by (auto simp: length_Suc_conv numeral_eq_Suc)
    qed
    then show ?thesis by simp
  qed
qed

theorem requests_dispatched_witness:
  "dispatch GET [lit ''runs'', lit ''7'', lit ''jobs'', lit ''8'', lit ''logs''] =
     Some (H_Job_Logs, [lit ''7'', lit ''8'']) \<and>
   length (filter (matches GET [lit ''runs'', lit ''7'', lit ''jobs'']) ROUTES) \<le> 1"
  using requests_dispatched[of "Job_Logs (lit ''7'') (lit ''8'')" GET "[lit ''runs'', lit ''7'', lit ''jobs'']"]
  by simp

text \<open>
  Requests with the method GET change nothing: with nothing interfering, they
  leave the world as it is, whatever they answer, and they always answer.
\<close>

theorem get_requests_read_only:
  assumes "script w = []" "method_of q = GET"
  shows "\<exists>r. serve env q w = (Done r, w)"
proof -
  have q: "\<exists>x. query st w = (x, w) \<and> x \<noteq> Hangs" if "\<And>x d. st (clock w) (the_db w) = Inr (x, d) \<Longrightarrow> d = the_db w"
    for st :: "'b stmt"
    using that by (auto simp: query_quiet[OF assms(1)] split: sum.split prod.split)
  have r: "\<exists>r. reply env code f m w = (Done r, w)" if "\<exists>x. m w = (x, w) \<and> x \<noteq> Hangs" for code f and m :: "'b act"
  proof -
    from that obtain x where "m w = (x, w)" "x \<noteq> Hangs" by blast
    then show ?thesis by (cases x) (simp_all add: reply_def)
  qed
  have s: "\<exists>x. seq m k w = (x, w) \<and> x \<noteq> Hangs" if "\<exists>x. m w = (x, w) \<and> x \<noteq> Hangs" "\<And>x. \<exists>y. k x w = (y, w) \<and> y \<noteq> Hangs"
    for m :: "'b act" and k :: "'b \<Rightarrow> 'c act"
  proof -
    from that(1) obtain x where "m w = (x, w)" "x \<noteq> Hangs" by blast
    with that(2) show ?thesis by (cases x) (simp_all add: seq_def)
  qed
  note stmts = sql_find_pipelines_def sql_find_pipeline_def sql_find_runs_def sql_find_run_def
    sql_find_run_with_jobs_def sql_find_logs_def sql_list_stats_def sql_list_locks_def
  show ?thesis
    using assms(2)
    by (cases q)
      (auto simp: get_pipelines_def pipelines_findAll_def get_pipeline_def pipelines_findOne_def
        get_runs_def runs_findAll_def get_job_logs_def getJobLogs_def get_run_with_jobs_def
        findOneWithJobs_def get_run_def runs_findOne_def get_pipeline_stats_def listPipelineStats_def
        get_deployment_locks_def listDeploymentLocks_def ret_def throw_def stmts
        intro!: r s q split: option.splits sum.splits)
qed

end
