(* ===== verification/TriggerFacts.thy ===== *)
theory TriggerFacts
  imports System
begin

text \<open>
  What the API promises: triggering a run queues the jobs of the pipeline's configuration,
  a push triggers the pipeline of its repository, deleting a pipeline takes everything of
  it along or nothing, and seeding is idempotent.
\<close>

section \<open>A configuration and its jobs\<close>

text \<open>
  The configuration as the DTO declares it: stages with a name and steps, a step with a
  name, a command and possibly a priority, and environment variables for the whole and for each
  stage; \<open>config_json\<close> is the JSON of one without variables for the whole.
\<close>

record step_config =
  sc_name :: ustring
  sc_command :: ustring
  sc_priority :: "int option"

record stage_config =
  st_name :: ustring
  st_steps :: "step_config list"
  st_env :: "(ustring \<times> ustring) list option"

record pipeline_config =
  pc_stages :: "stage_config list"
  pc_env :: "(ustring \<times> ustring) list option"

definition env_json :: "(ustring \<times> ustring) list option \<Rightarrow> (ustring \<times> json) list" where
  "env_json vars = (case vars of
     None \<Rightarrow> [] | Some vs \<Rightarrow> [(lit ''env'', JObj (map (map_prod id JStr) vs))])"

definition step_json :: "step_config \<Rightarrow> json" where
  "step_json s = JObj ([(lit ''name'', JStr (sc_name s)), (lit ''command'', JStr (sc_command s))] @
     (case sc_priority s of None \<Rightarrow> [] | Some p \<Rightarrow> [(lit ''priority'', JNum p)]))"

definition stage_json :: "stage_config \<Rightarrow> json" where
  "stage_json s = JObj ([(lit ''name'', JStr (st_name s)), (lit ''steps'', JArr (map step_json (st_steps s)))] @
     env_json (st_env s))"

definition config_json :: "stage_config list \<Rightarrow> json" where
  "config_json stages = JObj [(lit ''stages'', JArr (map stage_json stages))]"

definition pipeline_config_json :: "pipeline_config \<Rightarrow> json" where
  "pipeline_config_json c =
     JObj ((lit ''stages'', JArr (map stage_json (pc_stages c))) # env_json (pc_env c))"

text \<open>
  What a job must be: stage name and index, step name and index, command, priority (5 when
  the step has none).
\<close>

type_synonym job_spec = "ustring \<times> int \<times> ustring \<times> int \<times> ustring \<times> int"

definition step_specs :: "ustring \<Rightarrow> nat \<Rightarrow> step_config list \<Rightarrow> job_spec list" where
  "step_specs stage k steps = map (\<lambda>(l, s). (stage, int k, sc_name s, int l, sc_command s,
     case sc_priority s of None \<Rightarrow> 5 | Some p \<Rightarrow> p)) (enumerate 0 steps)"

definition config_specs :: "stage_config list \<Rightarrow> job_spec list" where
  "config_specs stages =
     concat (map (\<lambda>(k, s). step_specs (st_name s) k (st_steps s)) (enumerate 0 stages))"

definition job_spec_of :: "job \<Rightarrow> job_spec" where
  "job_spec_of j = (j_stage j, j_stage_order j, j_step_name j, j_step_order j, j_command j, j_priority j)"

text \<open>Names, indexes and a priority that fit their columns.\<close>

definition spec_fits :: "job_spec \<Rightarrow> bool" where
  "spec_fits s = (case s of (st, k, sn, l, _, p) \<Rightarrow>
     length st \<le> 100 \<and> length sn \<le> 255 \<and> fits_int4 k \<and> fits_int4 l \<and> fits_int4 p)"

text \<open>What an insert binds its parameters to.\<close>

definition insert_spec :: "pg_driver \<Rightarrow> job_insert \<Rightarrow> job_spec option" where
  "insert_spec b a = (case (bind_text b (ji_stage a), bind_text b (ji_step_name a),
       bind_text b (ji_command a), bind_int b (ji_priority a)) of
     (Inr st, Inr sn, Inr c, Inr p) \<Rightarrow> Some (st, int (ji_stage_order a), sn, int (ji_step_order a), c, p)
   | _ \<Rightarrow> None)"

lemma five_fits: "fits_int4 5"
  by (simp add: fits_int4_def)

lemma step_insert_spec:
  assumes "driver_ok b" "\<forall>p. sc_priority s = Some p \<longrightarrow> fits_int4 p"
  shows "insert_spec b \<lparr>ji_stage = js_prop (stage_json st) ''name'', ji_step_name = js_prop (step_json s) ''name'',
      ji_command = js_prop (step_json s) ''command'',
      ji_priority = nullish (js_prop (step_json s) ''priority'') (JNum 5),
      ji_stage_order = k, ji_step_order = l\<rparr> =
    Some (st_name st, int k, sc_name s, int l, sc_command s,
      case sc_priority s of None \<Rightarrow> 5 | Some p \<Rightarrow> p)"
  using assms
  by (cases "sc_priority s")
    (simp_all add: step_json_def stage_json_def insert_spec_def driver_ok_def nullish_def five_fits)

lemma step_inserts_whole: "\<not> snd (step_inserts st k l (map step_json steps))"
proof (induction steps arbitrary: l)
  case (Cons s steps)
  have "step_json s \<noteq> JNull" by (simp add: step_json_def)
  with Cons[of "Suc l"] show ?case by (simp add: case_prod_beta)
qed simp

lemma step_inserts_spec:
  assumes "driver_ok b" "\<forall>s \<in> set steps. \<forall>p. sc_priority s = Some p \<longrightarrow> fits_int4 p"
  shows "\<exists>ins. step_inserts (stage_json st) k l (map step_json steps) = (ins, False) \<and>
    map (insert_spec b) ins = map Some (map (\<lambda>(l, s). (st_name st, int k, sc_name s, int l, sc_command s,
      case sc_priority s of None \<Rightarrow> 5 | Some p \<Rightarrow> p)) (enumerate l steps))"
  using assms(2)
proof (induction steps arbitrary: l)
  case Nil
  then show ?case by simp
next
  case (Cons s steps)
  obtain ins where "step_inserts (stage_json st) k (Suc l) (map step_json steps) = (ins, False)"
    "map (insert_spec b) ins = map Some (map (\<lambda>(l, s). (st_name st, int k, sc_name s, int l, sc_command s,
      case sc_priority s of None \<Rightarrow> 5 | Some p \<Rightarrow> p)) (enumerate (Suc l) steps))"
    using Cons.IH[of "Suc l"] Cons.prems by auto
  moreover have "step_json s \<noteq> JNull" by (simp add: step_json_def)
  ultimately show ?case
    using Cons.prems by (simp add: step_insert_spec[OF assms(1)] del: js_prop_simps)
qed

lemma stage_inserts_spec:
  assumes "driver_ok b" "\<forall>st \<in> set stages. \<forall>s \<in> set (st_steps st). \<forall>p. sc_priority s = Some p \<longrightarrow> fits_int4 p"
  shows "\<exists>ins. stage_inserts k (map stage_json stages) = (ins, False) \<and>
    map (insert_spec b) ins = map Some
      (concat (map (\<lambda>(k, s). step_specs (st_name s) k (st_steps s)) (enumerate k stages)))"
  using assms(2)
proof (induction stages arbitrary: k)
  case Nil
  then show ?case by simp
next
  case (Cons s stages)
  obtain ins1 where 1: "step_inserts (stage_json s) k 0 (map step_json (st_steps s)) = (ins1, False)"
    "map (insert_spec b) ins1 = map Some (step_specs (st_name s) k (st_steps s))"
    using step_inserts_spec[OF assms(1), of "st_steps s" s k 0] Cons.prems by (auto simp: step_specs_def)
  obtain ins2 where 2: "stage_inserts (Suc k) (map stage_json stages) = (ins2, False)"
    "map (insert_spec b) ins2 = map Some
      (concat (map (\<lambda>(k, s). step_specs (st_name s) k (st_steps s)) (enumerate (Suc k) stages)))"
    using Cons.IH[of "Suc k"] Cons.prems by auto
  have "js_prop (stage_json s) ''steps'' = Some (JArr (map step_json (st_steps s)))"
    by (simp add: stage_json_def)
  with 1 2 show ?case by (simp add: comp_def)
qed

lemma config_priorities:
  assumes "\<forall>x \<in> set (config_specs stages). spec_fits x"
  shows "\<forall>st \<in> set stages. \<forall>s \<in> set (st_steps st). \<forall>p. sc_priority s = Some p \<longrightarrow> fits_int4 p"
proof (intro ballI allI impI)
  fix st s p
  assume st: "st \<in> set stages" "s \<in> set (st_steps st)" "sc_priority s = Some p"
  from st(1) obtain k where "k < length stages" "stages ! k = st" by (auto simp: in_set_conv_nth)
  then have "step_specs (st_name st) k (st_steps st) \<in>
      set (map (\<lambda>(k, s). step_specs (st_name s) k (st_steps s)) (enumerate 0 stages))"
    by (force simp: in_set_conv_nth nth_enumerate_eq)
  moreover from st(2) obtain l where "l < length (st_steps st)" "st_steps st ! l = s"
    by (auto simp: in_set_conv_nth)
  then have "(st_name st, int k, sc_name s, int l, sc_command s, p) \<in> set (step_specs (st_name st) k (st_steps st))"
    using st(3) by (force simp: step_specs_def in_set_conv_nth nth_enumerate_eq)
  ultimately have "(st_name st, int k, sc_name s, int l, sc_command s, p) \<in> set (config_specs stages)"
    unfolding config_specs_def set_concat by blast
  with assms show "fits_int4 p" by (force simp: spec_fits_def)
qed

lemma config_inserts_spec:
  assumes "driver_ok b" "\<forall>x \<in> set (config_specs stages). spec_fits x"
  shows "\<exists>ins. config_inserts (config_json stages) = (ins, False) \<and>
    map (insert_spec b) ins = map Some (config_specs stages)"
  using stage_inserts_spec[OF assms(1) config_priorities[OF assms(2)], of 0]
  by (cases stages) (auto simp: config_inserts_def config_json_def config_specs_def)

text \<open>
  The variables of a configuration reach nothing: \<open>triggerRun\<close> queues the same jobs without them,
  and the executor spawns every command in the environment of its own process.
\<close>

lemma step_inserts_name:
  "js_prop stage ''name'' = js_prop stage' ''name'' \<Longrightarrow> step_inserts stage k l ss = step_inserts stage' k l ss"
  by (induction ss arbitrary: l) (auto split: prod.split)

lemma stage_inserts_env:
  "stage_inserts k (map stage_json (map (\<lambda>s. s\<lparr>st_env := None\<rparr>) stages)) = stage_inserts k (map stage_json stages)"
proof (induction stages arbitrary: k)
  case (Cons s stages)
  have "js_prop (stage_json (s\<lparr>st_env := None\<rparr>)) p = js_prop (stage_json s) p" if "p \<in> {''name'', ''steps''}" for p
    using that by (auto simp: stage_json_def)
  then show ?case
    using Cons step_inserts_name[of "stage_json (s\<lparr>st_env := None\<rparr>)" "stage_json s"]
    by (auto split: option.split json.split prod.split)
qed simp

theorem env_never_read:
  "config_inserts (pipeline_config_json c) =
     config_inserts (config_json (map (\<lambda>s. s\<lparr>st_env := None\<rparr>) (pc_stages c)))"
  using stage_inserts_env[of 0 "pc_stages c"]
  by (simp add: config_inserts_def pipeline_config_json_def config_json_def js_prop_def del: map_map)

section \<open>The inserts\<close>

text \<open>What the trigger on jobs leaves alone in the row of a run.\<close>

definition run_origin :: "pipeline_run \<Rightarrow> uuid \<times> uuid \<times> ustring \<times> json" where
  "run_origin r = (r_id r, r_pipeline_id r, r_trigger_type r, r_trigger_metadata r)"

lemma fire_keeps_origins:
  "map run_origin (pipeline_runs (fire_run_trigger now is d)) = map run_origin (pipeline_runs d)"
proof -
  have "run_origin (sync_row now js r) = run_origin r" for js r
    by (simp add: run_origin_def sync_row_def)
  then have "map run_origin (pipeline_runs (fold (sync_pipeline_run_status now) is d)) =
      map run_origin (pipeline_runs d)"
    by (induction "is" arbitrary: d) (simp_all add: sync_runs map_update_where)
  then show ?thesis by (simp add: fire_run_trigger_def)
qed

lemma origin_ids: "map run_origin rs = map run_origin rs' \<Longrightarrow> map r_id rs = map r_id rs'"
  by (metis (no_types, lifting) comp_def fst_conv map_eq_conv map_map run_origin_def)

lemma origins_snoc:
  assumes "map run_origin rs = map run_origin rs' @ [run_origin r]"
  shows "map r_id rs = map r_id rs' @ [r_id r]"
  using origin_ids[of rs "rs' @ [r]"] assms by simp

lemma insert_job_quiet:
  assumes "insert_spec b a = Some s" "spec_fits s" "script w = []"
    and "i \<in> r_id ` set (pipeline_runs (the_db w))"
  obtains j d' where "insert_job_of b i a w = (Done j, w\<lparr>the_db := d'\<rparr>)"
    "jobs d' = jobs (the_db w) @ [j]" "job_spec_of j = s" "j_status j = Pending"
    "j_pipeline_run_id j = i" "j_retry_count j = 0" "j_id j = next_uuid (the_db w)"
    "next_uuid d' = next_uuid (the_db w) + 1"
    "map run_origin (pipeline_runs d') = map run_origin (pipeline_runs (the_db w))"
    "pipelines d' = pipelines (the_db w)" "job_logs d' = job_logs (the_db w)"
    "row_locks d' = row_locks (the_db w)"
proof -
  obtain st sn c p where s: "s = (st, int (ji_stage_order a), sn, int (ji_step_order a), c, p)"
    and b: "bind_text b (ji_stage a) = Inr st" "bind_text b (ji_step_name a) = Inr sn"
      "bind_text b (ji_command a) = Inr c" "bind_int b (ji_priority a) = Inr p"
    using assms(1) by (auto simp: insert_spec_def split: sum.splits)
  have "\<exists>j d'. sql_insert_job i st sn c p (int (ji_stage_order a)) (int (ji_step_order a)) (clock w) (the_db w)
      = Inr (j, d') \<and> jobs d' = jobs (the_db w) @ [j] \<and> job_spec_of j = s \<and> j_status j = Pending \<and>
      j_pipeline_run_id j = i \<and> j_retry_count j = 0 \<and> j_id j = next_uuid (the_db w) \<and>
      next_uuid d' = next_uuid (the_db w) + 1 \<and>
      map run_origin (pipeline_runs d') = map run_origin (pipeline_runs (the_db w)) \<and> pipelines d' = pipelines (the_db w) \<and>
      job_logs d' = job_logs (the_db w) \<and> row_locks d' = row_locks (the_db w)"
    using assms(2,4) by (simp add: sql_insert_job_def Let_def s spec_fits_def job_spec_of_def frame_simps fire_keeps_origins)
  then obtain j d' where "sql_insert_job i st sn c p (int (ji_stage_order a)) (int (ji_step_order a)) (clock w) (the_db w)
      = Inr (j, d')" and 2: "jobs d' = jobs (the_db w) @ [j]" "job_spec_of j = s" "j_status j = Pending"
      "j_pipeline_run_id j = i" "j_retry_count j = 0" "j_id j = next_uuid (the_db w)"
      "next_uuid d' = next_uuid (the_db w) + 1"
      "map run_origin (pipeline_runs d') = map run_origin (pipeline_runs (the_db w))" "pipelines d' = pipelines (the_db w)"
      "job_logs d' = job_logs (the_db w)" "row_locks d' = row_locks (the_db w)"
    by blast
  then have "insert_job_of b i a w = (Done j, w\<lparr>the_db := d'\<rparr>)"
    using assms(3) by (simp add: insert_job_of_def insertNewJob_def query_quiet b)
  from this 2 show thesis by (rule that)
qed

lemma run_inserts_quiet:
  assumes "map (insert_spec b) ins = map Some specs" "\<forall>s \<in> set specs. spec_fits s" "script w = []"
    and "i \<in> r_id ` set (pipeline_runs (the_db w))"
  shows "\<exists>new w'. run_inserts b i ins w = (Done None, w') \<and> jobs (the_db w') = jobs (the_db w) @ new \<and>
    map job_spec_of new = specs \<and>
    (\<forall>j \<in> set new. j_status j = Pending \<and> j_pipeline_run_id j = i \<and> j_retry_count j = 0) \<and>
    script w' = [] \<and> map run_origin (pipeline_runs (the_db w')) = map run_origin (pipeline_runs (the_db w)) \<and>
    pipelines (the_db w') = pipelines (the_db w) \<and> job_logs (the_db w') = job_logs (the_db w)"
  using assms
proof (induction ins arbitrary: w specs)
  case Nil
  then show ?case by (auto simp: ret_def)
next
  case (Cons a ins)
  obtain s specs' where specs: "specs = s # specs'" "insert_spec b a = Some s"
    "map (insert_spec b) ins = map Some specs'"
    using Cons.prems(1) by (cases specs) auto
  have "spec_fits s" using Cons.prems(2) specs(1) by simp
  from specs(2) this Cons.prems(3,4) obtain j d' where
    j: "insert_job_of b i a w = (Done j, w\<lparr>the_db := d'\<rparr>)"
    "jobs d' = jobs (the_db w) @ [j]" "job_spec_of j = s" "j_status j = Pending"
    "j_pipeline_run_id j = i" "j_retry_count j = 0"
    "map run_origin (pipeline_runs d') = map run_origin (pipeline_runs (the_db w))"
    "pipelines d' = pipelines (the_db w)" "job_logs d' = job_logs (the_db w)"
    by (rule insert_job_quiet) blast
  have "i \<in> r_id ` set (pipeline_runs d')" using Cons.prems(4) origin_ids[OF j(7)] by (metis set_map)
  with Cons.IH[OF specs(3), of "w\<lparr>the_db := d'\<rparr>"] Cons.prems(2,3) specs(1) obtain new w' where
    n: "run_inserts b i ins (w\<lparr>the_db := d'\<rparr>) = (Done None, w')" "jobs (the_db w') = jobs d' @ new"
    "map job_spec_of new = specs'"
    "\<forall>j \<in> set new. j_status j = Pending \<and> j_pipeline_run_id j = i \<and> j_retry_count j = 0"
    "script w' = []" "map run_origin (pipeline_runs (the_db w')) = map run_origin (pipeline_runs d')"
    "pipelines (the_db w') = pipelines d'" "job_logs (the_db w') = job_logs d'"
    by auto
  show ?case
  proof (intro exI[of _ "j # new"] exI[of _ w'] conjI)
    show "run_inserts b i (a # ins) w = (Done None, w')"
      by (simp add: seq_def j(1) n(1) ret_def)
  qed (use n j specs(1) in simp_all)
qed


text \<open>
  An insert is accepted when its parameters bind and their values fit; one that is not changes
  nothing, and the inserts after it run all the same.
\<close>

definition accepted :: "pg_driver \<Rightarrow> job_insert \<Rightarrow> bool" where
  "accepted b a \<longleftrightarrow> (case insert_spec b a of None \<Rightarrow> False | Some s \<Rightarrow> spec_fits s)"

lemma insert_job_refused:
  assumes "\<not> accepted b a" "script w = []"
  shows "\<exists>e. insert_job_of b i a w = (Threw (Query_Failed e), w)"
  using assms
  by (auto simp: accepted_def insert_spec_def spec_fits_def insert_job_of_def insertNewJob_def query_quiet
      sql_insert_job_def split: sum.splits)

lemma run_inserts_any:
  assumes "script w = []" "i \<in> r_id ` set (pipeline_runs (the_db w))"
  shows "\<exists>new w' failed. run_inserts b i ins w = (Done failed, w') \<and> jobs (the_db w') = jobs (the_db w) @ new \<and>
    map (\<lambda>j. Some (job_spec_of j)) new = map (insert_spec b) (filter (accepted b) ins) \<and>
    (\<forall>j \<in> set new. j_status j = Pending \<and> j_pipeline_run_id j = i) \<and> script w' = [] \<and>
    map run_origin (pipeline_runs (the_db w')) = map run_origin (pipeline_runs (the_db w)) \<and>
    (if \<forall>a \<in> set ins. accepted b a then failed = None else \<exists>e. failed = Some (Query_Failed e))"
  using assms
proof (induction ins arbitrary: w)
  case Nil
  then show ?case by (auto simp: ret_def)
next
  case (Cons a ins)
  show ?case
  proof (cases "accepted b a")
    case False
    obtain e where e: "insert_job_of b i a w = (Threw (Query_Failed e), w)"
      using insert_job_refused[OF False Cons.prems(1)] by blast
    obtain new w' failed where n: "run_inserts b i ins w = (Done failed, w')" "jobs (the_db w') = jobs (the_db w) @ new"
      "map (\<lambda>j. Some (job_spec_of j)) new = map (insert_spec b) (filter (accepted b) ins)"
      "\<forall>j \<in> set new. j_status j = Pending \<and> j_pipeline_run_id j = i" "script w' = []"
      "map run_origin (pipeline_runs (the_db w')) = map run_origin (pipeline_runs (the_db w))"
      using Cons.IH[OF Cons.prems] by blast
    then show ?thesis
      using False by (intro exI[of _ new] exI[of _ w'] exI[of _ "Some (Query_Failed e)"]) (simp add: seq_def e ret_def)
  next
    case True
    then obtain s where s: "insert_spec b a = Some s" "spec_fits s" by (auto simp: accepted_def split: option.splits)
    from s Cons.prems obtain j d' where
      j: "insert_job_of b i a w = (Done j, w\<lparr>the_db := d'\<rparr>)"
      "jobs d' = jobs (the_db w) @ [j]" "job_spec_of j = s" "j_status j = Pending" "j_pipeline_run_id j = i"
      "map run_origin (pipeline_runs d') = map run_origin (pipeline_runs (the_db w))"
      by (rule insert_job_quiet) blast
    have "i \<in> r_id ` set (pipeline_runs d')" using Cons.prems(2) origin_ids[OF j(6)] by (metis set_map)
    with Cons.IH[of "w\<lparr>the_db := d'\<rparr>"] Cons.prems(1) obtain new w' failed where
      n: "run_inserts b i ins (w\<lparr>the_db := d'\<rparr>) = (Done failed, w')" "jobs (the_db w') = jobs d' @ new"
      "map (\<lambda>j. Some (job_spec_of j)) new = map (insert_spec b) (filter (accepted b) ins)"
      "\<forall>j \<in> set new. j_status j = Pending \<and> j_pipeline_run_id j = i" "script w' = []"
      "map run_origin (pipeline_runs (the_db w')) = map run_origin (pipeline_runs d')"
      "if \<forall>a \<in> set ins. accepted b a then failed = None else \<exists>e. failed = Some (Query_Failed e)"
      by auto
    have "run_inserts b i (a # ins) w = (Done failed, w')" by (simp add: seq_def j(1) n(1) ret_def)
    with n j s True show ?thesis
      by (intro exI[of _ "j # new"] exI[of _ w'] exI[of _ failed]) simp
  qed
qed

section \<open>Triggering\<close>

lemma find_append_None: "find P xs = None \<Longrightarrow> find P (xs @ ys) = find P ys"
  by (induction xs) (auto split: if_splits)

lemma find_pipeline_quiet:
  assumes "script w = []" "distinct (map p_id (pipelines (the_db w)))" "p \<in> set (pipelines (the_db w))"
  shows "pipelines_findOne (Uuid_Param (p_id p)) w = (Done (Some p), w)"
  using assms by (simp add: pipelines_findOne_def query_quiet sql_find_pipeline_def uuid_param_def
      pipeline_rows.find_key)

lemma create_run_quiet:
  assumes "script w = []" "length tt \<le> 50" "p \<in> set (pipelines (the_db w))"
  obtains r where "createPipelineRun (p_id p) tt m w = (Done r, w\<lparr>the_db := (the_db w)\<lparr>
      pipeline_runs := pipeline_runs (the_db w) @ [r], next_uuid := next_uuid (the_db w) + 1\<rparr>\<rparr>)"
    "r_id r = next_uuid (the_db w)" "r_pipeline_id r = p_id p" "r_status r = Pending" "r_trigger_type r = tt"
    "r_trigger_metadata r = (case m of None \<Rightarrow> JObj [] | Some JNull \<Rightarrow> JObj [] | Some v \<Rightarrow> v)"
  using assms by (auto simp: createPipelineRun_def query_quiet sql_insert_run_def Let_def)

text \<open>From the found pipeline to the started inserts.\<close>

lemma trigger_quiet:
  assumes "script w = []" "distinct (map p_id (pipelines (the_db w)))" "p \<in> set (pipelines (the_db w))"
    and "length tt \<le> 50" "\<forall>r \<in> set (pipeline_runs (the_db w)). r_id r < next_uuid (the_db w)"
  obtains r w1 where "r_id r = next_uuid (the_db w)" "r_pipeline_id r = p_id p" "r_status r = Pending"
    "r_trigger_type r = tt" "r_trigger_metadata r = (case m of None \<Rightarrow> JObj [] | Some JNull \<Rightarrow> JObj [] | Some v \<Rightarrow> v)"
    "script w1 = []" "jobs (the_db w1) = jobs (the_db w)"
    "pipeline_runs (the_db w1) = pipeline_runs (the_db w) @ [r]"
    "pipelines (the_db w1) = pipelines (the_db w)" "job_logs (the_db w1) = job_logs (the_db w)"
    "triggerRun b sched (Uuid_Param (p_id p)) tt m w =
       (case config_inserts (p_config p) of (inserts, threw) \<Rightarrow>
          seq (run_inserts b (r_id r) (sched inserts)) (\<lambda>failed.
            if threw then throw Type_Error
            else (case failed of Some e \<Rightarrow> throw e | None \<Rightarrow> ret r)) w1)"
proof -
  from assms(1,4,3) obtain r where r: "createPipelineRun (p_id p) tt m w = (Done r, w\<lparr>the_db := (the_db w)\<lparr>
      pipeline_runs := pipeline_runs (the_db w) @ [r], next_uuid := next_uuid (the_db w) + 1\<rparr>\<rparr>)"
    "r_id r = next_uuid (the_db w)" "r_pipeline_id r = p_id p" "r_status r = Pending" "r_trigger_type r = tt"
    "r_trigger_metadata r = (case m of None \<Rightarrow> JObj [] | Some JNull \<Rightarrow> JObj [] | Some v \<Rightarrow> v)"
    by (rule create_run_quiet)
  let ?w1 = "w\<lparr>the_db := (the_db w)\<lparr>pipeline_runs := pipeline_runs (the_db w) @ [r],
      next_uuid := next_uuid (the_db w) + 1\<rparr>\<rparr>"
  have "find (\<lambda>x. r_id x = r_id r) (pipeline_runs (the_db w)) = None"
    using assms(5) r(2) by (auto simp: find_None_iff)
  then have "find (\<lambda>x. r_id x = r_id r) (pipeline_runs (the_db w) @ [r]) = Some r"
    by (simp add: find_append_None)
  then have "runs_findOne (Uuid_Param (r_id r)) ?w1 = (Done (Some r), ?w1)"
    using assms(1) by (simp add: runs_findOne_def query_quiet sql_find_run_def uuid_param_def)
  then have "triggerRun b sched (Uuid_Param (p_id p)) tt m w =
       (case config_inserts (p_config p) of (inserts, threw) \<Rightarrow>
          seq (run_inserts b (r_id r) (sched inserts)) (\<lambda>failed.
            if threw then throw Type_Error
            else (case failed of Some e \<Rightarrow> throw e | None \<Rightarrow> ret r)) ?w1)"
    by (simp add: triggerRun_def seq_def[of "pipelines_findOne x" for x] find_pipeline_quiet[OF assms(1-3)]
        seq_def[of "createPipelineRun x y z" for x y z] r(1) seq_def[of "runs_findOne x" for x]
        split: prod.split)
  from r(2-6) _ _ _ _ _ this show thesis by (rule that) (use assms(1) in simp_all)
qed

lemma triggered:
  assumes "script w = []" "distinct (map p_id (pipelines (the_db w)))" "p \<in> set (pipelines (the_db w))"
    and "p_config p = config_json stages" "\<forall>s \<in> set (config_specs stages). spec_fits s"
    and "length tt \<le> 50" "\<forall>r \<in> set (pipeline_runs (the_db w)). r_id r < next_uuid (the_db w)"
    and "driver_ok b" "\<And>xs. mset (sched xs) = mset xs"
  obtains r new w' where "triggerRun b sched (Uuid_Param (p_id p)) tt m w = (Done r, w')"
    "r_id r = next_uuid (the_db w)" "r_status r = Pending" "r_pipeline_id r = p_id p"
    "r_trigger_type r = tt" "script w' = []"
    "map r_id (pipeline_runs (the_db w')) = map r_id (pipeline_runs (the_db w)) @ [r_id r]"
    "jobs (the_db w') = jobs (the_db w) @ new"
    "pipelines (the_db w') = pipelines (the_db w)" "job_logs (the_db w') = job_logs (the_db w)"
    "mset (map job_spec_of new) = mset (config_specs stages)"
    "sched = id \<longrightarrow> map job_spec_of new = config_specs stages"
    "\<forall>j \<in> set new. j_pipeline_run_id j = r_id r \<and> j_status j = Pending \<and> j_retry_count j = 0"
    "r_trigger_metadata r = (case m of None \<Rightarrow> JObj [] | Some JNull \<Rightarrow> JObj [] | Some v \<Rightarrow> v)"
    "map run_origin (pipeline_runs (the_db w')) = map run_origin (pipeline_runs (the_db w)) @ [run_origin r]"
proof -
  from assms(1-3,6,7) obtain r w1 where r: "r_id r = next_uuid (the_db w)" "r_pipeline_id r = p_id p"
    "r_status r = Pending" "r_trigger_type r = tt"
    "r_trigger_metadata r = (case m of None \<Rightarrow> JObj [] | Some JNull \<Rightarrow> JObj [] | Some v \<Rightarrow> v)" and w1: "script w1 = []" "jobs (the_db w1) = jobs (the_db w)"
    "pipeline_runs (the_db w1) = pipeline_runs (the_db w) @ [r]"
    "pipelines (the_db w1) = pipelines (the_db w)" "job_logs (the_db w1) = job_logs (the_db w)"
    and t: "triggerRun b sched (Uuid_Param (p_id p)) tt m w =
       (case config_inserts (p_config p) of (inserts, threw) \<Rightarrow>
          seq (run_inserts b (r_id r) (sched inserts)) (\<lambda>failed.
            if threw then throw Type_Error
            else (case failed of Some e \<Rightarrow> throw e | None \<Rightarrow> ret r)) w1)"
    by (rule trigger_quiet)
  obtain ins where i: "config_inserts (p_config p) = (ins, False)"
    "map (insert_spec b) ins = map Some (config_specs stages)"
    using config_inserts_spec[OF assms(8,5)] assms(4) by auto
  define specs where "specs = map (\<lambda>a. the (insert_spec b a)) (sched ins)"
  have sets: "set (sched ins) = set ins" using assms(9)[of ins] by (metis set_mset_mset)
  have "insert_spec b a \<noteq> None" if "a \<in> set ins" for a
    using that i(2) by (metis image_iff list.set_map option.distinct(1))
  then have 1: "map (insert_spec b) (sched ins) = map Some specs"
    unfolding specs_def by (simp add: sets)
  have "mset (map Some specs) = mset (map Some (config_specs stages))"
    unfolding 1[symmetric] i(2)[symmetric] by (simp add: assms(9))
  then have 2: "mset specs = mset (config_specs stages)"
    using injD[OF multiset.inj_map[OF inj_Some]] by simp
  have "\<forall>s \<in> set specs. spec_fits s" using assms(5) 2 by (metis set_mset_mset)
  from run_inserts_quiet[OF 1 this w1(1), of "r_id r"] w1(3) obtain new w' where
    n: "run_inserts b (r_id r) (sched ins) w1 = (Done None, w')" "jobs (the_db w') = jobs (the_db w) @ new"
    "map job_spec_of new = specs"
    "\<forall>j \<in> set new. j_status j = Pending \<and> j_pipeline_run_id j = r_id r \<and> j_retry_count j = 0"
    "map run_origin (pipeline_runs (the_db w')) = map run_origin (pipeline_runs (the_db w)) @ [run_origin r]"
    "script w' = []" "pipelines (the_db w') = pipelines (the_db w)" "job_logs (the_db w') = job_logs (the_db w)"
    by (auto simp: w1(2,4,5))
  have "map job_spec_of new = config_specs stages" if "sched = id"
    using 1 i(2) n(3) that map_injective[OF _ inj_Some, of specs "config_specs stages"] by simp
  moreover have "triggerRun b sched (Uuid_Param (p_id p)) tt m w = (Done r, w')"
    by (simp add: t i(1) seq_def n(1) ret_def)
  ultimately show thesis
    by (intro that[of r w' new]) (use n r 2 origins_snoc[OF n(5)] in auto)
qed

text \<open>
  Property C24.  Triggering a pipeline with a well-formed configuration creates one pending
  run and queues exactly one pending job per step, in whatever order the concurrent inserts
  reach the database: with the stage's and the step's name and index, the command, and the
  step's priority, or 5.
\<close>

theorem trigger_queues_jobs:
  assumes "script w = []" "distinct (map p_id (pipelines (the_db w)))" "p \<in> set (pipelines (the_db w))"
    and "p_config p = config_json stages" "\<forall>s \<in> set (config_specs stages). spec_fits s"
    and "length tt \<le> 50" "\<forall>r \<in> set (pipeline_runs (the_db w)). r_id r < next_uuid (the_db w)"
    and "driver_ok b" "\<And>xs. mset (sched xs) = mset xs"
  shows "\<exists>r new w'. triggerRun b sched (Uuid_Param (p_id p)) tt m w = (Done r, w') \<and>
    r_status r = Pending \<and> r_pipeline_id r = p_id p \<and> r_trigger_type r = tt \<and>
    map r_id (pipeline_runs (the_db w')) = map r_id (pipeline_runs (the_db w)) @ [r_id r] \<and>
    jobs (the_db w') = jobs (the_db w) @ new \<and>
    mset (map job_spec_of new) = mset (config_specs stages) \<and>
    (\<forall>j \<in> set new. j_pipeline_run_id j = r_id r \<and> j_status j = Pending \<and> j_retry_count j = 0)"
  by (rule triggered[OF assms, of m]) blast

definition demo_pipeline :: "stage_config list \<Rightarrow> pipeline" where
  "demo_pipeline stages = \<lparr>p_id = 3, p_name = lit ''app'', p_repository = lit ''acme/app'',
     p_config = config_json stages, p_created_at = 0, p_updated_at = 0\<rparr>"

definition demo_stages :: "stage_config list" where
  "demo_stages =
     [\<lparr>st_name = lit ''build'', st_steps =
         [\<lparr>sc_name = lit ''install'', sc_command = lit ''npm ci'', sc_priority = None\<rparr>,
          \<lparr>sc_name = lit ''compile'', sc_command = lit ''make'', sc_priority = Some 9\<rparr>],
         st_env = Some [(lit ''CI'', lit ''1'')]\<rparr>,
      \<lparr>st_name = lit ''test'', st_steps =
         [\<lparr>sc_name = lit ''unit'', sc_command = lit ''make test'', sc_priority = None\<rparr>], st_env = None\<rparr>]"

definition demo_driver :: pg_driver where
  "demo_driver = \<lparr>text_of = \<lambda>v. (case v of JStr s \<Rightarrow> s | _ \<Rightarrow> []),
     int_of = \<lambda>v. (case v of JNum n \<Rightarrow> Some n | _ \<Rightarrow> None)\<rparr>"

definition demo_api :: "json \<Rightarrow> world" where
  "demo_api config = \<lparr>the_db = empty_db\<lparr>pipelines := [(demo_pipeline [])\<lparr>p_config := config\<rparr>],
     next_uuid := 10, run_trigger := True\<rparr>, clock = 7, aborted = False, clients = {}, script = []\<rparr>"

theorem trigger_queues_jobs_witness:
  "\<exists>r new w'. triggerRun demo_driver rev (Uuid_Param 3) (lit ''manual'') None (demo_api (config_json demo_stages)) = (Done r, w') \<and>
    r_status r = Pending \<and> jobs (the_db w') = new \<and>
    mset (map job_spec_of new) = mset
      [(lit ''build'', 0, lit ''install'', 0, lit ''npm ci'', 5), (lit ''build'', 0, lit ''compile'', 1, lit ''make'', 9),
       (lit ''test'', 1, lit ''unit'', 0, lit ''make test'', 5)]"
proof -
  have specs: "config_specs demo_stages =
      [(lit ''build'', 0, lit ''install'', 0, lit ''npm ci'', 5), (lit ''build'', 0, lit ''compile'', 1, lit ''make'', 9),
       (lit ''test'', 1, lit ''unit'', 0, lit ''make test'', 5)]"
    by (simp add: config_specs_def demo_stages_def step_specs_def)
  have "\<exists>r new w'. triggerRun demo_driver rev (Uuid_Param (p_id (demo_pipeline demo_stages))) (lit ''manual'') None
      (demo_api (config_json demo_stages)) = (Done r, w') \<and> r_status r = Pending \<and>
    r_pipeline_id r = p_id (demo_pipeline demo_stages) \<and> r_trigger_type r = lit ''manual'' \<and>
    map r_id (pipeline_runs (the_db w')) = map r_id (pipeline_runs (the_db (demo_api (config_json demo_stages)))) @ [r_id r] \<and>
    jobs (the_db w') = jobs (the_db (demo_api (config_json demo_stages))) @ new \<and>
    mset (map job_spec_of new) = mset (config_specs demo_stages) \<and>
    (\<forall>j \<in> set new. j_pipeline_run_id j = r_id r \<and> j_status j = Pending \<and> j_retry_count j = 0)"
    by (rule trigger_queues_jobs[where stages = demo_stages])
      (simp_all add: demo_api_def demo_pipeline_def empty_db_def specs spec_fits_def fits_int4_def driver_ok_def demo_driver_def)
  then obtain r new w' where "triggerRun demo_driver rev (Uuid_Param 3) (lit ''manual'') None
      (demo_api (config_json demo_stages)) = (Done r, w')" "r_status r = Pending" "jobs (the_db w') = new"
    "mset (map job_spec_of new) = mset (config_specs demo_stages)"
    by (auto simp: demo_pipeline_def demo_api_def empty_db_def)
  then show ?thesis unfolding specs by blast
qed

text \<open>The walk over the stages stops at the first that has no array of steps.\<close>

lemma stage_inserts_bad:
  assumes "\<forall>steps. js_prop bad ''steps'' \<noteq> Some (JArr steps)"
  shows "fst (stage_inserts k (map stage_json ss @ bad # rest)) = fst (stage_inserts k (map stage_json ss)) \<and>
      snd (stage_inserts k (map stage_json ss @ bad # rest))"
proof (induction ss arbitrary: k)
  case Nil
  show ?case using assms by (auto split: option.split json.split)
next
  case (Cons s ss)
  have st: "js_prop (stage_json s) ''steps'' = Some (JArr (map step_json (st_steps s)))"
    by (simp add: stage_json_def)
  obtain ins where "step_inserts (stage_json s) k 0 (map step_json (st_steps s)) = (ins, False)"
    using step_inserts_whole[of "stage_json s" k 0 "st_steps s"] by (cases "step_inserts (stage_json s) k 0
      (map step_json (st_steps s))") simp
  with Cons[of "Suc k"] show ?case
    by (simp add: st case_prod_beta)
qed

text \<open>
  A configuration that stops fitting at some stage (a stage without an array of
  steps) fails the request with a TypeError only after the run was created and the jobs of
  the stages before were queued: the half of the pipeline stays and will be run.
\<close>

theorem malformed_config_half_queued:
  assumes "script w = []" "distinct (map p_id (pipelines (the_db w)))" "p \<in> set (pipelines (the_db w))"
    and "p_config p = JObj [(lit ''stages'', JArr (map stage_json stages @ bad # rest))]"
    and "\<forall>steps. js_prop bad ''steps'' \<noteq> Some (JArr steps)"
    and "\<forall>s \<in> set (config_specs stages). spec_fits s"
    and "length tt \<le> 50" "\<forall>r \<in> set (pipeline_runs (the_db w)). r_id r < next_uuid (the_db w)"
    and "driver_ok b"
  shows "\<exists>new w'. triggerRun b id (Uuid_Param (p_id p)) tt m w = (Threw Type_Error, w') \<and>
    length (pipeline_runs (the_db w')) = length (pipeline_runs (the_db w)) + 1 \<and>
    jobs (the_db w') = jobs (the_db w) @ new \<and> map job_spec_of new = config_specs stages \<and>
    (\<forall>j \<in> set new. j_status j = Pending)"
proof -
  from assms(1-3,7,8) obtain r w1 where r: "r_id r = next_uuid (the_db w)"
    and w1: "script w1 = []" "jobs (the_db w1) = jobs (the_db w)"
    "pipeline_runs (the_db w1) = pipeline_runs (the_db w) @ [r]"
    and t: "triggerRun b id (Uuid_Param (p_id p)) tt m w =
       (case config_inserts (p_config p) of (inserts, threw) \<Rightarrow>
          seq (run_inserts b (r_id r) (id inserts)) (\<lambda>failed.
            if threw then throw Type_Error
            else (case failed of Some e \<Rightarrow> throw e | None \<Rightarrow> ret r)) w1)"
    by (rule trigger_quiet)
  note stage_inserts_bad[OF assms(5), of 0 stages rest]
  moreover obtain ins where i: "stage_inserts 0 (map stage_json stages) = (ins, False)"
    "map (insert_spec b) ins = map Some (config_specs stages)"
    using stage_inserts_spec[OF assms(9) config_priorities[OF assms(6)], of 0] by (auto simp: config_specs_def)
  ultimately have "stage_inserts 0 (map stage_json stages @ bad # rest) = (ins, True)"
    by (metis fst_conv prod.collapse)
  then have c: "config_inserts (p_config p) = (ins, True)"
    by (simp add: config_inserts_def assms(4))
  from run_inserts_quiet[OF i(2) assms(6) w1(1), of "r_id r"] w1(3) obtain new w' where
    n: "run_inserts b (r_id r) ins w1 = (Done None, w')" "jobs (the_db w') = jobs (the_db w) @ new"
    "map job_spec_of new = config_specs stages" "\<forall>j \<in> set new. j_status j = Pending"
    "map run_origin (pipeline_runs (the_db w')) = map run_origin (pipeline_runs (the_db w)) @ [run_origin r]"
    by (auto simp: w1(2))
  have "length (pipeline_runs (the_db w')) = length (pipeline_runs (the_db w)) + 1"
    using arg_cong[OF n(5), of length] by simp
  moreover have "triggerRun b id (Uuid_Param (p_id p)) tt m w = (Threw Type_Error, w')"
    by (simp add: t c seq_def n(1) throw_def)
  ultimately show ?thesis using n by blast
qed

theorem malformed_config_half_queued_witness:
  "\<exists>new w'. triggerRun demo_driver id (Uuid_Param 3) (lit ''manual'') None
      (demo_api (JObj [(lit ''stages'', JArr (map stage_json demo_stages @ JNum 0 # []))])) = (Threw Type_Error, w') \<and>
    length (pipeline_runs (the_db w')) = 1 \<and> jobs (the_db w') = new \<and> length new = 3"
proof -
  let ?c = "JObj [(lit ''stages'', JArr (map stage_json demo_stages @ JNum 0 # []))]"
  let ?p = "(demo_pipeline [])\<lparr>p_config := ?c\<rparr>"
  have specs: "config_specs demo_stages =
      [(lit ''build'', 0, lit ''install'', 0, lit ''npm ci'', 5), (lit ''build'', 0, lit ''compile'', 1, lit ''make'', 9),
       (lit ''test'', 1, lit ''unit'', 0, lit ''make test'', 5)]"
    by (simp add: config_specs_def demo_stages_def step_specs_def)
  have "\<exists>new w'. triggerRun demo_driver id (Uuid_Param (p_id ?p)) (lit ''manual'') None (demo_api ?c) = (Threw Type_Error, w') \<and>
    length (pipeline_runs (the_db w')) = length (pipeline_runs (the_db (demo_api ?c))) + 1 \<and>
    jobs (the_db w') = jobs (the_db (demo_api ?c)) @ new \<and> map job_spec_of new = config_specs demo_stages \<and>
    (\<forall>j \<in> set new. j_status j = Pending)"
    by (rule malformed_config_half_queued[where bad = "JNum 0" and rest = "[]"])
      (simp_all add: demo_api_def demo_pipeline_def empty_db_def specs spec_fits_def fits_int4_def driver_ok_def demo_driver_def)
  then obtain new w' where n: "triggerRun demo_driver id (Uuid_Param (p_id ?p)) (lit ''manual'') None (demo_api ?c) = (Threw Type_Error, w')"
    "length (pipeline_runs (the_db w')) = length (pipeline_runs (the_db (demo_api ?c))) + 1"
    "jobs (the_db w') = jobs (the_db (demo_api ?c)) @ new" "map job_spec_of new = config_specs demo_stages"
    by blast
  have "length new = 3" using arg_cong[OF n(4), of length] by (simp add: specs)
  with n(1-3) show ?thesis by (simp add: demo_pipeline_def demo_api_def empty_db_def)
qed


section \<open>Pushes\<close>

fun first_some :: "'a option list \<Rightarrow> 'a option" where
  "first_some [] = None"
| "first_some (None # xs) = first_some xs"
| "first_some (Some x # xs) = Some x"

lemma first_some_single [simp]: "first_some [x] = x"
  by (cases x) simp_all

definition string_at :: "json \<Rightarrow> string \<Rightarrow> string \<Rightarrow> ustring option" where
  "string_at body k k' = (case js_prop body k of None \<Rightarrow> None | Some v \<Rightarrow> string_prop v k')"

lemma falsy_has_no_props: "\<not> truthy v \<Longrightarrow> string_prop v k = None"
  by (cases v) (auto simp: string_prop_def)

lemma truthy_prop_string:
  "(case truthy_prop body k of None \<Rightarrow> None | Some v \<Rightarrow> string_prop v k') = string_at body k k'"
  by (auto simp: truthy_prop_def string_at_def falsy_has_no_props split: option.split)

text \<open>
  The repository of a push is the first of these that is a string, whatever
  else and whatever kinds of values the payload holds: repo, repository.full_name,
  repository.clone_url, project.path_with_namespace, project.web_url.
\<close>

theorem repo_precedence:
  "getRepoFromPayload body = first_some
     [string_prop body ''repo'', string_at body ''repository'' ''full_name'',
      string_at body ''repository'' ''clone_url'', string_at body ''project'' ''path_with_namespace'',
      string_at body ''project'' ''web_url'']"
proof -
  have gl: "gitlab_repo body = first_some [string_at body ''project'' ''path_with_namespace'',
      string_at body ''project'' ''web_url'']"
    unfolding gitlab_repo_def truthy_prop_string[symmetric]
    by (auto split: option.split)
  show ?thesis
    unfolding getRepoFromPayload_def gl truthy_prop_string[where body = body and k = "''repository''", symmetric]
    by (auto split: option.split)
qed

text \<open>
  The payload as its type declares it (\<open>GitWebhookPayload\<close>): the repository, and possibly a ref, a
  branch, a commit, a message and an author; any further field may be there.
\<close>

record git_webhook_payload =
  gp_repo :: ustring
  gp_ref :: "ustring option"
  gp_branch :: "ustring option"
  gp_commit :: "ustring option"
  gp_message :: "ustring option"
  gp_author :: "ustring option"
  gp_author_email :: "ustring option"
  gp_extra :: "(ustring \<times> json) list"

definition payload_json :: "git_webhook_payload \<Rightarrow> json" where
  "payload_json p =
     (let may = (\<lambda>k v. case v of None \<Rightarrow> [] | Some t \<Rightarrow> [(lit k, JStr t)])
      in JObj ((lit ''repo'', JStr (gp_repo p)) # may ''ref'' (gp_ref p) @ may ''branch'' (gp_branch p) @
           may ''commit'' (gp_commit p) @ may ''message'' (gp_message p) @ may ''author'' (gp_author p) @
           may ''author_email'' (gp_author_email p) @ gp_extra p))"

text \<open>The controller finds the repository of such a payload, whatever else is in it.\<close>

lemma typed_payload_repo: "getRepoFromPayload (payload_json p) = Some (gp_repo p)"
  by (simp add: getRepoFromPayload_def string_prop_def js_prop_def payload_json_def Let_def)

lemma config_accepted:
  assumes "p_config p = config_json stages" "\<forall>s \<in> set (config_specs stages). spec_fits s" "driver_ok b"
  obtains ins where "config_inserts (p_config p) = (ins, False)" "\<forall>a \<in> set ins. accepted b a"
    "map (insert_spec b) ins = map Some (config_specs stages)"
proof -
  obtain ins where i: "config_inserts (p_config p) = (ins, False)"
    "map (insert_spec b) ins = map Some (config_specs stages)"
    using config_inserts_spec[OF assms(3,2)] assms(1) by auto
  have "accepted b a" if "a \<in> set ins" for a
  proof -
    have "insert_spec b a \<in> set (map Some (config_specs stages))" unfolding i(2)[symmetric] using that by simp
    with assms(2) show ?thesis by (auto simp: accepted_def)
  qed
  with i show thesis by (intro that) auto
qed

text \<open>
  Property C25.  A push without a repository is refused with 400 and one for an unknown
  repository with 404, and neither changes anything.  A push for a pipeline's repository adds
  one run of that pipeline, triggered as git_push with the payload as its metadata, and queues
  one pending job for every insert of the configuration that the database accepts, whatever
  JSON the configuration is and in whatever order the inserts arrive.  It answers with the run
  when the configuration could be walked to its end and every insert was accepted, and
  otherwise fails, with a TypeError or the error of an insert, while the run and the accepted
  jobs stay.  For a configuration of the declared type whose values fit their columns, the
  answer is the run and the jobs are exactly those of its steps.
\<close>

theorem push_outcome:
  assumes "script w = []" "distinct (map p_id (pipelines (the_db w)))"
    and "\<forall>r \<in> set (pipeline_runs (the_db w)). r_id r < next_uuid (the_db w)"
    and "driver_ok b" "\<And>xs. mset (sched xs) = mset xs"
  shows "case getRepoFromPayload body of
      None \<Rightarrow> handlePush b sched body w = (Threw missing_repo, w)
    | Some repo \<Rightarrow>
        if repo = [] then handlePush b sched body w = (Threw missing_repo, w)
        else case find (\<lambda>p. p_repository p = repo) (pipelines (the_db w)) of
          None \<Rightarrow> handlePush b sched body w = (Threw (no_pipeline repo), w)
        | Some p \<Rightarrow> \<exists>new w' answer. handlePush b sched body w = (answer, w') \<and>
            map run_origin (pipeline_runs (the_db w')) = map run_origin (pipeline_runs (the_db w)) @
              [(next_uuid (the_db w), p_id p, lit ''git_push'', body)] \<and>
            jobs (the_db w') = jobs (the_db w) @ new \<and>
            (\<forall>j \<in> set new. j_pipeline_run_id j = next_uuid (the_db w) \<and> j_status j = Pending) \<and>
            (case config_inserts (p_config p) of (inserts, threw) \<Rightarrow>
               map (\<lambda>j. Some (job_spec_of j)) new = map (insert_spec b) (filter (accepted b) (sched inserts)) \<and>
               (if threw then answer = Threw Type_Error
                else if \<forall>a \<in> set inserts. accepted b a
                then answer = Done \<lparr>pr_runId = next_uuid (the_db w), pr_pipelineId = p_id p, pr_status = Pending\<rparr>
                else \<exists>e. answer = Threw (Query_Failed e))) \<and>
            (\<forall>stages. p_config p = config_json stages \<longrightarrow> (\<forall>s \<in> set (config_specs stages). spec_fits s) \<longrightarrow>
               answer = Done \<lparr>pr_runId = next_uuid (the_db w), pr_pipelineId = p_id p, pr_status = Pending\<rparr> \<and>
               mset (map job_spec_of new) = mset (config_specs stages))"
proof (cases "getRepoFromPayload body")
  case None
  then show ?thesis by (simp add: handlePush_def throw_def)
next
  case (Some repo)
  show ?thesis
  proof (cases "repo = [] \<or> find (\<lambda>p. p_repository p = repo) (pipelines (the_db w)) = None")
    case True
    then show ?thesis
      using assms(1) Some by (auto simp: handlePush_def throw_def seq_def findByRepository_def query_quiet
          sql_find_pipeline_by_repository_def)
  next
    case False
    then obtain p where f: "find (\<lambda>p. p_repository p = repo) (pipelines (the_db w)) = Some p" "repo \<noteq> []" by auto
    then have p: "p \<in> set (pipelines (the_db w))" by (auto simp: find_Some_iff)
    obtain ins threw where c: "config_inserts (p_config p) = (ins, threw)" by fastforce
    have tt: "length (lit ''git_push'') \<le> 50" by simp
    from assms(1,2) p tt assms(3) obtain r w1 where r: "r_id r = next_uuid (the_db w)" "r_pipeline_id r = p_id p"
      "r_status r = Pending" "r_trigger_type r = lit ''git_push''"
      "r_trigger_metadata r = (case Some body of None \<Rightarrow> JObj [] | Some JNull \<Rightarrow> JObj [] | Some v \<Rightarrow> v)"
      and w1: "script w1 = []" "jobs (the_db w1) = jobs (the_db w)"
      "pipeline_runs (the_db w1) = pipeline_runs (the_db w) @ [r]"
      and t: "triggerRun b sched (Uuid_Param (p_id p)) (lit ''git_push'') (Some body) w =
         (case config_inserts (p_config p) of (inserts, threw) \<Rightarrow>
            seq (run_inserts b (r_id r) (sched inserts)) (\<lambda>failed.
              if threw then throw Type_Error
              else (case failed of Some e \<Rightarrow> throw e | None \<Rightarrow> ret r)) w1)"
      by (rule trigger_quiet[of w p "lit ''git_push''" "Some body" b sched]) blast
    have "body \<noteq> JNull" using Some by (auto simp: getRepoFromPayload_def string_prop_def truthy_prop_def
        gitlab_repo_def js_prop_def)
    then have "r_trigger_metadata r = body" using r(5) by (auto split: json.splits)
    then have origin: "run_origin r = (next_uuid (the_db w), p_id p, lit ''git_push'', body)"
      using r(1,2,4) by (simp add: run_origin_def)
    have "r_id r \<in> r_id ` set (pipeline_runs (the_db w1))" by (simp add: w1(3))
    from run_inserts_any[OF w1(1) this, of b "sched ins"] obtain new w' failed where
      n: "run_inserts b (r_id r) (sched ins) w1 = (Done failed, w')" "jobs (the_db w') = jobs (the_db w) @ new"
      "map (\<lambda>j. Some (job_spec_of j)) new = map (insert_spec b) (filter (accepted b) (sched ins))"
      "\<forall>j \<in> set new. j_status j = Pending \<and> j_pipeline_run_id j = r_id r"
      "map run_origin (pipeline_runs (the_db w')) = map run_origin (pipeline_runs (the_db w)) @ [run_origin r]"
      "if \<forall>a \<in> set (sched ins). accepted b a then failed = None else \<exists>e. failed = Some (Query_Failed e)"
      by (auto simp: w1(2,3))
    have sets: "set (sched ins) = set ins" using assms(5)[of ins] by (metis set_mset_mset)
    define answer where "answer = (if threw then Threw Type_Error else case failed of Some e \<Rightarrow> Threw e
      | None \<Rightarrow> Done \<lparr>pr_runId = next_uuid (the_db w), pr_pipelineId = p_id p, pr_status = Pending\<rparr>)"
    have "triggerRun b sched (Uuid_Param (p_id p)) (lit ''git_push'') (Some body) w =
        (if threw then Threw Type_Error else case failed of Some e \<Rightarrow> Threw e | None \<Rightarrow> Done r, w')"
      by (simp add: t c seq_def n(1) ret_def throw_def split: option.split)
    then have push: "handlePush b sched body w = (answer, w')"
      using assms(1) f Some r(1,3) by (simp add: handlePush_def seq_def findByRepository_def query_quiet
          sql_find_pipeline_by_repository_def ret_def answer_def split: option.split)
    have typed: "answer = Done \<lparr>pr_runId = next_uuid (the_db w), pr_pipelineId = p_id p, pr_status = Pending\<rparr> \<and>
        mset (map job_spec_of new) = mset (config_specs stages)"
      if stages: "p_config p = config_json stages" "\<forall>s \<in> set (config_specs stages). spec_fits s" for stages
    proof -
      have i: "\<not> threw" "\<forall>a \<in> set ins. accepted b a"
        "map (insert_spec b) ins = map Some (config_specs stages)"
        by (rule config_accepted[OF stages assms(4)]; use c in auto)+
      have "filter (accepted b) (sched ins) = sched ins" using i(2) sets by (simp add: filter_id_conv)
      then have "mset (map Some (map job_spec_of new)) = mset (map (insert_spec b) (sched ins))"
        using n(3) by (simp add: comp_def)
      also have "\<dots> = mset (map Some (config_specs stages))"
        unfolding i(3)[symmetric] by (simp add: assms(5))
      finally have "mset (map job_spec_of new) = mset (config_specs stages)"
        unfolding mset_map[of Some] by (rule injD[OF multiset.inj_map[OF inj_Some]])
      moreover have "failed = None" using n(6) i(2) sets by simp
      ultimately show ?thesis using i(1) by (simp add: answer_def)
    qed
    have "if threw then answer = Threw Type_Error
        else if \<forall>a \<in> set ins. accepted b a
        then answer = Done \<lparr>pr_runId = next_uuid (the_db w), pr_pipelineId = p_id p, pr_status = Pending\<rparr>
        else \<exists>e. answer = Threw (Query_Failed e)"
      using n(6) unfolding answer_def sets by (auto split: if_splits)
    then show ?thesis
      unfolding Some option.case if_not_P[OF f(2)] f(1) c prod.case
      by (intro exI[of _ new] exI[of _ w'] exI[of _ answer] conjI push n(2,3) allI impI)
        (use n(4,5) typed r(1) origin in auto)
  qed
qed

text \<open>A configuration with a stage that has no name: its job is refused, the other stays.\<close>

definition nameless_config :: json where
  "nameless_config = JObj [(lit ''stages'', JArr
     [JObj [(lit ''steps'', JArr [JObj [(lit ''name'', JStr (lit ''a'')), (lit ''command'', JStr [])]])],
      JObj [(lit ''name'', JStr (lit ''test'')), (lit ''steps'', JArr [JObj [(lit ''name'', JStr (lit ''b'')),
        (lit ''command'', JStr [])]])]])]"

lemma nameless_inserts:
  "\<exists>a1 a2. config_inserts nameless_config = ([a1, a2], False) \<and> \<not> accepted demo_driver a1 \<and>
     accepted demo_driver a2 \<and> insert_spec demo_driver a2 = Some (lit ''test'', 1, lit ''b'', 0, [], 5)"
  by (simp add: nameless_config_def config_inserts_def accepted_def insert_spec_def demo_driver_def nullish_def
      spec_fits_def fits_int4_def)

theorem push_outcome_witness:
  "\<exists>new w' e. handlePush demo_driver rev (JObj [(lit ''repo'', JStr (lit ''acme/app''))])
       (demo_api nameless_config) = (Threw (Query_Failed e), w') \<and> jobs (the_db w') = new \<and>
     map (\<lambda>j. Some (job_spec_of j)) new = [Some (lit ''test'', 1, lit ''b'', 0, [], 5)]"
proof -
  let ?w = "demo_api nameless_config"
  let ?body = "JObj [(lit ''repo'', JStr (lit ''acme/app''))]"
  have w: "script ?w = []" "distinct (map p_id (pipelines (the_db ?w)))"
    "\<forall>r \<in> set (pipeline_runs (the_db ?w)). r_id r < next_uuid (the_db ?w)"
    and jobs: "jobs (the_db ?w) = []" and d: "driver_ok demo_driver"
    by (simp_all add: demo_api_def empty_db_def driver_ok_def demo_driver_def)
  have repo: "getRepoFromPayload ?body = Some (lit ''acme/app'')" "lit ''acme/app'' \<noteq> []"
    by (simp_all add: getRepoFromPayload_def string_prop_def)
  have p: "find (\<lambda>p. p_repository p = lit ''acme/app'') (pipelines (the_db ?w)) =
      Some ((demo_pipeline [])\<lparr>p_config := nameless_config\<rparr>)"
    "p_config ((demo_pipeline [])\<lparr>p_config := nameless_config\<rparr>) = nameless_config"
    by (simp_all add: demo_api_def demo_pipeline_def)
  obtain a1 a2 where ins: "config_inserts nameless_config = ([a1, a2], False)"
    "\<not> accepted demo_driver a1" "accepted demo_driver a2"
    "insert_spec demo_driver a2 = Some (lit ''test'', 1, lit ''b'', 0, [], 5)"
    using nameless_inserts by blast
  have "\<And>xs. mset (rev xs) = mset xs" by simp
  note push = push_outcome[OF w d this, of ?body, unfolded repo(1) option.case if_not_P[OF repo(2)] p ins(1) prod.case]
  then show ?thesis using ins(2-4) unfolding jobs by auto
qed

section \<open>Deleting and seeding\<close>

lemma delete_pipeline_logs:
  assumes "sql_delete_pipeline (Uuid_Param k) now d = Inr (n, d')" "refs_ok d"
  shows "set (job_logs d') = {l \<in> set (job_logs d). l_job_id l \<in> j_id ` set (jobs d')}"
proof -
  obtain G where g: "jobs d' = delete_where (\<lambda>j. j_id j \<in> G) (jobs d)"
      "job_logs d' = delete_where (\<lambda>l. l_job_id l \<in> G) (job_logs d)"
    using assms(1) by (auto simp: sql_delete_pipeline_def uuid_param_def Let_def split: if_splits)
  have "\<forall>l \<in> set (job_logs d). l_job_id l \<in> j_id ` set (jobs d)"
    using assms(2) by (simp add: refs_ok_def)
  then have "l_job_id l \<notin> G \<longleftrightarrow> l_job_id l \<in> j_id ` {j \<in> set (jobs d). j_id j \<notin> G}"
    if "l \<in> set (job_logs d)" for l
    using that by fastforce
  then show ?thesis by (auto simp: g delete_where_def)
qed

lemma delete_pipeline_rest:
  assumes "sql_delete_pipeline (Uuid_Param k) now d = Inr (n, d')"
  shows "deployment_locks d' = deployment_locks d" "webhooks_outbox d' = webhooks_outbox d"
  using assms by (auto simp: sql_delete_pipeline_def uuid_param_def Let_def split: if_splits)

lemma delete_without_runs:
  assumes "\<forall>r \<in> set (pipeline_runs d). r_pipeline_id r \<noteq> k"
  shows "sql_delete_pipeline (Uuid_Param k) now d =
    Inr (length (filter (\<lambda>p. p_id p = k) (pipelines d)),
      d\<lparr>pipelines := filter (\<lambda>p. p_id p \<noteq> k) (pipelines d)\<rparr>)"
proof -
  have none: "{r \<in> set (pipeline_runs d). r_pipeline_id r = k} = {}" using assms by blast
  have "d\<lparr>pipelines := ps, pipeline_runs := pipeline_runs d, jobs := jobs d, job_logs := job_logs d\<rparr> =
      d\<lparr>pipelines := ps\<rparr>" for ps
    by simp
  then show ?thesis
    unfolding sql_delete_pipeline_def uuid_param_def path_id.case sum.case Let_def none
    by (simp add: delete_where_def)
qed

text \<open>A job survives when its run does.\<close>

lemma deleted_jobs:
  assumes "sql_delete_pipeline (Uuid_Param k) now d = Inr (n, d')" "jobs_inv d" "j \<in> set (jobs d)"
  shows "j \<in> set (jobs d') \<longleftrightarrow> (\<exists>r \<in> set (pipeline_runs d'). r_id r = j_pipeline_run_id j)"
proof -
  note cascade = delete_pipeline_jobs[OF assms(1,2)]
  have k: "keys_ok d" by (rule jobs_invD[OF assms(2)])
  then have rids: "distinct (map r_id (pipeline_runs d))" by (simp add: keys_ok_def)
  from k assms(3) have "j_pipeline_run_id j \<in> r_id ` set (pipeline_runs d)" by (simp add: keys_ok_def)
  then obtain r where r: "r \<in> set (pipeline_runs d)" "r_id r = j_pipeline_run_id j" by auto
  note one = run_rows.key_ex[OF rids r(1), unfolded r(2)]
  have "j \<in> set (jobs d') \<longleftrightarrow> \<not> (\<exists>q \<in> set (pipeline_runs d). r_id q = j_pipeline_run_id j \<and> r_pipeline_id q = k)"
    using assms(3) by (auto simp: cascade(1) image_iff)
  also have "\<dots> \<longleftrightarrow> (\<exists>q \<in> set (pipeline_runs d). r_id q = j_pipeline_run_id j \<and> r_pipeline_id q \<noteq> k)"
    by (simp only: one)
  also have "\<dots> \<longleftrightarrow> (\<exists>r \<in> set (pipeline_runs d'). r_id r = j_pipeline_run_id j)"
    by (auto simp: cascade(2))
  finally show ?thesis .
qed

lemma delete_unknown:
  assumes "script w = []" "refs_ok (the_db w)" "\<forall>p \<in> set (pipelines (the_db w)). p_id p \<noteq> k"
  shows "delete_pipeline (Uuid_Param k) w = (Threw pipeline_not_found, w)"
proof -
  let ?d = "the_db w"
  have "\<forall>r \<in> set (pipeline_runs ?d). r_pipeline_id r \<noteq> k"
    using assms(2,3) by (force simp: refs_ok_def)
  moreover have "filter (\<lambda>p. p_id p \<noteq> k) (pipelines ?d) = pipelines ?d"
    "length (filter (\<lambda>p. p_id p = k) (pipelines ?d)) = 0"
    using assms(3) by (auto simp: filter_empty_conv intro: filter_True)
  ultimately have "sql_delete_pipeline (Uuid_Param k) (clock w) ?d = Inr (0, ?d)"
    by (simp add: delete_without_runs)
  then show ?thesis
    using assms(1) by (simp add: delete_pipeline_def pipelines_remove_def try_catch_def seq_def
        query_quiet throw_def)
qed

text \<open>
  Property C9.  While nothing interferes, deleting a pipeline answers 404 and changes nothing when there is no such
  pipeline, but also when there is one and a run of it is still named by a row of
  deployment_locks; otherwise exactly the pipeline, its runs, their jobs and their logs are
  gone, and every other row of these tables, the lock rows and the outbox are still there.
\<close>

theorem delete_pipeline_outcome:
  assumes "script w = []" "sound (the_db w)"
  shows "(if (\<forall>p \<in> set (pipelines (the_db w)). p_id p \<noteq> k) \<or>
       (\<exists>l \<in> set (deployment_locks (the_db w)). \<exists>r \<in> set (pipeline_runs (the_db w)).
          dl_locked_by l = Some (r_id r) \<and> r_pipeline_id r = k)
     then delete_pipeline (Uuid_Param k) w = (Threw pipeline_not_found, w)
     else \<exists>w'. delete_pipeline (Uuid_Param k) w = (Done (), w') \<and>
       set (pipelines (the_db w')) = {p \<in> set (pipelines (the_db w)). p_id p \<noteq> k} \<and>
       set (pipeline_runs (the_db w')) = {r \<in> set (pipeline_runs (the_db w)). r_pipeline_id r \<noteq> k} \<and>
       (\<forall>j \<in> set (jobs (the_db w)). j \<in> set (jobs (the_db w')) \<longleftrightarrow>
          (\<exists>r \<in> set (pipeline_runs (the_db w')). r_id r = j_pipeline_run_id j)) \<and>
       set (jobs (the_db w')) \<subseteq> set (jobs (the_db w)) \<and>
       set (job_logs (the_db w')) =
         {l \<in> set (job_logs (the_db w)). l_job_id l \<in> j_id ` set (jobs (the_db w'))} \<and>
       deployment_locks (the_db w') = deployment_locks (the_db w) \<and>
       webhooks_outbox (the_db w') = webhooks_outbox (the_db w) \<and> sound (the_db w'))"
proof (cases "\<exists>l \<in> set (deployment_locks (the_db w)). \<exists>r \<in> set (pipeline_runs (the_db w)).
          dl_locked_by l = Some (r_id r) \<and> r_pipeline_id r = k")
  case True
  then have "sql_delete_pipeline (Uuid_Param k) (clock w) (the_db w) = Inl Foreign_Key_Violation"
    by (force simp: sql_delete_pipeline_def uuid_param_def Let_def)
  with True show ?thesis
    using assms(1) by (simp add: delete_pipeline_def pipelines_remove_def try_catch_def seq_def query_quiet throw_def)
next
  case unlocked: False
  let ?d = "the_db w"
  have free: "\<not> (\<exists>l \<in> set (deployment_locks ?d). dl_locked_by l \<in>
      Some ` r_id ` {r \<in> set (pipeline_runs ?d). r_pipeline_id r = k})"
    using unlocked by auto
  obtain d' where s: "sql_delete_pipeline (Uuid_Param k) (clock w) ?d =
      Inr (length (filter (\<lambda>p. p_id p = k) (pipelines ?d)), d')"
    using free by (auto simp: sql_delete_pipeline_def uuid_param_def Let_def)
  note cascade = delete_pipeline_jobs[OF s soundD(1)[OF assms(2)]]
  show ?thesis
  proof (cases "\<exists>p \<in> set (pipelines ?d). p_id p = k")
    case True
    then have "length (filter (\<lambda>p. p_id p = k) (pipelines ?d)) \<noteq> 0" by (auto simp: filter_empty_conv)
    then have "delete_pipeline (Uuid_Param k) w = (Done (), w\<lparr>the_db := d'\<rparr>)"
      using assms(1) s by (simp add: delete_pipeline_def pipelines_remove_def try_catch_def seq_def
          query_quiet ret_def)
    moreover have "set (pipelines d') = {p \<in> set (pipelines ?d). p_id p \<noteq> k}"
      using s by (cases rule: delete_pipeline_runs) simp
    moreover have "sound d'" by (rule delete_pipeline_sound[OF s assms(2)])
    moreover have "j \<in> set (jobs d') \<longleftrightarrow> (\<exists>r \<in> set (pipeline_runs d'). r_id r = j_pipeline_run_id j)"
      if "j \<in> set (jobs ?d)" for j
      by (rule deleted_jobs[OF s soundD(1)[OF assms(2)] that])
    moreover have "set (jobs d') \<subseteq> set (jobs ?d)" by (auto simp: cascade)
    moreover have "set (job_logs d') = {l \<in> set (job_logs ?d). l_job_id l \<in> j_id ` set (jobs d')}"
      by (rule delete_pipeline_logs[OF s soundD(2)[OF assms(2)]])
    ultimately show ?thesis using True unlocked cascade(2) delete_pipeline_rest[OF s] by simp
  next
    case False
    from delete_unknown[OF assms(1) soundD(2)[OF assms(2)]] False
    have "delete_pipeline (Uuid_Param k) w = (Threw pipeline_not_found, w)" by blast
    with False show ?thesis by simp
  qed
qed

theorem delete_pipeline_outcome_witness:
  "let w = (demo_api (config_json []));
       locked = w\<lparr>the_db := (the_db w)\<lparr>pipeline_runs := [\<lparr>r_id = 1, r_pipeline_id = 3, r_trigger_type = [],
         r_trigger_metadata = JNull, r_status = Pending, r_started_at = None, r_completed_at = None, r_created_at = 0\<rparr>],
         deployment_locks := [\<lparr>dl_environment = [], dl_locked_by = Some 1, dl_locked_at = 0, dl_expires_at = None\<rparr>]\<rparr>\<rparr>
   in delete_pipeline (Uuid_Param 3) locked = (Threw pipeline_not_found, locked) \<and>
      (\<exists>w'. delete_pipeline (Uuid_Param 3) w = (Done (), w') \<and> pipelines (the_db w') = [])"
proof -
  let ?w = "demo_api (config_json [])"
  let ?l = "?w\<lparr>the_db := (the_db ?w)\<lparr>pipeline_runs := [\<lparr>r_id = 1, r_pipeline_id = 3, r_trigger_type = [],
         r_trigger_metadata = JNull, r_status = Pending, r_started_at = None, r_completed_at = None, r_created_at = 0\<rparr>],
         deployment_locks := [\<lparr>dl_environment = [], dl_locked_by = Some 1, dl_locked_at = 0, dl_expires_at = None\<rparr>]\<rparr>\<rparr>"
  have s: "sound (the_db ?w)" "sound (the_db ?l)"
    by (simp_all add: demo_api_def demo_pipeline_def sound_def jobs_inv_def keys_ok_def empty_db_def refs_ok_def
        locks_exclusive_def al.exclusive_def holds_lock_def all_runs_synced_def run_synced_def run_jobs_def)
  have "delete_pipeline (Uuid_Param 3) ?l = (Threw pipeline_not_found, ?l)"
    using delete_pipeline_outcome[of ?l 3, OF _ s(2)] by (simp add: demo_api_def demo_pipeline_def empty_db_def)
  moreover have "\<exists>w'. delete_pipeline (Uuid_Param 3) ?w = (Done (), w') \<and> pipelines (the_db w') = []"
  proof -
    have c: "\<not> ((\<forall>p \<in> set (pipelines (the_db ?w)). p_id p \<noteq> 3) \<or>
        (\<exists>l \<in> set (deployment_locks (the_db ?w)). \<exists>r \<in> set (pipeline_runs (the_db ?w)).
          dl_locked_by l = Some (r_id r) \<and> r_pipeline_id r = 3))"
      and e: "{p \<in> set (pipelines (the_db ?w)). p_id p \<noteq> 3} = {}" and q: "script ?w = []"
      by (auto simp: demo_api_def demo_pipeline_def empty_db_def)
    from delete_pipeline_outcome[OF q s(1), of 3, unfolded if_not_P[OF c] e set_empty]
    show ?thesis by blast
  qed
  ultimately show ?thesis unfolding Let_def by blast
qed

lemma save_all_quiet:
  assumes "script w = []" "\<forall>(n, r, c) \<in> set rows. length n \<le> 255 \<and> length r \<le> 500"
  shows "\<exists>ps n. save_all rows w = (Done (), w\<lparr>the_db := (the_db w)\<lparr>pipelines := pipelines (the_db w) @ ps,
      next_uuid := n\<rparr>\<rparr>) \<and> length ps = length rows"
  using assms
proof (induction rows arbitrary: w)
  case Nil
  have "w = w\<lparr>the_db := (the_db w)\<lparr>pipelines := pipelines (the_db w) @ [], next_uuid := next_uuid (the_db w)\<rparr>\<rparr>"
    by simp
  then show ?case by (auto simp: ret_def intro!: exI[of _ "[]"] exI[of _ "next_uuid (the_db w)"])
next
  case (Cons x rows)
  obtain n r c where x: "x = (n, r, c)" by (cases x)
  let ?p = "\<lparr>p_id = next_uuid (the_db w), p_name = n, p_repository = r, p_config = c,
      p_created_at = clock w, p_updated_at = clock w\<rparr>"
  let ?w = "w\<lparr>the_db := (the_db w)\<lparr>pipelines := pipelines (the_db w) @ [?p], next_uuid := next_uuid (the_db w) + 1\<rparr>\<rparr>"
  have q: "query (sql_insert_pipeline n r c) w = (Done ?p, ?w)"
    using Cons.prems by (simp add: query_quiet sql_insert_pipeline_def Let_def x)
  obtain ps k where "save_all rows ?w = (Done (), ?w\<lparr>the_db := (the_db ?w)\<lparr>pipelines := pipelines (the_db ?w) @ ps,
      next_uuid := k\<rparr>\<rparr>)" "length ps = length rows"
    using Cons.IH[of ?w] Cons.prems by auto
  then show ?case
    by (intro exI[of _ "?p # ps"] exI[of _ k]) (simp add: x seq_def q)
qed

text \<open>What seeding comes to when nothing interferes: the view is kept if it is there.\<close>

definition seeded_view :: "timestamp \<Rightarrow> db \<Rightarrow> db" where
  "seeded_view now d = d\<lparr>pipeline_stats :=
     (case pipeline_stats d of None \<Rightarrow> Some (stats_of now d) | Some s \<Rightarrow> Some s), run_trigger := True\<rparr>"

lemma seed_quiet:
  assumes "script w = []"
  obtains ps n where "seedOnModuleInit True w = (Done (), w\<lparr>the_db := seeded_view (clock w)
      ((the_db w)\<lparr>pipelines := pipelines (the_db w) @ ps, next_uuid := n\<rparr>)\<rparr>)"
    "length ps = (if pipelines (the_db w) = [] then 3 else 0)"
    "pipelines (the_db w) \<noteq> [] \<Longrightarrow> n = next_uuid (the_db w)"
proof -
  let ?rows = PIPELINE_SEED
  have fits: "\<forall>(n, r, c) \<in> set ?rows. length n \<le> 255 \<and> length r \<le> 500"
    by (simp add: PIPELINE_SEED_def)
  obtain ps n where seeded: "seedPipelinesIfEmpty w = (Done (), w\<lparr>the_db := (the_db w)\<lparr>
      pipelines := pipelines (the_db w) @ ps, next_uuid := n\<rparr>\<rparr>)"
    and ps: "length ps = (if pipelines (the_db w) = [] then 3 else 0)"
      "pipelines (the_db w) \<noteq> [] \<Longrightarrow> n = next_uuid (the_db w)"
  proof (cases "pipelines (the_db w) = []")
    case True
    obtain ps n where "save_all ?rows w = (Done (), w\<lparr>the_db := (the_db w)\<lparr>pipelines := pipelines (the_db w) @ ps,
        next_uuid := n\<rparr>\<rparr>)" "length ps = length ?rows"
      using save_all_quiet[OF assms fits] by blast
    with True assms show thesis
      by (intro that[of n ps]) (simp_all add: seedPipelinesIfEmpty_def seq_def query_quiet
          sql_count_pipelines_def PIPELINE_SEED_def[THEN arg_cong[of _ _ length]])
  next
    case False
    with assms show thesis
      by (intro that[of "next_uuid (the_db w)" "[]"])
        (simp_all add: seedPipelinesIfEmpty_def seq_def query_quiet sql_count_pipelines_def ret_def)
  qed
  have "seedOnModuleInit True w = (Done (), w\<lparr>the_db := seeded_view (clock w)
      ((the_db w)\<lparr>pipelines := pipelines (the_db w) @ ps, next_uuid := n\<rparr>)\<rparr>)"
    using assms seeded by (auto simp: seedOnModuleInit_def seq_def query_quiet seeded_view_def
        ensurePipelineStatsMatView_def sql_create_matview_def ensureSyncPipelineRunStatusTrigger_def
        sql_install_run_trigger_def split: option.splits)
  with ps show thesis by (rule that[rotated])
qed

text \<open>
  Seeding is idempotent: a second process that starts with SYNC_DATABASE (or
  the same one again) finds the work done and changes nothing, and a database that already
  has pipelines gets none of the seed.
\<close>

theorem seed_idempotent:
  assumes "script w = []" "seedOnModuleInit True w = (Done (), w1)"
  shows "seedOnModuleInit True w1 = (Done (), w1) \<and> run_trigger (the_db w1) \<and>
    (pipelines (the_db w) \<noteq> [] \<longrightarrow> pipelines (the_db w1) = pipelines (the_db w)) \<and>
    (pipelines (the_db w) = [] \<longrightarrow> length (pipelines (the_db w1)) = 3)"
proof -
  obtain ps n where w1: "w1 = w\<lparr>the_db := seeded_view (clock w)
      ((the_db w)\<lparr>pipelines := pipelines (the_db w) @ ps, next_uuid := n\<rparr>)\<rparr>"
    and ps: "length ps = (if pipelines (the_db w) = [] then 3 else 0)"
    using seed_quiet[OF assms(1)] assms(2) by (metis prod.inject)
  have ne: "pipelines (the_db w1) \<noteq> []" "script w1 = []"
    using ps assms(1) by (auto simp: w1 seeded_view_def)
  obtain qs k where again: "seedOnModuleInit True w1 = (Done (), w1\<lparr>the_db := seeded_view (clock w1)
      ((the_db w1)\<lparr>pipelines := pipelines (the_db w1) @ qs, next_uuid := k\<rparr>)\<rparr>)"
    "length qs = 0" "k = next_uuid (the_db w1)"
    using seed_quiet[OF ne(2)] ne(1) by metis
  have "seedOnModuleInit True w1 = (Done (), w1)"
    using again by (simp add: w1 seeded_view_def split: option.splits)
  moreover have "pipelines (the_db w1) = pipelines (the_db w) @ ps" "run_trigger (the_db w1)"
    by (simp_all add: w1 seeded_view_def)
  ultimately show ?thesis using ps by (simp split: if_splits)
qed

theorem seed_idempotent_witness:
  "let w = demo_api JNull; w1 = snd (seedOnModuleInit True w)
   in seedOnModuleInit True w1 = (Done (), w1) \<and> pipelines (the_db w1) = pipelines (the_db w)"
proof -
  let ?w = "demo_api JNull"
  have q: "script ?w = []" by (simp add: demo_api_def)
  have "fst (seedOnModuleInit True ?w) = Done ()"
    by (simp add: demo_api_def empty_db_def seedOnModuleInit_def seedPipelinesIfEmpty_def seq_def query_quiet
        sql_count_pipelines_def ret_def ensurePipelineStatsMatView_def sql_create_matview_def
        ensureSyncPipelineRunStatusTrigger_def sql_install_run_trigger_def)
  then have s: "seedOnModuleInit True ?w = (Done (), snd (seedOnModuleInit True ?w))"
    by (metis prod.collapse)
  have "pipelines (the_db ?w) \<noteq> []" by (simp add: demo_api_def)
  with seed_idempotent[OF q s] show ?thesis by (simp add: Let_def)
qed

end
