(* ===== verification/HttpFacts.thy ===== *)
theory HttpFacts
  imports Http TriggerFacts
begin

text \<open>
  What clients of the HTTP interface see: the statuses of requests for what does not exist,
  the life of a pipeline, and a triggered run with its jobs.
\<close>

lemma reply_Done: "m w = (Done x, w') \<Longrightarrow>
    reply env code f m w = (Done \<lparr>status = code, body = f x\<rparr>, w')"
  and reply_Threw: "m w = (Threw e, w') \<Longrightarrow>
    reply env code f m w =
      (Done \<lparr>status = error_status (ae_nest env) e, body = Error_Body e\<rparr>, w')"
  by (simp_all add: reply_def)

definition answers :: "api_env \<Rightarrow> request \<Rightarrow> world \<Rightarrow> int \<Rightarrow> bool" where
  "answers env q w code \<longleftrightarrow> (\<exists>b. serve env q w = (Done \<lparr>status = code, body = b\<rparr>, w))"

lemma find_pipeline_none:
  assumes "script w = []" "\<forall>p \<in> set (pipelines (the_db w)). p_id p \<noteq> k"
  shows "query (sql_find_pipeline (Uuid_Param k)) w = (Done None, w)"
proof -
  have "find (\<lambda>p. p_id p = k) (pipelines (the_db w)) = None" using assms(2) by (simp add: find_None_iff)
  then show ?thesis using assms(1) by (simp add: query_quiet sql_find_pipeline_def uuid_param_def)
qed

lemma malformed_query:
  assumes "script w = []"
  shows "query (sql_find_pipeline Malformed) w = (Threw (Query_Failed Invalid_Input), w)"
    "query (sql_delete_pipeline Malformed) w = (Threw (Query_Failed Invalid_Input), w)"
    "query (sql_find_run Malformed) w = (Threw (Query_Failed Invalid_Input), w)"
    "query (sql_find_run_with_jobs Malformed) w = (Threw (Query_Failed Invalid_Input), w)"
    "query (sql_find_runs (Some Malformed)) w = (Threw (Query_Failed Invalid_Input), w)"
    "query (sql_find_logs Malformed) w = (Threw (Query_Failed Invalid_Input), w)"
  using assms
  by (simp_all add: query_quiet sql_find_pipeline_def sql_delete_pipeline_def sql_find_run_def
      sql_find_run_with_jobs_def sql_find_runs_def sql_find_logs_def uuid_param_def)

lemmas api_defs = get_pipeline_def pipelines_findOne_def patch_pipeline_def delete_pipeline_def
  pipelines_remove_def post_run_def triggerRun_def get_run_def runs_findOne_def get_run_with_jobs_def
  findOneWithJobs_def get_runs_def runs_findAll_def get_job_logs_def getJobLogs_def
  pipelines_service_update_def

text \<open>
  The status of a request for a pipeline that does not exist depends on the
  endpoint: reading, changing and deleting it answer 404, but triggering a run of it
  answers 500.  None changes anything.
\<close>

theorem unknown_pipeline_statuses:
  assumes "nest_ok (ae_nest env)" "script w = []" "parse_id env i = Uuid_Param k"
    and "\<forall>p \<in> set (pipelines (the_db w)). p_id p \<noteq> k" "refs_ok (the_db w)"
  shows "answers env (Show_Pipeline i) w 404 \<and> answers env (Update_Pipeline i u) w 404 \<and>
    answers env (Remove_Pipeline i) w 404 \<and> answers env (Trigger_Run i tt m) w 500"
proof -
  note f = find_pipeline_none[OF assms(2,4)]
  have runs: "r_pipeline_id r \<noteq> k" if "r \<in> set (pipeline_runs (the_db w))" for r
    using that assms(4,5) by (fastforce simp: refs_ok_def)
  have s: "error_status (ae_nest env) pipeline_not_found = 404"
    "error_status (ae_nest env) (Error_Message t) = 500" for t
    using assms(1) by (simp_all add: nest_ok_def pipeline_not_found_def)
  have "filter (\<lambda>p. p_id p \<noteq> k) (pipelines (the_db w)) = pipelines (the_db w)"
    "filter (\<lambda>p. p_id p = k) (pipelines (the_db w)) = []"
    using assms(4) by (auto simp: filter_id_conv filter_empty_conv)
  then have "sql_delete_pipeline (Uuid_Param k) (clock w) (the_db w) = Inr (0, the_db w)"
    using runs by (simp add: delete_without_runs)
  then have "pipelines_remove (Uuid_Param k) w = (Threw (Error_Message (lit ''Pipeline not found'')), w)"
    using assms(2) by (simp add: pipelines_remove_def seq_def query_quiet throw_def)
  then have "delete_pipeline (Uuid_Param k) w = (Threw pipeline_not_found, w)"
    by (simp add: delete_pipeline_def try_catch_def throw_def)
  then show ?thesis
    by (simp add: answers_def assms(3) reply_def s)
      (simp add: api_defs seq_def f throw_def s)
qed

text \<open>An API whose ids are single characters, for the examples.\<close>

definition demo_env :: api_env where
  "demo_env = \<lparr>ae_nest = \<lparr>ok_status = (\<lambda>m. if m = POST then 201 else 200),
       error_status = (\<lambda>e. case e of Not_Found_Exception _ \<Rightarrow> 404 | Bad_Request_Exception _ \<Rightarrow> 400 | _ \<Rightarrow> 500)\<rparr>,
     ae_driver = demo_driver, ae_sched = rev, ae_refused = False,
     parse_id = (\<lambda>t. if length t = 1 then Uuid_Param (hd t) else Malformed)\<rparr>"

lemma demo_env_ok: "nest_ok (ae_nest demo_env)" "driver_ok (ae_driver demo_env)"
  "parse_id demo_env [0, 0] = Malformed" "parse_id demo_env [k] = Uuid_Param k"
  "ae_sched demo_env = rev"
  by (simp_all add: nest_ok_def demo_env_def driver_ok_def demo_driver_def)

theorem unknown_pipeline_statuses_witness:
  "let w = demo_api (config_json []); u = \<lparr>up_name = Some [], up_repository = None, up_config = None\<rparr>
   in answers demo_env (Show_Pipeline [4]) w 404 \<and> answers demo_env (Update_Pipeline [4] u) w 404 \<and>
    answers demo_env (Remove_Pipeline [4]) w 404 \<and> answers demo_env (Trigger_Run [4] None None) w 500"
  unfolding Let_def
  by (rule unknown_pipeline_statuses[OF demo_env_ok(1) _ demo_env_ok(4)])
    (simp_all add: demo_api_def demo_pipeline_def empty_db_def refs_ok_def)

text \<open>
  A text that is no uuid is a server error of every endpoint that takes an id in
  its path, its query or its body (500, the error of Postgres), except of the deletion,
  which calls it 404.
\<close>

theorem malformed_id_statuses:
  assumes "nest_ok (ae_nest env)" "script w = []" "parse_id env i = Malformed" "i \<noteq> []"
  shows "answers env (Show_Pipeline i) w 500 \<and> answers env (Update_Pipeline i u) w 500 \<and>
    answers env (Trigger_Run i tt m) w 500 \<and> answers env (List_Runs (Some i)) w 500 \<and>
    answers env (Show_Run i) w 500 \<and> answers env (Run_Jobs i) w 500 \<and>
    answers env (Job_Logs r i) w 500 \<and> answers env (Remove_Pipeline i) w 404"
proof -
  have s: "error_status (ae_nest env) pipeline_not_found = 404"
    "error_status (ae_nest env) (Query_Failed e) = 500" for e
    using assms(1) by (simp_all add: nest_ok_def pipeline_not_found_def)
  show ?thesis
    by (simp add: answers_def assms(3,4) filter_id_def reply_def api_defs seq_def malformed_query[OF assms(2)]
        try_catch_def throw_def s)
qed

theorem malformed_id_statuses_witness:
  "let w = demo_api (config_json []); u = \<lparr>up_name = Some [], up_repository = None, up_config = None\<rparr>
   in answers demo_env (Show_Pipeline [0, 0]) w 500 \<and> answers demo_env (Update_Pipeline [0, 0] u) w 500 \<and>
    answers demo_env (Trigger_Run [0, 0] None None) w 500 \<and> answers demo_env (List_Runs (Some [0, 0])) w 500 \<and>
    answers demo_env (Show_Run [0, 0]) w 500 \<and> answers demo_env (Run_Jobs [0, 0]) w 500 \<and>
    answers demo_env (Job_Logs [4] [0, 0]) w 500 \<and> answers demo_env (Remove_Pipeline [0, 0]) w 404"
  unfolding Let_def
  by (rule malformed_id_statuses[OF demo_env_ok(1) _ demo_env_ok(3)]) (simp_all add: demo_api_def)

section \<open>The life of a pipeline\<close>

lemma serve_show_pipeline:
  assumes "nest_ok (ae_nest env)" "script w = []" "parse_id env i = Uuid_Param k"
  shows "serve env (Show_Pipeline i) w =
    (case find (\<lambda>p. p_id p = k) (pipelines (the_db w)) of
       Some p \<Rightarrow> (Done \<lparr>status = 200, body = Pipeline_Body p\<rparr>, w)
     | None \<Rightarrow> (Done \<lparr>status = 404, body = Error_Body pipeline_not_found\<rparr>, w))"
  using assms
  by (simp add: reply_def get_pipeline_def pipelines_findOne_def seq_def query_quiet
      sql_find_pipeline_def uuid_param_def ret_def throw_def nest_ok_def pipeline_not_found_def
      split: option.split)

text \<open>Saving the changes to the row that was inserted last, at the time it was.\<close>

lemma save_last_pipeline:
  assumes "pipelines d = old @ [p]" "\<forall>q \<in> set old. p_id q \<noteq> p_id p" "p_updated_at p = now"
    and "p' = assign_dto p u" "length (p_name p') \<le> 255" "length (p_repository p') \<le> 500"
  shows "sql_save_pipeline p' now d = Inr (p', d\<lparr>pipelines := old @ [p']\<rparr>)"
proof -
  have ids: "p_id p' = p_id p" by (simp add: assms(4) assign_dto_def)
  have "find (\<lambda>q. p_id q = p_id p) old = None" using assms(2) by (simp add: find_None_iff)
  then have f: "find (\<lambda>q. p_id q = p_id p) (pipelines d) = Some p"
    by (simp add: assms(1) find_append_None)
  show ?thesis
  proof (cases "p_name p = p_name p' \<and> p_repository p = p_repository p' \<and> p_config p = p_config p'")
    case True
    then have "p' = p"
      by (intro pipeline.equality) (simp_all add: assms(4) assign_dto_def)
    moreover have "d\<lparr>pipelines := old @ [p]\<rparr> = d" unfolding assms(1)[symmetric] by simp
    ultimately show ?thesis using assms(5,6) f by (simp add: sql_save_pipeline_def)
  next
    case False
    have new: "p\<lparr>p_name := p_name p', p_repository := p_repository p', p_config := p_config p',
        p_updated_at := now\<rparr> = p'" "p'\<lparr>p_updated_at := now\<rparr> = p'"
      using assms(3) by (simp_all add: assms(4) assign_dto_def)
    have "update_where (\<lambda>q. p_id q = p_id p) f (pipelines d) = old @ [f p]" for f
      using assms(2) by (simp add: assms(1) update_where_def map_idI)
    then show ?thesis
      using assms(5,6) f ids new False by (auto simp: sql_save_pipeline_def Let_def)
  qed
qed

text \<open>
  Property C31.  A pipeline that is created can be read, changed and read again, each time as
  it was last written, and after its deletion it is gone and the database as before but for
  the id that was used.
\<close>

theorem pipeline_life:
  assumes "nest_ok (ae_nest env)" "script w = []" "refs_ok (the_db w)"
    and "\<forall>p \<in> set (pipelines (the_db w)). p_id p < next_uuid (the_db w)"
    and "parse_id env i = Uuid_Param (next_uuid (the_db w))"
    and "length (cp_name dto) \<le> 255" "length (cp_repository dto) \<le> 500"
    and "p = \<lparr>p_id = next_uuid (the_db w), p_name = cp_name dto, p_repository = cp_repository dto,
      p_config = cp_config dto, p_created_at = clock w, p_updated_at = clock w\<rparr>"
    and "p' = assign_dto p u" "length (p_name p') \<le> 255" "length (p_repository p') \<le> 500"
  shows "\<exists>w1 w2 w3.
    serve env (Create_Pipeline dto) w = (Done \<lparr>status = 201, body = Pipeline_Body p\<rparr>, w1) \<and>
    serve env (Show_Pipeline i) w1 = (Done \<lparr>status = 200, body = Pipeline_Body p\<rparr>, w1) \<and>
    serve env (Update_Pipeline i u) w1 = (Done \<lparr>status = 200, body = Pipeline_Body p'\<rparr>, w2) \<and>
    serve env (Show_Pipeline i) w2 = (Done \<lparr>status = 200, body = Pipeline_Body p'\<rparr>, w2) \<and>
    serve env (Remove_Pipeline i) w2 = (Done \<lparr>status = 204, body = No_Body\<rparr>, w3) \<and>
    answers env (Show_Pipeline i) w3 404 \<and>
    the_db w3 = (the_db w)\<lparr>next_uuid := next_uuid (the_db w) + 1\<rparr>"
proof -
  let ?d = "the_db w" let ?k = "next_uuid ?d"
  let ?db = "\<lambda>ps. ?d\<lparr>pipelines := pipelines ?d @ ps, next_uuid := ?k + 1\<rparr>"
  let ?w = "\<lambda>ps. w\<lparr>the_db := ?db ps\<rparr>"
  have old: "\<forall>q \<in> set (pipelines ?d). p_id q \<noteq> ?k" using assms(4) by fastforce
  have ids: "p_id p = ?k" "p_id p' = ?k" "p_updated_at p = clock w"
    by (simp_all add: assms(8,9) assign_dto_def)
  have find: "find (\<lambda>q. p_id q = ?k) (pipelines ?d @ ps) = find (\<lambda>q. p_id q = ?k) ps" for ps
    using old by (intro find_append_None) (simp add: find_None_iff)
  note shown = serve_show_pipeline[OF assms(1) _ assms(5), of "?w ps" for ps]
  have create: "serve env (Create_Pipeline dto) w =
      (Done \<lparr>status = 201, body = Pipeline_Body p\<rparr>, ?w [p])"
    using assms(1,2,6,7)
    by (simp add: reply_def post_pipeline_def pipelines_create_def query_quiet sql_insert_pipeline_def
        Let_def nest_ok_def assms(8))
  have "sql_save_pipeline p' (clock w) (?db [p]) = Inr (p', ?db [p'])"
    using save_last_pipeline[of "?db [p]" "pipelines ?d" p "clock w" p' u] old ids assms(9-11) by simp
  then have update: "serve env (Update_Pipeline i u) (?w [p]) =
      (Done \<lparr>status = 200, body = Pipeline_Body p'\<rparr>, ?w [p'])"
    using assms(1,2,9) ids find[of "[p]"]
    by (simp add: reply_def patch_pipeline_def pipelines_findOne_def pipelines_service_update_def
        assms(5) seq_def nest_ok_def query_quiet sql_find_pipeline_def uuid_param_def)
  have none: "\<forall>r \<in> set (pipeline_runs (?db [p'])). r_pipeline_id r \<noteq> ?k"
    using assms(3) old by (fastforce simp: refs_ok_def)
  have gone: "filter (\<lambda>q. p_id q \<noteq> ?k) (pipelines ?d) = pipelines ?d"
    "filter (\<lambda>q. p_id q = ?k) (pipelines ?d) = []"
    using old by (auto simp: filter_id_conv filter_empty_conv)
  have "sql_delete_pipeline (Uuid_Param ?k) (clock w) (?db [p']) = Inr (1, ?db [])"
    using ids gone delete_without_runs[OF none, of "clock w"] by simp
  then have remove: "serve env (Remove_Pipeline i) (?w [p']) =
      (Done \<lparr>status = 204, body = No_Body\<rparr>, ?w [])"
    using assms(2) by (simp add: reply_def delete_pipeline_def pipelines_remove_def try_catch_def
        seq_def query_quiet ret_def assms(5))
  have "answers env (Show_Pipeline i) (?w []) 404"
    using shown[of "[]"] find[of "[]"] assms(2) by (simp add: answers_def del: serve.simps)
  with create update remove shown[of "[p]"] shown[of "[p']"] find[of "[p]"] find[of "[p']"] ids assms(2)
  show ?thesis by (intro exI[of _ "?w [p]"] exI[of _ "?w [p']"] exI[of _ "?w []"]) (simp del: serve.simps)
qed

theorem pipeline_life_witness:
  "let w = demo_api (config_json []);
       dto = \<lparr>cp_name = lit ''lib'', cp_repository = lit ''acme/lib'', cp_config = JObj []\<rparr>;
       u = \<lparr>up_name = Some (lit ''core''), up_repository = None, up_config = None\<rparr>;
       p = \<lparr>p_id = 10, p_name = lit ''lib'', p_repository = lit ''acme/lib'', p_config = JObj [],
         p_created_at = 7, p_updated_at = 7\<rparr>
   in \<exists>w1 w2 w3.
    serve demo_env (Create_Pipeline dto) w = (Done \<lparr>status = 201, body = Pipeline_Body p\<rparr>, w1) \<and>
    serve demo_env (Show_Pipeline [10]) w1 = (Done \<lparr>status = 200, body = Pipeline_Body p\<rparr>, w1) \<and>
    serve demo_env (Update_Pipeline [10] u) w1 =
      (Done \<lparr>status = 200, body = Pipeline_Body (assign_dto p u)\<rparr>, w2) \<and>
    serve demo_env (Show_Pipeline [10]) w2 =
      (Done \<lparr>status = 200, body = Pipeline_Body (assign_dto p u)\<rparr>, w2) \<and>
    serve demo_env (Remove_Pipeline [10]) w2 = (Done \<lparr>status = 204, body = No_Body\<rparr>, w3) \<and>
    answers demo_env (Show_Pipeline [10]) w3 404 \<and>
    the_db w3 = (the_db w)\<lparr>next_uuid := next_uuid (the_db w) + 1\<rparr>"
  unfolding Let_def
  by (rule pipeline_life[OF demo_env_ok(1)])
    (simp_all add: demo_env_ok demo_api_def demo_pipeline_def empty_db_def refs_ok_def assign_dto_def lit_def)

section \<open>A triggered run\<close>

lemma trigger_served:
  assumes "nest_ok (ae_nest env)" "script w = []" "jobs_inv (the_db w)"
    and "distinct (map p_id (pipelines (the_db w)))" "p \<in> set (pipelines (the_db w))"
    and "p_config p = config_json stages" "\<forall>s \<in> set (config_specs stages). spec_fits s"
    and "driver_ok (ae_driver env)" "\<And>xs. mset (ae_sched env xs) = mset xs"
    and "length (case tt of None \<Rightarrow> lit ''manual'' | Some t \<Rightarrow> t) \<le> 50"
    and "parse_id env i = Uuid_Param (p_id p)"
  obtains r w' r' js where
    "serve env (Trigger_Run i tt m) w = (Done \<lparr>status = 201, body = Run_Body r\<rparr>, w')"
    "r_id r = next_uuid (the_db w)" "r_status r = Pending" "r_id r' = r_id r"
    "\<forall>k. parse_id env k = Uuid_Param (r_id r) \<longrightarrow>
      serve env (Run_Jobs k) w' = (Done \<lparr>status = 200, body = Run_Jobs_Body r' js\<rparr>, w')"
    "mset (map job_spec_of js) = mset (config_specs stages)"
    "\<forall>j \<in> set js. j_status j = Pending \<and> j_pipeline_run_id j = r_id r"
    "script w' = []" "jobs (the_db w') = jobs (the_db w) @ js"
    "pipelines (the_db w') = pipelines (the_db w)" "job_logs (the_db w') = job_logs (the_db w)"
    "map r_id (pipeline_runs (the_db w')) = map r_id (pipeline_runs (the_db w)) @ [r_id r]"
proof -
  let ?tt = "case tt of None \<Rightarrow> lit ''manual'' | Some t \<Rightarrow> t"
  have keys: "\<forall>r \<in> set (pipeline_runs (the_db w)). r_id r < next_uuid (the_db w)"
    "\<forall>j \<in> set (jobs (the_db w)). j_pipeline_run_id j \<in> r_id ` set (pipeline_runs (the_db w))"
    using jobs_invD(2)[OF assms(3)] by (simp_all add: keys_ok_def)
  obtain r new w' where t: "triggerRun (ae_driver env) (ae_sched env) (Uuid_Param (p_id p)) ?tt m w = (Done r, w')"
    "r_id r = next_uuid (the_db w)" "r_status r = Pending" "script w' = []"
    "map r_id (pipeline_runs (the_db w')) = map r_id (pipeline_runs (the_db w)) @ [r_id r]"
    "jobs (the_db w') = jobs (the_db w) @ new"
    "pipelines (the_db w') = pipelines (the_db w)" "job_logs (the_db w') = job_logs (the_db w)"
    "mset (map job_spec_of new) = mset (config_specs stages)"
    "\<forall>j \<in> set new. j_pipeline_run_id j = r_id r \<and> j_status j = Pending \<and> j_retry_count j = 0"
    by (rule triggered[OF assms(2,4-7,10) keys(1) assms(8,9)]) blast
  have n: "ok_status (ae_nest env) POST = 201" "ok_status (ae_nest env) GET = 200"
    using assms(1) by (simp_all add: nest_ok_def)
  have "r_id r \<in> r_id ` set (pipeline_runs (the_db w'))"
    using t(5) by (metis in_set_conv_decomp set_map)
  then have "find (\<lambda>x. r_id x = r_id r) (pipeline_runs (the_db w')) \<noteq> None"
    by (auto simp: find_None_iff)
  then obtain r' where f: "find (\<lambda>x. r_id x = r_id r) (pipeline_runs (the_db w')) = Some r'" by blast
  then have "r_id r' = r_id r" by (auto simp: find_Some_iff)
  have "filter (\<lambda>j. j_pipeline_run_id j = r_id r) (jobs (the_db w)) = []"
    using keys t(2) by (fastforce simp: filter_empty_conv)
  moreover have "filter (\<lambda>j. j_pipeline_run_id j = r_id r) new = new"
    using t(10) by (simp add: filter_id_conv)
  ultimately have js: "run_jobs (the_db w') (r_id r) = new" by (simp add: run_jobs_def t(6))
  have "serve env (Trigger_Run i tt m) w = (Done \<lparr>status = 201, body = Run_Body r\<rparr>, w')"
    using t(1) by (simp add: reply_def post_run_def n assms(11))
  moreover have "\<forall>k. parse_id env k = Uuid_Param (r_id r) \<longrightarrow>
      serve env (Run_Jobs k) w' = (Done \<lparr>status = 200, body = Run_Jobs_Body r' new\<rparr>, w')"
    using t(4) f js by (simp add: reply_def get_run_with_jobs_def findOneWithJobs_def seq_def query_quiet
        sql_find_run_with_jobs_def uuid_param_def ret_def n)
  ultimately show thesis
    by (rule that[OF _ t(2,3) \<open>r_id r' = r_id r\<close>]) (use t in auto)
qed

text \<open>
  What was triggered can be seen: after a trigger that answered 201, the run is
  found under the id of the answer, with one pending job for every step of the configuration
  and no others.
\<close>

theorem triggered_run_visible:
  assumes "nest_ok (ae_nest env)" "script w = []" "jobs_inv (the_db w)"
    and "distinct (map p_id (pipelines (the_db w)))" "p \<in> set (pipelines (the_db w))"
    and "p_config p = config_json stages" "\<forall>s \<in> set (config_specs stages). spec_fits s"
    and "driver_ok (ae_driver env)" "\<And>xs. mset (ae_sched env xs) = mset xs"
    and "length (case tt of None \<Rightarrow> lit ''manual'' | Some t \<Rightarrow> t) \<le> 50"
    and "parse_id env i = Uuid_Param (p_id p)" "parse_id env k = Uuid_Param (next_uuid (the_db w))"
  shows "\<exists>r w' r' js. serve env (Trigger_Run i tt m) w = (Done \<lparr>status = 201, body = Run_Body r\<rparr>, w') \<and>
    r_id r = next_uuid (the_db w) \<and> r_status r = Pending \<and>
    serve env (Run_Jobs k) w' = (Done \<lparr>status = 200, body = Run_Jobs_Body r' js\<rparr>, w') \<and>
    r_id r' = r_id r \<and> mset (map job_spec_of js) = mset (config_specs stages) \<and>
    (\<forall>j \<in> set js. j_status j = Pending \<and> j_pipeline_run_id j = r_id r)"
  using trigger_served[OF assms(1-11)] assms(12) by metis

theorem triggered_run_visible_witness:
  "let w = demo_api (config_json demo_stages)
   in \<exists>r w' r' js. serve demo_env (Trigger_Run [3] None None) w = (Done \<lparr>status = 201, body = Run_Body r\<rparr>, w') \<and>
    r_id r = next_uuid (the_db w) \<and> r_status r = Pending \<and>
    serve demo_env (Run_Jobs [10]) w' = (Done \<lparr>status = 200, body = Run_Jobs_Body r' js\<rparr>, w') \<and>
    r_id r' = r_id r \<and> mset (map job_spec_of js) = mset (config_specs demo_stages) \<and>
    (\<forall>j \<in> set js. j_status j = Pending \<and> j_pipeline_run_id j = r_id r)"
  unfolding Let_def
proof (rule triggered_run_visible[OF demo_env_ok(1), where p = "demo_pipeline demo_stages"])
  show "\<forall>s \<in> set (config_specs demo_stages). spec_fits s"
    by (simp add: config_specs_def demo_stages_def step_specs_def spec_fits_def fits_int4_def)
qed (simp_all add: demo_env_ok demo_api_def demo_pipeline_def empty_db_def jobs_inv_def keys_ok_def)

end
