(* ===== verification/LoadTests.thy ===== *)
theory LoadTests
  imports HttpFacts
begin

text \<open>
  The load scripts (load-testing/scripts/mass-enqueue.js, advisory-lock.js, log-streaming.js and
  mixed-load.js) as clients of the HTTP interface: what \<open>setup\<close> chooses, what one iteration of the
  default function requests and records, and what the API is left with.

  \<open>http\<close> sends a request (k6's \<open>http.get\<close> and \<open>http.post\<close>), \<open>print_id\<close> is how an id is printed
  in JSON.  The latencies are recorded without their values.
\<close>

datatype metric =
    Trigger_Latency | List_Runs_Latency | Run_With_Jobs_Latency | Dashboard_Latency
  | Errors bool
  | Time_To_First_Job int
  | Time_To_First_Log int

type_synonym http_client = "request \<Rightarrow> response act"

definition now_ms :: "timestamp act" where
  "now_ms w = (Done (clock w), w)"

section \<open>Setup\<close>

text \<open>\<open>if (pipelineId) return { pipelineId }\<close>: an empty variable is falsy.\<close>

definition given :: "ustring option \<Rightarrow> ustring option" where
  "given pipelineId = (case pipelineId of Some (c # cs) \<Rightarrow> Some (c # cs) | _ \<Rightarrow> None)"

definition mass_enqueue_setup :: "http_client \<Rightarrow> (uuid \<Rightarrow> ustring) \<Rightarrow> ustring option \<Rightarrow> ustring act" where
  "mass_enqueue_setup http print_id pipelineId = (case given pipelineId of
      Some i \<Rightarrow> ret i
    | None \<Rightarrow> seq (http List_Pipelines) (\<lambda>res.
        if status res \<noteq> 200 then
          throw (Error_Message (lit ''GET /pipelines failed - ensure API is up and seeded''))
        else (case body res of
            Pipelines_Body (p # ps) \<Rightarrow> ret (print_id (p_id p))
          | _ \<Rightarrow> throw (Error_Message (lit
              ''No pipelines found - seed the DB (run API once with SYNC_DATABASE=true)'')))))"

definition log_streaming_setup :: "http_client \<Rightarrow> (uuid \<Rightarrow> ustring) \<Rightarrow> ustring option \<Rightarrow> ustring act" where
  "log_streaming_setup http print_id pipelineId = (case given pipelineId of
      Some i \<Rightarrow> ret i
    | None \<Rightarrow> seq (http List_Pipelines) (\<lambda>res.
        if status res \<noteq> 200 then throw (Error_Message (lit ''GET /pipelines failed''))
        else (case body res of
            Pipelines_Body (p # ps) \<Rightarrow> ret (print_id (p_id p))
          | _ \<Rightarrow> throw (Error_Message (lit ''No pipelines'')))))"

definition mixed_load_setup :: "http_client \<Rightarrow> (uuid \<Rightarrow> ustring) \<Rightarrow> ustring option \<Rightarrow> ustring act" where
  "mixed_load_setup http print_id pipelineId = (case given pipelineId of
      Some i \<Rightarrow> ret i
    | None \<Rightarrow> seq (http List_Pipelines) (\<lambda>res.
        if status res \<noteq> 200 then throw (Error_Message (lit ''GET /pipelines failed''))
        else (case body res of
            Pipelines_Body (p # ps) \<Rightarrow> ret (print_id (p_id p))
          | _ \<Rightarrow> throw (Error_Message (lit ''No pipelines'')))))"

text \<open>\<open>toLowerCase\<close> of the letters of ASCII.\<close>

definition to_lower :: "ustring \<Rightarrow> ustring" where
  "to_lower s = map (\<lambda>c. if 65 \<le> c \<and> c \<le> 90 then c + 32 else c) s"

text \<open>\<open>(withDeploy || list[0])?.id\<close>; something that is no array has no \<open>find\<close>.\<close>

definition advisory_lock_setup :: "http_client \<Rightarrow> (uuid \<Rightarrow> ustring) \<Rightarrow> ustring option \<Rightarrow> ustring act" where
  "advisory_lock_setup http print_id pipelineId = (case given pipelineId of
      Some i \<Rightarrow> ret i
    | None \<Rightarrow> seq (http List_Pipelines) (\<lambda>res.
        if status res \<noteq> 200 then throw (Error_Message (lit ''GET /pipelines failed''))
        else (case body res of
            Pipelines_Body ps \<Rightarrow>
              (case find (\<lambda>p. js_includes (to_lower (p_name p)) (lit ''backend'')) ps of
                 Some p \<Rightarrow> ret (print_id (p_id p))
               | None \<Rightarrow> (case ps of
                     p # _ \<Rightarrow> ret (print_id (p_id p))
                   | [] \<Rightarrow> throw (Error_Message (lit ''No pipeline found''))))
          | _ \<Rightarrow> throw Type_Error)))"

section \<open>Iterations\<close>

text \<open>The iteration number and the virtual user go into the metadata.\<close>

definition mass_enqueue :: "http_client \<Rightarrow> ustring \<Rightarrow> int \<Rightarrow> int \<Rightarrow> metric list act" where
  "mass_enqueue http pipelineId vu iter =
     seq (http (Trigger_Run pipelineId (Some (lit ''manual''))
           (Some (JObj [(lit ''source'', JStr (lit ''k6'')), (lit ''vu'', JNum vu), (lit ''iter'', JNum iter)]))))
       (\<lambda>res. seq sleep (\<lambda>_. ret [Trigger_Latency, Errors (status res \<noteq> 201)]))"

definition advisory_lock :: "http_client \<Rightarrow> ustring \<Rightarrow> int \<Rightarrow> metric list act" where
  "advisory_lock http pipelineId vu =
     seq (http (Trigger_Run pipelineId (Some (lit ''manual''))
           (Some (JObj [(lit ''load_test'', JStr (lit ''advisory_lock'')), (lit ''vu'', JNum vu)]))))
       (\<lambda>res. seq sleep (\<lambda>_. ret [Trigger_Latency, Errors (status res \<noteq> 201)]))"

text \<open>The first loop of the log script, with \<open>n\<close> polls to go: the first job of the run, if any.\<close>

fun poll_jobs :: "http_client \<Rightarrow> (uuid \<Rightarrow> ustring) \<Rightarrow> ustring \<Rightarrow> nat \<Rightarrow> ustring option act" where
  "poll_jobs http print_id runId 0 = ret None"
| "poll_jobs http print_id runId (Suc n) =
     seq sleep (\<lambda>_.
     seq (http (Run_Jobs runId)) (\<lambda>res.
     if status res \<noteq> 200 then poll_jobs http print_id runId n
     else (case body res of
         Run_Jobs_Body run (j # js) \<Rightarrow> ret (Some (print_id (j_id j)))
       | _ \<Rightarrow> poll_jobs http print_id runId n)))"

text \<open>The second loop: whether a log line was there in time.\<close>

fun poll_logs :: "http_client \<Rightarrow> ustring \<Rightarrow> ustring \<Rightarrow> nat \<Rightarrow> bool act" where
  "poll_logs http runId jobId 0 = ret False"
| "poll_logs http runId jobId (Suc n) =
     seq sleep (\<lambda>_.
     seq (http (Job_Logs runId jobId)) (\<lambda>res.
     if status res \<noteq> 200 then poll_logs http runId jobId n
     else (case body res of
         Logs_Body (l # ls) \<Rightarrow> ret True
       | _ \<Rightarrow> poll_logs http runId jobId n)))"

definition log_streaming :: "http_client \<Rightarrow> (uuid \<Rightarrow> ustring) \<Rightarrow> ustring \<Rightarrow> metric list act" where
  "log_streaming http print_id pipelineId =
     seq (http (Trigger_Run pipelineId (Some (lit ''manual'')) None)) (\<lambda>res.
     if status res \<noteq> 201 then ret [Trigger_Latency]
     else (case body res of
         Run_Body run \<Rightarrow>
           (let runId = print_id (r_id run) in
            seq now_ms (\<lambda>tTrigger.
            seq (poll_jobs http print_id runId 60) (\<lambda>job.
            case job of
              None \<Rightarrow> ret [Trigger_Latency]
            | Some jobId \<Rightarrow>
                seq now_ms (\<lambda>tJob.
                seq (poll_logs http runId jobId 30) (\<lambda>found.
                seq now_ms (\<lambda>tLog.
                ret ([Trigger_Latency, Time_To_First_Job (tJob - tTrigger)] @
                  (if found then [Time_To_First_Log (tLog - tJob)] else []))))))))
       | _ \<Rightarrow> ret [Trigger_Latency]))"

text \<open>
  One iteration of the mixed load; \<open>r\<close> and \<open>r2\<close> are the two random numbers in hundredths,
  rounded down, which decides the same comparisons.
\<close>

definition mixed_load :: "http_client \<Rightarrow> (uuid \<Rightarrow> ustring) \<Rightarrow> ustring \<Rightarrow> int \<Rightarrow> nat \<Rightarrow> nat \<Rightarrow> metric list act" where
  "mixed_load http print_id pipelineId vu r r2 =
     seq (if r < 35 then
            seq (http (Trigger_Run pipelineId (Some (lit ''manual''))
                  (Some (JObj [(lit ''source'', JStr (lit ''k6_mixed'')), (lit ''vu'', JNum vu)]))))
              (\<lambda>res. ret [Trigger_Latency, Errors (status res \<noteq> 201)])
          else if r < 60 then
            seq (http (List_Runs (Some pipelineId))) (\<lambda>res.
            if status res = 200 then
              (case body res of
                 Runs_Body (run # runs) \<Rightarrow>
                   (if r2 < 50 then
                      seq (http (Run_Jobs (print_id (r_id run)))) (\<lambda>_.
                      ret [List_Runs_Latency, Run_With_Jobs_Latency])
                    else ret [List_Runs_Latency])
               | _ \<Rightarrow> ret [List_Runs_Latency])
            else ret [List_Runs_Latency])
          else if r < 85 then
            seq (http Pipeline_Stats) (\<lambda>res. ret [Dashboard_Latency, Errors (status res \<noteq> 200)])
          else
            seq (http Deployment_Locks) (\<lambda>res. ret [Dashboard_Latency, Errors (status res \<noteq> 200)]))
       (\<lambda>metrics. seq sleep (\<lambda>_. ret metrics))"

section \<open>Mass enqueue\<close>

text \<open>Iterations one after the other, as the load generator starts them.\<close>

fun iterations :: "(nat \<Rightarrow> metric list act) \<Rightarrow> nat \<Rightarrow> metric list act" where
  "iterations f 0 = ret []"
| "iterations f (Suc n) = seq (iterations f n) (\<lambda>ms. seq (f n) (\<lambda>ms'. ret (ms @ ms')))"

text \<open>An API as it should be.\<close>

definition api_ok :: "api_env \<Rightarrow> (uuid \<Rightarrow> ustring) \<Rightarrow> bool" where
  "api_ok env print_id \<longleftrightarrow> nest_ok (ae_nest env) \<and> driver_ok (ae_driver env) \<and>
     (\<forall>k. parse_id env (print_id k) = Uuid_Param k) \<and>
     (\<forall>xs. mset (ae_sched env xs) = mset xs)"

lemma serve_trigger_sound:
  assumes "script w = []" "sound (the_db w)" "serve env (Trigger_Run i tt m) w = (x, w')"
  shows "sound (the_db w')"
proof -
  let ?m = "post_run (ae_driver env) (ae_sched env)
      \<lparr>tr_pipelineId = parse_id env i, tr_triggerType = tt, tr_trigger_metadata = m\<rparr>"
  obtain y w1 where m: "?m w = (y, w1)" by fastforce
  have "others db_step w" using assms(1) by (simp add: others_def)
  from within_sound[where m = ?m, OF _ this m assms(2)] have "sound (the_db w1)"
    by (simp add: within_intros)
  moreover have "w' = w1" using assms(3) m by (cases y) (auto simp: reply_def)
  ultimately show ?thesis by simp
qed

lemma trigger_once:
  assumes "api_ok env print_id" "script w = []" "sound (the_db w)"
    and "distinct (map p_id (pipelines (the_db w)))" "p \<in> set (pipelines (the_db w))"
    and "p_config p = config_json stages" "\<forall>s \<in> set (config_specs stages). spec_fits s"
  obtains r w' r' js where
    "serve env (Trigger_Run (print_id (p_id p)) (Some (lit ''manual'')) m) w =
       (Done \<lparr>status = 201, body = Run_Body r\<rparr>, w')"
    "serve env (Run_Jobs (print_id (r_id r))) w' = (Done \<lparr>status = 200, body = Run_Jobs_Body r' js\<rparr>, w')"
    "mset (map job_spec_of js) = mset (config_specs stages)" "\<forall>j \<in> set js. j_status j = Pending"
    "script w' = []" "jobs (the_db w') = jobs (the_db w) @ js" "sound (the_db w')"
    "pipelines (the_db w') = pipelines (the_db w)" "job_logs (the_db w') = job_logs (the_db w)"
    "length (pipeline_runs (the_db w')) = length (pipeline_runs (the_db w)) + 1"
proof -
  have ok: "nest_ok (ae_nest env)" "driver_ok (ae_driver env)" "\<And>k. parse_id env (print_id k) = Uuid_Param k"
    "\<And>xs. mset (ae_sched env xs) = mset xs"
    using assms(1) by (simp_all add: api_ok_def)
  have tt: "length (case Some (lit ''manual'') of None \<Rightarrow> lit ''manual'' | Some t \<Rightarrow> t) \<le> 50"
    by (simp add: lit_def)
  obtain r w' r' js where r:
    "serve env (Trigger_Run (print_id (p_id p)) (Some (lit ''manual'')) m) w =
       (Done \<lparr>status = 201, body = Run_Body r\<rparr>, w')"
    "r_id r = next_uuid (the_db w)" "r_status r = Pending" "r_id r' = r_id r"
    "\<forall>k. parse_id env k = Uuid_Param (r_id r) \<longrightarrow>
      serve env (Run_Jobs k) w' = (Done \<lparr>status = 200, body = Run_Jobs_Body r' js\<rparr>, w')"
    "mset (map job_spec_of js) = mset (config_specs stages)"
    "\<forall>j \<in> set js. j_status j = Pending \<and> j_pipeline_run_id j = r_id r"
    "script w' = []" "jobs (the_db w') = jobs (the_db w) @ js"
    "pipelines (the_db w') = pipelines (the_db w)" "job_logs (the_db w') = job_logs (the_db w)"
    "map r_id (pipeline_runs (the_db w')) = map r_id (pipeline_runs (the_db w)) @ [r_id r]"
    by (rule trigger_served[where m = m, OF ok(1) assms(2) soundD(1)[OF assms(3)] assms(4-7) ok(2,4) tt ok(3)])
  have "length (pipeline_runs (the_db w')) = length (pipeline_runs (the_db w)) + 1"
    using arg_cong[OF r(12), of length] by simp
  moreover have "sound (the_db w')" by (rule serve_trigger_sound[OF assms(2,3) r(1)])
  ultimately show thesis
    using r(7) by (intro that[OF r(1) r(5)[rule_format, OF ok(3)] r(6) _ r(8,9) _ r(10,11)]) auto
qed

lemma sleep_quiet: "script w = [] \<Longrightarrow> sleep w = (Done (), w)"
  by (simp add: sleep_def)

text \<open>
  A load of \<open>n\<close> triggers is answered without an error and enqueues \<open>n\<close> runs and
  \<open>n\<close> times the jobs of the pipeline's configuration, all waiting, on top of what was there.
\<close>

theorem mass_enqueue_load:
  assumes "api_ok env print_id" "script w = []" "sound (the_db w)"
    and "distinct (map p_id (pipelines (the_db w)))" "p \<in> set (pipelines (the_db w))"
    and "p_config p = config_json stages" "\<forall>s \<in> set (config_specs stages). spec_fits s"
  shows "\<exists>w' new. iterations (\<lambda>k. mass_enqueue (serve env) (print_id (p_id p)) vu (int k)) n w =
      (Done (concat (replicate n [Trigger_Latency, Errors False])), w') \<and>
    jobs (the_db w') = jobs (the_db w) @ new \<and>
    mset (map job_spec_of new) = repeat_mset n (mset (config_specs stages)) \<and>
    (\<forall>j \<in> set new. j_status j = Pending) \<and>
    length (pipeline_runs (the_db w')) = length (pipeline_runs (the_db w)) + n \<and>
    pipelines (the_db w') = pipelines (the_db w) \<and> script w' = [] \<and> sound (the_db w')"
proof (induction n)
  case 0
  show ?case using assms(2,3) by (simp add: ret_def)
next
  case (Suc n)
  then obtain w1 new where i: "iterations (\<lambda>k. mass_enqueue (serve env) (print_id (p_id p)) vu (int k)) n w =
      (Done (concat (replicate n [Trigger_Latency, Errors False])), w1)"
    "jobs (the_db w1) = jobs (the_db w) @ new"
    "mset (map job_spec_of new) = repeat_mset n (mset (config_specs stages))"
    "\<forall>j \<in> set new. j_status j = Pending"
    "length (pipeline_runs (the_db w1)) = length (pipeline_runs (the_db w)) + n"
    "pipelines (the_db w1) = pipelines (the_db w)" "script w1 = []" "sound (the_db w1)"
    by blast
  let ?m = "Some (JObj [(lit ''source'', JStr (lit ''k6'')), (lit ''vu'', JNum vu), (lit ''iter'', JNum (int n))])"
  from assms(4,5) have d: "distinct (map p_id (pipelines (the_db w1)))" "p \<in> set (pipelines (the_db w1))"
    by (simp_all add: i(6))
  obtain r w' r' js where t:
    "serve env (Trigger_Run (print_id (p_id p)) (Some (lit ''manual'')) ?m) w1 =
       (Done \<lparr>status = 201, body = Run_Body r\<rparr>, w')"
    "mset (map job_spec_of js) = mset (config_specs stages)" "\<forall>j \<in> set js. j_status j = Pending"
    "script w' = []" "jobs (the_db w') = jobs (the_db w1) @ js" "sound (the_db w')"
    "pipelines (the_db w') = pipelines (the_db w1)"
    "length (pipeline_runs (the_db w')) = length (pipeline_runs (the_db w1)) + 1"
    by (rule trigger_once[OF assms(1) i(7,8) d assms(6,7)]) blast
  have "mass_enqueue (serve env) (print_id (p_id p)) vu (int n) w1 =
      (Done [Trigger_Latency, Errors False], w')"
    by (simp add: mass_enqueue_def seq_def t(1) sleep_quiet t(4) ret_def del: serve.simps)
  then have "iterations (\<lambda>k. mass_enqueue (serve env) (print_id (p_id p)) vu (int k)) (Suc n) w =
      (Done (concat (replicate n [Trigger_Latency, Errors False]) @ [Trigger_Latency, Errors False]), w')"
    by (simp add: seq_def i(1) ret_def)
  moreover have "concat (replicate (Suc n) xs) = concat (replicate n xs) @ xs" for xs :: "metric list"
    by (induction n) simp_all
  ultimately show ?case
    using i t by (intro exI[of _ w'] exI[of _ "new @ js"]) auto
qed

text \<open>
  The log script finds a job of the run it triggered in its first poll, whatever
  the configuration as long as it has a step; with no worker at work it then polls for a log
  line to the end of its 30 tries and finds none, and records exactly that.
\<close>

theorem log_streaming_without_worker:
  assumes "api_ok env print_id" "script w = []" "sound (the_db w)"
    and "distinct (map p_id (pipelines (the_db w)))" "p \<in> set (pipelines (the_db w))"
    and "p_config p = config_json stages" "\<forall>s \<in> set (config_specs stages). spec_fits s"
    and "config_specs stages \<noteq> []"
  shows "\<exists>w'. log_streaming (serve env) print_id (print_id (p_id p)) w =
    (Done [Trigger_Latency, Time_To_First_Job 0], w')"
proof -
  obtain r w' r' js where t:
    "serve env (Trigger_Run (print_id (p_id p)) (Some (lit ''manual'')) None) w =
       (Done \<lparr>status = 201, body = Run_Body r\<rparr>, w')"
    "serve env (Run_Jobs (print_id (r_id r))) w' = (Done \<lparr>status = 200, body = Run_Jobs_Body r' js\<rparr>, w')"
    "mset (map job_spec_of js) = mset (config_specs stages)" "script w' = []"
    "jobs (the_db w') = jobs (the_db w) @ js" "sound (the_db w')"
    "job_logs (the_db w') = job_logs (the_db w)"
    by (rule trigger_once[OF assms(1-7)]) blast
  from t(3) assms(8) obtain j js' where js: "js = j # js'" by (cases js) auto
  have polled: "poll_jobs (serve env) print_id (print_id (r_id r)) 60 w' = (Done (Some (print_id (j_id j))), w')"
    by (simp add: numeral_eq_Suc seq_def sleep_quiet t(4,2) js ret_def del: serve.simps)
  have n: "ok_status (ae_nest env) GET = 200" "parse_id env (print_id k) = Uuid_Param k" for k
    using assms(1) by (simp_all add: api_ok_def nest_ok_def)
  have "j_id j \<notin> j_id ` set (jobs (the_db w))"
    using jobs_invD(1)[OF soundD(1)[OF t(6)]] by (auto simp: t(5) js)
  moreover have "\<forall>l \<in> set (job_logs (the_db w)). l_job_id l \<in> j_id ` set (jobs (the_db w))"
    using soundD(2)[OF assms(3)] by (simp add: refs_ok_def)
  ultimately have "l_job_id l \<noteq> j_id j" if "l \<in> set (job_logs (the_db w))" for l
    using that by metis
  then have "filter (\<lambda>l. l_job_id l = j_id j) (job_logs (the_db w')) = []"
    by (simp add: t(7) filter_empty_conv)
  then have "serve env (Job_Logs i (print_id (j_id j))) w' = (Done \<lparr>status = 200, body = Logs_Body []\<rparr>, w')" for i
    using t(4) by (simp add: reply_def get_job_logs_def getJobLogs_def query_quiet sql_find_logs_def n uuid_param_def)
  then have "poll_logs (serve env) i (print_id (j_id j)) n w' = (Done False, w')" for i n
    using t(4) by (induction n) (simp_all add: seq_def sleep_quiet ret_def del: serve.simps)
  with polled show ?thesis
    by (simp add: log_streaming_def seq_def t(1) now_ms_def Let_def ret_def del: serve.simps poll_jobs.simps poll_logs.simps)
qed

section \<open>Setup on the seeded database\<close>

text \<open>
  On a freshly seeded database the scripts choose the pipelines their comments
  name: the lock script the pipeline backend-api, which deploys, and the others the first one
  of the list, frontend-app.
\<close>

theorem setup_on_seed:
  assumes "nest_ok (ae_nest env)" "script w = []" "the_db w = initial_db now"
  shows "\<exists>p q. p \<in> set (pipelines (the_db w)) \<and> q \<in> set (pipelines (the_db w)) \<and>
    p_name p = lit ''backend-api'' \<and> p_name q = lit ''frontend-app'' \<and>
    advisory_lock_setup (serve env) print_id None w = (Done (print_id (p_id p)), w) \<and>
    mass_enqueue_setup (serve env) print_id None w = (Done (print_id (p_id q)), w) \<and>
    log_streaming_setup (serve env) print_id None w = (Done (print_id (p_id q)), w) \<and>
    mixed_load_setup (serve env) print_id None w = (Done (print_id (p_id q)), w)"
proof -
  obtain a b c where abc: "pipelines (the_db w) = [a, b, c]" "p_name a = lit ''frontend-app''"
    "p_name b = lit ''backend-api''" "p_name c = lit ''docs''"
    "p_created_at a = p_created_at b" "p_created_at b = p_created_at c"
    unfolding assms(3)
    by (simp add: initial_db_def ensureNotifyTrigger_def seq_def query_quiet sql_xact_lock_def
        sql_install_log_trigger_def seedOnModuleInit_def seedPipelinesIfEmpty_def
        sql_count_pipelines_def PIPELINE_SEED_def sql_insert_pipeline_def Let_def empty_db_def ret_def
        ensurePipelineStatsMatView_def sql_create_matview_def
        ensureSyncPipelineRunStatusTrigger_def sql_install_run_trigger_def)
  have "serve env List_Pipelines w = (Done \<lparr>status = 200, body = Pipelines_Body [a, b, c]\<rparr>, w)"
    using assms(1,2) abc(5,6)
    by (simp add: reply_def get_pipelines_def pipelines_findAll_def query_quiet sql_find_pipelines_def
        abc(1) nest_ok_def)
  then have "advisory_lock_setup (serve env) print_id None w = (Done (print_id (p_id b)), w)"
    "mass_enqueue_setup (serve env) print_id None w = (Done (print_id (p_id a)), w)"
    "log_streaming_setup (serve env) print_id None w = (Done (print_id (p_id a)), w)"
    "mixed_load_setup (serve env) print_id None w = (Done (print_id (p_id a)), w)"
    using abc(2-4)
    by (simp_all add: advisory_lock_setup_def mass_enqueue_setup_def log_streaming_setup_def
        mixed_load_setup_def given_def seq_def ret_def to_lower_def lit_def starts_with_def del: serve.simps)
  then show ?thesis using abc(1-3) by auto
qed

theorem setup_on_seed_witness:
  "let w = \<lparr>the_db = initial_db 7, clock = 9, aborted = False, clients = {}, script = []\<rparr>
   in \<exists>p q. p \<in> set (pipelines (the_db w)) \<and> q \<in> set (pipelines (the_db w)) \<and>
    p_name p = lit ''backend-api'' \<and> p_name q = lit ''frontend-app'' \<and>
    advisory_lock_setup (serve demo_env) (\<lambda>k. [k]) None w = (Done [p_id p], w) \<and>
    mass_enqueue_setup (serve demo_env) (\<lambda>k. [k]) None w = (Done [p_id q], w) \<and>
    log_streaming_setup (serve demo_env) (\<lambda>k. [k]) None w = (Done [p_id q], w) \<and>
    mixed_load_setup (serve demo_env) (\<lambda>k. [k]) None w = (Done [p_id q], w)"
  unfolding Let_def by (rule setup_on_seed[OF demo_env_ok(1)]) simp_all

section \<open>Examples\<close>

lemma demo_load_ok: "api_ok demo_env (\<lambda>k. [k])" "sound (the_db (demo_api (config_json demo_stages)))"
  "\<forall>s \<in> set (config_specs demo_stages). spec_fits s" "config_specs demo_stages \<noteq> []"
  by (simp_all add: api_ok_def demo_env_ok demo_api_def demo_pipeline_def sound_def jobs_inv_def keys_ok_def
      empty_db_def refs_ok_def locks_exclusive_def al.exclusive_def holds_lock_def all_runs_synced_def
      config_specs_def demo_stages_def step_specs_def spec_fits_def fits_int4_def)

theorem mass_enqueue_load_witness:
  "let w = demo_api (config_json demo_stages); p = demo_pipeline demo_stages
   in \<exists>w' new. iterations (\<lambda>k. mass_enqueue (serve demo_env) [p_id p] 2 (int k)) 3 w =
      (Done (concat (replicate 3 [Trigger_Latency, Errors False])), w') \<and>
    jobs (the_db w') = jobs (the_db w) @ new \<and>
    mset (map job_spec_of new) = repeat_mset 3 (mset (config_specs demo_stages)) \<and>
    (\<forall>j \<in> set new. j_status j = Pending) \<and>
    length (pipeline_runs (the_db w')) = length (pipeline_runs (the_db w)) + 3 \<and>
    pipelines (the_db w') = pipelines (the_db w) \<and> script w' = [] \<and> sound (the_db w')"
  unfolding Let_def
  by (rule mass_enqueue_load[OF demo_load_ok(1) _ demo_load_ok(2) _ _ _ demo_load_ok(3)])
    (simp_all add: demo_api_def demo_pipeline_def)

theorem log_streaming_without_worker_witness:
  "\<exists>w'. log_streaming (serve demo_env) (\<lambda>k. [k]) [p_id (demo_pipeline demo_stages)]
      (demo_api (config_json demo_stages)) = (Done [Trigger_Latency, Time_To_First_Job 0], w')"
  by (rule log_streaming_without_worker[OF demo_load_ok(1) _ demo_load_ok(2) _ _ _ demo_load_ok(3,4)])
    (simp_all add: demo_api_def demo_pipeline_def)

end
