(* ===== verification/Isolation.thy ===== *)
theory Isolation
  imports JobOrder
begin

text \<open>
  The statements on jobs below the level of statements: as transactions of READ COMMITTED,
  which run at the same time.  An UPDATE locks and changes its rows one by one, waiting for
  a locked row and judging it again at its newest version; the trigger function
  (src/src/database/database-seed.service.ts) then runs once per changed row, and each SELECT
  and UPDATE in it sees what is committed at that moment and what its own transaction has
  written.  The other theories take a statement as atomic; this one says when they may.
\<close>

section \<open>Transactions\<close>

text \<open>The UPDATE statements of the job queue that name their rows in the WHERE clause.\<close>

datatype row_update = Complete "uuid option" int | Fail "uuid option" int | Reclaim int

fun update_hits :: "row_update \<Rightarrow> timestamp \<Rightarrow> job \<Rightarrow> bool" where
  "update_hits (Complete i e) now j = is_row i (j_id j)"
| "update_hits (Fail i e) now j = is_row i (j_id j)"
| "update_hits (Reclaim t) now j = stuck t now j"

fun update_sets :: "row_update \<Rightarrow> timestamp \<Rightarrow> job \<Rightarrow> job" where
  "update_sets (Complete i e) now j = completed_set e now j"
| "update_sets (Fail i e) now j = failed_set e j"
| "update_sets (Reclaim t) now j = reclaim_set j"

text \<open>
  Where a transaction stands: rows still to visit and the runs of the rows changed; the
  trigger calls to come; inside a call for a run, after its first or its second SELECT.
\<close>

datatype tx_pc =
    Writing row_update "uuid list" "uuid list"
  | Fire "uuid list"
  | Saw_Running uuid "uuid list"
  | Saw_None uuid "uuid list"
  | Saw_All uuid bool "uuid list"

text \<open>What it has written and not committed: new versions of rows by id, and an inserted row.\<close>

record txn =
  tx_now :: timestamp
  tx_jobs :: "uuid \<Rightarrow> job option"
  tx_new :: "job list"
  tx_runs :: "uuid \<Rightarrow> pipeline_run option"
  tx_pc :: tx_pc

definition overlay :: "('k \<Rightarrow> 'r option) \<Rightarrow> ('r \<Rightarrow> 'k) \<Rightarrow> 'r list \<Rightarrow> 'r list" where
  "overlay m key rows = map (\<lambda>r. case m (key r) of None \<Rightarrow> r | Some r' \<Rightarrow> r') rows"

text \<open>What a query of the transaction sees.\<close>

definition view :: "txn \<Rightarrow> db \<Rightarrow> db" where
  "view x d = d\<lparr>jobs := overlay (tx_jobs x) j_id (jobs d) @ tx_new x,
     pipeline_runs := overlay (tx_runs x) r_id (pipeline_runs d)\<rparr>"

record isodb =
  committed :: db
  txs :: "nat \<Rightarrow> txn option"

definition put :: "nat \<Rightarrow> txn \<Rightarrow> isodb \<Rightarrow> isodb" where
  "put t x st = st\<lparr>txs := (txs st)(t := Some x)\<rparr>"

definition locked_jobs :: "isodb \<Rightarrow> uuid set" where
  "locked_jobs st = {k. \<exists>u x. txs st u = Some x \<and> tx_jobs x k \<noteq> None}"

definition run_locked :: "isodb \<Rightarrow> nat \<Rightarrow> uuid \<Rightarrow> bool" where
  "run_locked st t i \<longleftrightarrow> (\<exists>u x. u \<noteq> t \<and> txs st u = Some x \<and> tx_runs x i \<noteq> None)"

text \<open>The WHERE clause of the first UPDATE of the trigger function.\<close>

definition not_marked_running :: "pipeline_run \<Rightarrow> bool" where
  "not_marked_running r \<longleftrightarrow> r_status r \<noteq> Running \<or> r_started_at r = None"

section \<open>Steps\<close>

inductive iso_step :: "isodb \<Rightarrow> isodb \<Rightarrow> bool" where
  Begin_Claim: "txs st t = None \<Longrightarrow>
    pick_row j_id claimable claim_rank_of (locked_jobs st) (w, now) (jobs (committed st)) = Some j \<Longrightarrow>
    iso_step st (put t \<lparr>tx_now = now, tx_jobs = [j_id j \<mapsto> claim_set (w, now) j], tx_new = [],
      tx_runs = Map.empty, tx_pc = Fire [j_pipeline_run_id j]\<rparr> st)"
| Begin_Update: "txs st t = None \<Longrightarrow>
    iso_step st (put t \<lparr>tx_now = now, tx_jobs = Map.empty, tx_new = [], tx_runs = Map.empty,
      tx_pc = Writing s (map j_id (filter (update_hits s now) (jobs (committed st)))) []\<rparr> st)"
| Begin_Insert: "txs st t = None \<Longrightarrow> j_status j = Pending \<Longrightarrow>
    j_pipeline_run_id j \<in> r_id ` set (pipeline_runs (committed st)) \<Longrightarrow>
    iso_step st (put t \<lparr>tx_now = now, tx_jobs = Map.empty, tx_new = [j], tx_runs = Map.empty,
      tx_pc = Fire [j_pipeline_run_id j]\<rparr> st)"
| Write_Row: "txs st t = Some x \<Longrightarrow> tx_pc x = Writing s (j_id j # ks) is \<Longrightarrow>
    j \<in> set (jobs (committed st)) \<Longrightarrow> j_id j \<notin> locked_jobs st \<Longrightarrow> update_hits s (tx_now x) j \<Longrightarrow>
    iso_step st (put t (x\<lparr>tx_jobs := (tx_jobs x)(j_id j \<mapsto> update_sets s (tx_now x) j),
      tx_pc := Writing s ks (is @ [j_pipeline_run_id j])\<rparr>) st)"
| Skip_Row: "txs st t = Some x \<Longrightarrow> tx_pc x = Writing s (k # ks) is \<Longrightarrow> k \<notin> locked_jobs st \<Longrightarrow>
    \<forall>j \<in> set (jobs (committed st)). j_id j = k \<longrightarrow> \<not> update_hits s (tx_now x) j \<Longrightarrow>
    iso_step st (put t (x\<lparr>tx_pc := Writing s ks is\<rparr>) st)"
| Written: "txs st t = Some x \<Longrightarrow> tx_pc x = Writing s [] is \<Longrightarrow>
    iso_step st (put t (x\<lparr>tx_pc := Fire is\<rparr>) st)"
| Select_Running: "txs st t = Some x \<Longrightarrow> tx_pc x = Fire (i # is) \<Longrightarrow>
    iso_step st (put t (x\<lparr>tx_pc :=
      (if \<exists>j \<in> set (run_jobs (view x (committed st)) i). j_status j = Running
       then Saw_Running i is else Saw_None i is)\<rparr>) st)"
| Set_Running: "txs st t = Some x \<Longrightarrow> tx_pc x = Saw_Running i is \<Longrightarrow>
    r \<in> set (pipeline_runs (view x (committed st))) \<Longrightarrow> r_id r = i \<Longrightarrow> not_marked_running r \<Longrightarrow>
    \<not> run_locked st t i \<Longrightarrow>
    iso_step st (put t (x\<lparr>tx_runs := (tx_runs x)(i \<mapsto>
        r\<lparr>r_status := Running, r_started_at := coalesce (r_started_at r) (tx_now x)\<rparr>),
      tx_pc := Fire is\<rparr>) st)"
| Running_Already: "txs st t = Some x \<Longrightarrow> tx_pc x = Saw_Running i is \<Longrightarrow>
    \<forall>r \<in> set (pipeline_runs (view x (committed st))). r_id r = i \<longrightarrow> \<not> not_marked_running r \<Longrightarrow>
    iso_step st (put t (x\<lparr>tx_pc := Fire is\<rparr>) st)"
| Select_All: "txs st t = Some x \<Longrightarrow> tx_pc x = Saw_None i is \<Longrightarrow>
    js = run_jobs (view x (committed st)) i \<Longrightarrow>
    iso_step st (put t (x\<lparr>tx_pc := (if \<forall>j \<in> set js. terminal (j_status j)
       then Saw_All i (\<exists>j \<in> set js. j_status j = Failed) is else Fire is)\<rparr>) st)"
| Set_Done: "txs st t = Some x \<Longrightarrow> tx_pc x = Saw_All i has_failed is \<Longrightarrow>
    r \<in> set (pipeline_runs (view x (committed st))) \<Longrightarrow> r_id r = i \<Longrightarrow> \<not> run_locked st t i \<Longrightarrow>
    iso_step st (put t (x\<lparr>tx_runs := (tx_runs x)(i \<mapsto>
        r\<lparr>r_status := (if has_failed then Failed else Success),
          r_completed_at := coalesce (r_completed_at r) (tx_now x)\<rparr>),
      tx_pc := Fire is\<rparr>) st)"
| Run_Gone: "txs st t = Some x \<Longrightarrow> tx_pc x = Saw_All i has_failed is \<Longrightarrow>
    i \<notin> r_id ` set (pipeline_runs (view x (committed st))) \<Longrightarrow>
    iso_step st (put t (x\<lparr>tx_pc := Fire is\<rparr>) st)"
| Commit: "txs st t = Some x \<Longrightarrow> tx_pc x = Fire [] \<Longrightarrow>
    j_id ` set (tx_new x) \<inter> j_id ` set (jobs (committed st)) = {} \<Longrightarrow>
    iso_step st (st\<lparr>committed := view x (committed st), txs := (txs st)(t := None)\<rparr>)"
| Roll_Back: "iso_step st (st\<lparr>txs := (txs st)(t := None)\<rparr>)"
| Heartbeat: "k \<notin> locked_jobs st \<Longrightarrow>
    iso_step st (st\<lparr>committed := (committed st)\<lparr>jobs :=
      update_where (\<lambda>j. j_id j = k) (heartbeat_set now) (jobs (committed st))\<rparr>\<rparr>)"
| Create_Run: "r_id r \<notin> j_pipeline_run_id ` set (jobs (committed st)) \<Longrightarrow>
    iso_step st (st\<lparr>committed := (committed st)\<lparr>pipeline_runs := pipeline_runs (committed st) @ [r]\<rparr>\<rparr>)"
| Elsewhere: "jobs d = jobs (committed st) \<Longrightarrow> pipeline_runs d = pipeline_runs (committed st) \<Longrightarrow>
    iso_step st (st\<lparr>committed := d\<rparr>)"

text \<open>
  \<open>iso_reach ok st\<close>: reachable through states that satisfy \<open>ok\<close>, from a database in step with
  no transaction under way.
\<close>

inductive iso_reach :: "(isodb \<Rightarrow> bool) \<Rightarrow> isodb \<Rightarrow> bool" for ok where
  Start: "all_runs_synced d \<Longrightarrow> distinct (map j_id (jobs d)) \<Longrightarrow>
    iso_reach ok \<lparr>committed = d, txs = (\<lambda>_. None)\<rparr>"
| Next: "iso_reach ok st \<Longrightarrow> iso_step st st' \<Longrightarrow> ok st' \<Longrightarrow> iso_reach ok st'"

text \<open>The runs of the rows a transaction has changed, and those of the rows it inserts.\<close>

definition owned :: "txn \<Rightarrow> uuid set" where
  "owned x = j_pipeline_run_id ` ran (tx_jobs x)"

definition inserted :: "txn \<Rightarrow> uuid set" where
  "inserted x = j_pipeline_run_id ` set (tx_new x)"

text \<open>No two transactions change jobs of one run at the same time; any number may insert.\<close>

definition solo :: "isodb \<Rightarrow> bool" where
  "solo st \<longleftrightarrow> (\<forall>t u x y. txs st t = Some x \<longrightarrow> txs st u = Some y \<longrightarrow> t \<noteq> u \<longrightarrow>
     owned x \<inter> owned y = {})"

section \<open>What a transaction relies on\<close>

text \<open>Of the jobs of a run only the set of their statuses matters.\<close>

definition synced_on :: "run_status set \<Rightarrow> pipeline_run \<Rightarrow> bool" where
  "synced_on S r \<longleftrightarrow> (Running \<in> S \<longrightarrow> r_status r = Running \<and> r_started_at r \<noteq> None) \<and>
     (S \<noteq> {} \<and> (\<forall>s \<in> S. terminal s) \<longrightarrow>
        r_status r = (if Failed \<in> S then Failed else Success) \<and> r_completed_at r \<noteq> None)"

definition statuses :: "db \<Rightarrow> uuid \<Rightarrow> run_status set" where
  "statuses d i = j_status ` set (run_jobs d i)"

lemma run_synced_on: "run_synced (run_jobs d i) r \<longleftrightarrow> synced_on (statuses d i) r"
proof -
  have 1: "(\<exists>j \<in> set xs. j_status j = s) \<longleftrightarrow> s \<in> j_status ` set xs" for xs s by auto
  have 2: "(\<forall>j \<in> set xs. terminal (j_status j)) \<longleftrightarrow> (\<forall>s \<in> j_status ` set xs. terminal s)"
    for xs by simp
  have 3: "xs \<noteq> [] \<longleftrightarrow> j_status ` set xs \<noteq> {}" for xs by simp
  show ?thesis unfolding run_synced_def synced_on_def statuses_def 1 2 3 ..
qed

lemma all_synced_on:
  "all_runs_synced d \<longleftrightarrow> (\<forall>r \<in> set (pipeline_runs d). synced_on (statuses d (r_id r)) r)"
  by (simp add: all_runs_synced_def run_synced_on)

lemma statuses_iff: "s \<in> statuses d i \<longleftrightarrow> (\<exists>j \<in> set (jobs d). j_pipeline_run_id j = i \<and> j_status j = s)"
  by (auto simp: statuses_def run_jobs_def)

definition done_except :: "txn \<Rightarrow> db \<Rightarrow> uuid set \<Rightarrow> bool" where
  "done_except x d I \<longleftrightarrow> I \<subseteq> owned x \<union> inserted x \<and>
     (\<forall>r \<in> set (pipeline_runs (view x d)). r_id r \<in> owned x - I \<longrightarrow>
        synced_on (statuses (view x d) (r_id r)) r)"

fun pc_ok :: "txn \<Rightarrow> db \<Rightarrow> tx_pc \<Rightarrow> bool" where
  "pc_ok x d (Writing s ks is) \<longleftrightarrow> set is = owned x \<and> tx_new x = [] \<and> tx_runs x = Map.empty"
| "pc_ok x d (Fire is) \<longleftrightarrow> done_except x d (set is)"
| "pc_ok x d (Saw_Running i is) \<longleftrightarrow> done_except x d (insert i (set is)) \<and>
     (i \<in> owned x \<longrightarrow> Running \<in> statuses (view x d) i)"
| "pc_ok x d (Saw_None i is) \<longleftrightarrow> done_except x d (insert i (set is)) \<and>
     (i \<in> owned x \<longrightarrow> Running \<notin> statuses (view x d) i)"
| "pc_ok x d (Saw_All i hf is) \<longleftrightarrow> done_except x d (insert i (set is)) \<and> i \<in> owned x \<and>
     Running \<notin> statuses (view x d) i \<and> hf = (Failed \<in> statuses (view x d) i)"

definition keyed_by :: "('k \<Rightarrow> 'r option) \<Rightarrow> ('r \<Rightarrow> 'k) \<Rightarrow> bool" where
  "keyed_by m key \<longleftrightarrow> (\<forall>k r. m k = Some r \<longrightarrow> key r = k)"

text \<open>Changed rows keep their key and their run; only a job that is added is not there yet.\<close>

definition writes_ok :: "txn \<Rightarrow> db \<Rightarrow> bool" where
  "writes_ok x d \<longleftrightarrow> keyed_by (tx_jobs x) j_id \<and> keyed_by (tx_runs x) r_id \<and>
     (\<forall>j' \<in> ran (tx_jobs x). \<exists>j \<in> set (jobs d). j_id j = j_id j' \<and> j_pipeline_run_id j = j_pipeline_run_id j') \<and>
     (\<forall>j \<in> set (tx_new x). j_status j = Pending) \<and> distinct (map j_id (tx_new x)) \<and>
     (tx_new x = [] \<or> tx_jobs x = Map.empty) \<and>
     (\<forall>r \<in> ran (tx_runs x). r_id r \<in> owned x \<or>
        r_id r \<in> inserted x \<and> r_status r = Running \<and> r_started_at r \<noteq> None)"

definition txn_ok :: "txn \<Rightarrow> db \<Rightarrow> bool" where
  "txn_ok x d \<longleftrightarrow> writes_ok x d \<and> pc_ok x d (tx_pc x)"

lemma writes_okD:
  assumes "writes_ok x d"
  shows "keyed_by (tx_jobs x) j_id" "keyed_by (tx_runs x) r_id"
    "j' \<in> ran (tx_jobs x) \<Longrightarrow>
       \<exists>j \<in> set (jobs d). j_id j = j_id j' \<and> j_pipeline_run_id j = j_pipeline_run_id j'"
    "j \<in> set (tx_new x) \<Longrightarrow> j_status j = Pending" "distinct (map j_id (tx_new x))"
    "tx_new x = [] \<or> tx_jobs x = Map.empty"
    "r \<in> ran (tx_runs x) \<Longrightarrow> r_id r \<in> owned x \<or>
       r_id r \<in> inserted x \<and> r_status r = Running \<and> r_started_at r \<noteq> None"
  using assms unfolding writes_ok_def by blast+

text \<open>
  What a transaction may have to bear from the others: jobs are added to its runs as pending,
  and such an addition may mark the run as running.
\<close>

definition bears :: "txn \<Rightarrow> db \<Rightarrow> db \<Rightarrow> bool" where
  "bears x d d' \<longleftrightarrow>
     (\<forall>j \<in> set (jobs d). \<exists>j' \<in> set (jobs d'). j_id j' = j_id j \<and> j_pipeline_run_id j' = j_pipeline_run_id j) \<and>
     (\<forall>i \<in> owned x. statuses (view x d') i = statuses (view x d) i \<or>
        statuses (view x d') i = insert Pending (statuses (view x d) i)) \<and>
     (\<forall>r' \<in> set (pipeline_runs (view x d')). r_id r' \<in> owned x \<longrightarrow>
        r' \<in> set (pipeline_runs (view x d)) \<or>
        r_status r' = Running \<and> r_started_at r' \<noteq> None \<and> Pending \<in> statuses (view x d') (r_id r'))"

lemma synced_pending: "synced_on S r \<Longrightarrow> synced_on (insert Pending S) r"
  by (simp add: synced_on_def)

lemma synced_open:
  assumes "Pending \<in> S"
  shows "synced_on S r \<longleftrightarrow> (Running \<in> S \<longrightarrow> r_status r = Running \<and> r_started_at r \<noteq> None)"
proof -
  have "\<not> (\<forall>s \<in> S. terminal s)" using assms by force
  then show ?thesis unfolding synced_on_def by blast
qed

lemma done_except_bears:
  assumes "done_except x d I" "bears x d d'"
  shows "done_except x d' I"
  unfolding done_except_def
proof (intro conjI ballI impI)
  show "I \<subseteq> owned x \<union> inserted x" using assms(1) by (simp add: done_except_def)
  fix r assume r: "r \<in> set (pipeline_runs (view x d'))" "r_id r \<in> owned x - I"
  let ?S' = "statuses (view x d') (r_id r)"
  from assms(2) r consider "r \<in> set (pipeline_runs (view x d))"
    | "r_status r = Running" "r_started_at r \<noteq> None" "Pending \<in> ?S'"
    unfolding bears_def by blast
  then show "synced_on ?S' r"
  proof cases
    case 1
    with assms(1) r(2) have "synced_on (statuses (view x d) (r_id r)) r"
      by (simp add: done_except_def)
    moreover have "?S' = statuses (view x d) (r_id r) \<or> ?S' = insert Pending (statuses (view x d) (r_id r))"
      using assms(2) r(2) unfolding bears_def by blast
    ultimately show ?thesis using synced_pending by metis
  next
    case 2
    then show ?thesis by (simp add: synced_open)
  qed
qed

lemma txn_ok_bears:
  assumes "txn_ok x d" "bears x d d'"
  shows "txn_ok x d'"
proof -
  have same: "s \<in> statuses (view x d') i \<longleftrightarrow> s \<in> statuses (view x d) i"
    if "i \<in> owned x" "s \<noteq> Pending" for i s
    using assms(2) that unfolding bears_def by blast
  note same = same[of _ Running, simplified] same[of _ Failed, simplified]
  have "pc_ok x d' (tx_pc x)"
    using assms(1)[unfolded txn_ok_def] same done_except_bears[OF _ assms(2)]
    by (cases "tx_pc x") simp_all
  moreover have w: "writes_ok x d" using assms(1) by (simp add: txn_ok_def)
  have "\<forall>j \<in> set (jobs d). \<exists>j' \<in> set (jobs d'). j_id j' = j_id j \<and> j_pipeline_run_id j' = j_pipeline_run_id j"
    using assms(2) unfolding bears_def by (rule conjunct1)
  then have "\<forall>j' \<in> ran (tx_jobs x). \<exists>j \<in> set (jobs d'). j_id j = j_id j' \<and>
      j_pipeline_run_id j = j_pipeline_run_id j'"
    using writes_okD(3)[OF w] by fastforce
  then have "writes_ok x d'" using w by (simp add: writes_ok_def)
  ultimately show ?thesis by (simp add: txn_ok_def)
qed

section \<open>What a transaction does itself\<close>

lemma view_pc [simp]: "view (x\<lparr>tx_pc := p\<rparr>) d = view x d"
  "owned (x\<lparr>tx_pc := p\<rparr>) = owned x" "inserted (x\<lparr>tx_pc := p\<rparr>) = inserted x"
  by (simp_all add: view_def owned_def inserted_def)

lemma view_runs [simp]: "statuses (view (x\<lparr>tx_runs := m\<rparr>) d) i = statuses (view x d) i"
  "owned (x\<lparr>tx_runs := m\<rparr>) = owned x" "inserted (x\<lparr>tx_runs := m\<rparr>) = inserted x"
  by (simp_all add: view_def statuses_def run_jobs_def owned_def inserted_def)

lemma writes_ok_pc [simp]: "writes_ok (x\<lparr>tx_pc := p\<rparr>) d = writes_ok x d"
  by (simp add: writes_ok_def)

lemma pc_ok_pc [simp]: "pc_ok (x\<lparr>tx_pc := p\<rparr>) d q = pc_ok x d q"
  by (cases q) (simp_all add: done_except_def)

lemma txn_ok_pc: "writes_ok x d \<Longrightarrow> pc_ok x d p \<Longrightarrow> txn_ok (x\<lparr>tx_pc := p\<rparr>) d"
  by (simp add: txn_ok_def)

lemma runs_of_view [simp]: "pipeline_runs (view x d) = overlay (tx_runs x) r_id (pipeline_runs d)"
  and jobs_of_view [simp]: "jobs (view x d) = overlay (tx_jobs x) j_id (jobs d) @ tx_new x"
  by (simp_all add: view_def)

lemma in_overlay_iff:
  assumes "keyed_by m key"
  shows "r \<in> set (overlay m key rows) \<longleftrightarrow>
    (case m (key r) of None \<Rightarrow> r \<in> set rows | Some q \<Rightarrow> q = r \<and> key r \<in> key ` set rows)"
proof -
  let ?f = "\<lambda>r. case m (key r) of None \<Rightarrow> r | Some r' \<Rightarrow> r'"
  have key: "key (?f r0) = key r0" for r0
    using assms by (cases "m (key r0)") (simp_all add: keyed_by_def)
  have "r \<in> ?f ` set rows \<longleftrightarrow> (\<exists>r0 \<in> set rows. key r0 = key r \<and> r = ?f r0)"
  proof
    assume "r \<in> ?f ` set rows"
    then obtain r0 where "r = ?f r0" "r0 \<in> set rows" by (rule imageE)
    then show "\<exists>r0 \<in> set rows. key r0 = key r \<and> r = ?f r0" using key[of r0] by (intro bexI[of _ r0]) simp_all
  next
    assume "\<exists>r0 \<in> set rows. key r0 = key r \<and> r = ?f r0"
    then show "r \<in> ?f ` set rows" by (elim bexE conjE) (rule image_eqI)
  qed
  also have "\<dots> \<longleftrightarrow> (\<exists>r0 \<in> set rows. key r0 = key r \<and>
      r = (case m (key r) of None \<Rightarrow> r0 | Some q \<Rightarrow> q))"
    by (rule bex_cong[OF refl], rule conj_cong[OF refl]) simp
  also have "\<dots> \<longleftrightarrow> (case m (key r) of None \<Rightarrow> r \<in> set rows | Some q \<Rightarrow> q = r \<and> key r \<in> key ` set rows)"
  proof (cases "m (key r)")
    case None
    show ?thesis unfolding None option.case by blast
  next
    case (Some q)
    show ?thesis unfolding Some option.case by (metis imageE imageI)
  qed
  finally show ?thesis by (simp add: overlay_def)
qed

lemma inserted_pending:
  assumes "writes_ok x d" "i \<in> inserted x"
  shows "Pending \<in> statuses (view x d) i"
  using assms(2) writes_okD(4)[OF assms(1)] unfolding inserted_def statuses_iff by auto

text \<open>An UPDATE of the trigger function writes the row of its run.\<close>

lemma txn_ok_set_run:
  assumes ok: "writes_ok x d" and de: "done_except x d (insert i (set is))"
    and r: "r_id r' = i" "i \<in> owned x \<Longrightarrow> synced_on (statuses (view x d) i) r'"
    and own: "i \<in> owned x \<or> i \<in> inserted x \<and> r_status r' = Running \<and> r_started_at r' \<noteq> None"
  shows "txn_ok (x\<lparr>tx_runs := (tx_runs x)(i \<mapsto> r'), tx_pc := Fire is\<rparr>) d"
proof -
  let ?x = "x\<lparr>tx_runs := (tx_runs x)(i \<mapsto> r')\<rparr>"
  have keyed: "keyed_by ((tx_runs x)(i \<mapsto> r')) r_id"
    using writes_okD(2)[OF ok] r(1) by (simp add: keyed_by_def)
  have "done_except ?x d (set is)"
    unfolding done_except_def
  proof (intro conjI ballI impI)
    show "set is \<subseteq> owned ?x \<union> inserted ?x" using de by (simp add: done_except_def)
    fix q assume q: "q \<in> set (pipeline_runs (view ?x d))" "r_id q \<in> owned ?x - set is"
    from q(1) have q': "q \<in> set (overlay ((tx_runs x)(i \<mapsto> r')) r_id (pipeline_runs d))" by simp
    show "synced_on (statuses (view ?x d) (r_id q)) q"
    proof (cases "r_id q = i")
      case True
      with q' have "q = r'" by (simp add: in_overlay_iff[OF keyed])
      with r(2) q(2) True show ?thesis by simp
    next
      case False
      with q' have "q \<in> set (pipeline_runs (view x d))"
        by (simp add: in_overlay_iff[OF keyed] in_overlay_iff[OF writes_okD(2)[OF ok]])
      with de q(2) False show ?thesis by (simp add: done_except_def)
    qed
  qed
  moreover have "writes_ok ?x d"
    using ok keyed own r(1) unfolding writes_ok_def by (auto simp: ran_def split: if_splits)
  ultimately show ?thesis by (simp add: txn_ok_def done_except_def)
qed

text \<open>Dropping a run whose call has done its work from those to come.\<close>

lemma done_except_drop:
  assumes "done_except x d (insert i I)"
    and "\<And>r. i \<in> owned x \<Longrightarrow> r \<in> set (pipeline_runs (view x d)) \<Longrightarrow> r_id r = i \<Longrightarrow>
      synced_on (statuses (view x d) i) r"
  shows "done_except x d I"
  using assms unfolding done_except_def by (metis DiffE DiffI insertE insert_subset)

lemma in_run_jobs: "j \<in> set (run_jobs d i) \<longleftrightarrow> j \<in> set (jobs d) \<and> j_pipeline_run_id j = i"
  by (auto simp: run_jobs_def)

lemma ex_status: "(\<exists>j \<in> set (run_jobs d i). j_status j = s) \<longleftrightarrow> s \<in> statuses d i"
  by (auto simp: statuses_def)

lemma all_status: "(\<forall>j \<in> set (run_jobs d i). P (j_status j)) \<longleftrightarrow> (\<forall>s \<in> statuses d i. P s)"
  by (simp add: statuses_def)

lemma update_sets_keeps [simp]:
  "j_id (update_sets s now j) = j_id j"
  "j_pipeline_run_id (update_sets s now j) = j_pipeline_run_id j"
  by (cases s; simp add: completed_set_def failed_set_def reclaim_set_def)+

section \<open>The invariant\<close>

definition runs_apart :: "isodb \<Rightarrow> bool" where
  "runs_apart st \<longleftrightarrow>
     (\<forall>t x i. txs st t = Some x \<longrightarrow> tx_runs x i \<noteq> None \<longrightarrow> \<not> run_locked st t i)"

definition iso_ok :: "isodb \<Rightarrow> bool" where
  "iso_ok st \<longleftrightarrow> all_runs_synced (committed st) \<and> distinct (map j_id (jobs (committed st))) \<and>
     (\<forall>t x. txs st t = Some x \<longrightarrow> txn_ok x (committed st)) \<and> runs_apart st"

lemma iso_okD:
  assumes "iso_ok st"
  shows "all_runs_synced (committed st)" "distinct (map j_id (jobs (committed st)))"
    "txs st t = Some x \<Longrightarrow> writes_ok x (committed st)"
    "txs st t = Some x \<Longrightarrow> pc_ok x (committed st) (tx_pc x)" "runs_apart st"
  using assms unfolding iso_ok_def txn_ok_def by blast+

text \<open>A step of one transaction that leaves what is committed alone.\<close>

lemma iso_ok_put:
  assumes "iso_ok st" "txn_ok x (committed st)"
    and "\<And>i. tx_runs x i \<noteq> None \<Longrightarrow> \<not> run_locked st t i"
  shows "iso_ok (put t x st)"
proof -
  have "\<not> run_locked (put t x st) u i" if "txs (put t x st) u = Some y" "tx_runs y i \<noteq> None" for u y i
  proof
    assume "run_locked (put t x st) u i"
    then obtain v z where v: "v \<noteq> u" "txs (put t x st) v = Some z" "tx_runs z i \<noteq> None"
      unfolding run_locked_def by blast
    consider "u = t" | "v = t" "u \<noteq> t" | "u \<noteq> t" "v \<noteq> t" by blast
    then show False
    proof cases
      case 1
      with that v have "tx_runs x i \<noteq> None" "txs st v = Some z" by (simp_all add: put_def)
      with assms(3) v 1 show False unfolding run_locked_def by blast
    next
      case 2
      with that v have "tx_runs x i \<noteq> None" "txs st u = Some y" by (simp_all add: put_def)
      with assms(3) that 2 show False unfolding run_locked_def by blast
    next
      case 3
      with that v have "txs st u = Some y" "txs st v = Some z" by (simp_all add: put_def)
      with iso_okD(5)[OF assms(1)] that(2) v show False
        unfolding runs_apart_def run_locked_def by blast
    qed
  qed
  then have "runs_apart (put t x st)" unfolding runs_apart_def by blast
  with assms(1,2) show ?thesis unfolding iso_ok_def put_def by simp
qed

lemma own_runs_free:
  assumes "iso_ok st" "txs st t = Some x" "tx_runs x i \<noteq> None"
  shows "\<not> run_locked st t i"
  using iso_okD(5)[OF assms(1)] assms(2,3) unfolding runs_apart_def by blast

lemma iso_ok_pc:
  assumes "iso_ok st" "txs st t = Some x" "pc_ok x (committed st) p"
  shows "iso_ok (put t (x\<lparr>tx_pc := p\<rparr>) st)"
  by (rule iso_ok_put[OF assms(1) txn_ok_pc[OF iso_okD(3)[OF assms(1,2)] assms(3)]])
    (use own_runs_free[OF assms(1,2)] in simp)

lemma iso_ok_set_run:
  assumes "iso_ok st" "txs st t = Some x" "\<not> run_locked st t i"
    and "txn_ok (x\<lparr>tx_runs := (tx_runs x)(i \<mapsto> r), tx_pc := p\<rparr>) (committed st)"
  shows "iso_ok (put t (x\<lparr>tx_runs := (tx_runs x)(i \<mapsto> r), tx_pc := p\<rparr>) st)"
  by (rule iso_ok_put[OF assms(1,4)])
    (use own_runs_free[OF assms(1,2)] assms(3) in \<open>auto split: if_splits\<close>)

text \<open>What another process commits.\<close>

lemma iso_ok_commit:
  assumes "iso_ok st" "all_runs_synced d" "distinct (map j_id (jobs d))"
    and "\<And>t x. ts t = Some x \<Longrightarrow> txs st t = Some x \<and> bears x (committed st) d"
  shows "iso_ok (st\<lparr>committed := d, txs := ts\<rparr>)"
proof -
  have "txn_ok x d" if "ts t = Some x" for t x
    using txn_ok_bears[of x "committed st" d] assms(4)[OF that] assms(1) unfolding iso_ok_def by blast
  moreover have "runs_apart (st\<lparr>committed := d, txs := ts\<rparr>)"
    using iso_okD(5)[OF assms(1)] assms(4)
    unfolding runs_apart_def run_locked_def by (simp add: isodb.defs) blast
  ultimately show ?thesis using assms(2,3) unfolding iso_ok_def by simp
qed

text \<open>Statements of others that add no job and change no status.\<close>

lemma statuses_view_cong:
  assumes "map (\<lambda>j. (j_id j, j_pipeline_run_id j, j_status j)) (jobs d') =
      map (\<lambda>j. (j_id j, j_pipeline_run_id j, j_status j)) (jobs d)"
  shows "statuses (view x d') i = statuses (view x d) i" "statuses d' i = statuses d i"
    "map j_id (jobs d') = map j_id (jobs d)"
    "j \<in> set (jobs d) \<Longrightarrow> \<exists>j' \<in> set (jobs d'). j_id j' = j_id j \<and> j_pipeline_run_id j' = j_pipeline_run_id j"
proof -
  let ?g = "\<lambda>j. (j_id j, j_pipeline_run_id j, j_status j)"
  let ?h = "\<lambda>m. \<lambda>(k, r, s). case m k of None \<Rightarrow> (k, r, s) | Some j \<Rightarrow> ?g j"
  have ov: "map ?g (overlay m j_id js) = map (?h m) (map ?g js)" for m js
    by (auto simp: overlay_def split: option.split)
  have st: "statuses db i = {s. \<exists>k. (k, i, s) \<in> set (map ?g (jobs db))}" for db
    by (rule set_eqI) (simp add: statuses_iff image_iff, blast)
  have "map ?g (jobs (view x d')) = map ?g (jobs (view x d))"
    unfolding jobs_of_view map_append ov assms ..
  then show "statuses (view x d') i = statuses (view x d) i" unfolding st by (simp only:)
  show "statuses d' i = statuses d i" unfolding st assms ..
  have "map fst (map ?g (jobs d')) = map fst (map ?g (jobs d))" using assms by simp
  then show "map j_id (jobs d') = map j_id (jobs d)" by (simp add: comp_def)
  assume "j \<in> set (jobs d)"
  then have "?g j \<in> set (map ?g (jobs d))" by simp
  then have "?g j \<in> set (map ?g (jobs d'))" unfolding assms .
  then obtain j' where j': "?g j = ?g j'" "j' \<in> set (jobs d')" unfolding set_map by (rule imageE)
  then show "\<exists>j' \<in> set (jobs d'). j_id j' = j_id j \<and> j_pipeline_run_id j' = j_pipeline_run_id j"
    by (intro bexI[of _ j']) simp_all
qed

lemma iso_ok_quiet:
  assumes "iso_ok st"
    and same: "map (\<lambda>j. (j_id j, j_pipeline_run_id j, j_status j)) (jobs d) =
      map (\<lambda>j. (j_id j, j_pipeline_run_id j, j_status j)) (jobs (committed st))"
    and runs: "pipeline_runs d = pipeline_runs (committed st) @ rs"
    and new: "\<And>r. r \<in> set rs \<Longrightarrow> r_id r \<notin> j_pipeline_run_id ` set (jobs (committed st))"
  shows "iso_ok (st\<lparr>committed := d\<rparr>)"
proof -
  note cong = statuses_view_cong[OF same]
  have none: "statuses (committed st) (r_id r) = {}" if "r \<in> set rs" for r
    using new[OF that] by (force simp: statuses_def run_jobs_def)
  have "all_runs_synced d"
    using iso_okD(1)[OF assms(1)] none unfolding all_synced_on runs cong(2)
    by (auto simp: synced_on_def)
  moreover have "bears x (committed st) d" if t: "txs st t = Some x" for t x
    unfolding bears_def
  proof (intro conjI ballI impI)
    note w = iso_okD(3)[OF assms(1) t]
    fix r' assume r': "r' \<in> set (pipeline_runs (view x d))" "r_id r' \<in> owned x"
    from r'(2) obtain j where j: "j \<in> ran (tx_jobs x)" "r_id r' = j_pipeline_run_id j"
      unfolding owned_def by blast
    from writes_okD(3)[OF w j(1)] obtain j0 where
      "j0 \<in> set (jobs (committed st))" "j_pipeline_run_id j0 = r_id r'" using j(2) by auto
    then have "r_id r' \<in> j_pipeline_run_id ` set (jobs (committed st))" by (metis imageI)
    moreover have "r_id r' \<notin> r_id ` set rs" if "r_id r' \<in> j_pipeline_run_id ` set (jobs (committed st))"
    proof
      assume "r_id r' \<in> r_id ` set rs"
      then obtain q where "r_id r' = r_id q" "q \<in> set rs" by (rule imageE)
      with new[of q] that show False by simp
    qed
    ultimately have "r_id r' \<notin> r_id ` set rs" by simp
    then have "r' \<in> set (pipeline_runs (view x (committed st)))"
      using r'(1) by (auto simp: in_overlay_iff[OF writes_okD(2)[OF w]] runs split: option.splits)
    then show "r' \<in> set (pipeline_runs (view x (committed st))) \<or>
        r_status r' = Running \<and> r_started_at r' \<noteq> None \<and> Pending \<in> statuses (view x d) (r_id r')" ..
  qed (simp_all add: cong(1,4))
  ultimately have "iso_ok (st\<lparr>committed := d, txs := txs st\<rparr>)"
    by (intro iso_ok_commit assms(1)) (use cong(3) iso_okD(2)[OF assms(1)] in auto)
  then show ?thesis by simp
qed

section \<open>A commit\<close>

lemma overlay_job:
  assumes "writes_ok x d" "distinct (map j_id (jobs d))" "j \<in> set (jobs d)" "tx_jobs x (j_id j) = Some j'"
  shows "j_id j' = j_id j" "j_pipeline_run_id j' = j_pipeline_run_id j" "j_pipeline_run_id j \<in> owned x"
proof -
  show id: "j_id j' = j_id j" using writes_okD(1)[OF assms(1)] assms(4) by (simp add: keyed_by_def)
  have ran: "j' \<in> ran (tx_jobs x)" using assms(4) by (rule ranI)
  from writes_okD(3)[OF assms(1) this] obtain j0 where
    "j0 \<in> set (jobs d)" "j_id j0 = j_id j'" "j_pipeline_run_id j0 = j_pipeline_run_id j'" by blast
  with id job_rows.key_unique[OF assms(2) _ assms(3), of j0]
  show "j_pipeline_run_id j' = j_pipeline_run_id j" by simp
  with ran show "j_pipeline_run_id j \<in> owned x" unfolding owned_def by (metis imageI)
qed

lemma filter_map_agree:
  "(\<And>r. r \<in> set rs \<Longrightarrow> f r = g r \<or> \<not> P (f r) \<and> \<not> P (g r)) \<Longrightarrow> filter P (map f rs) = filter P (map g rs)"
proof (induction rs)
  case (Cons r rs)
  have "f r = g r \<or> \<not> P (f r) \<and> \<not> P (g r)" by (rule Cons.prems) simp
  moreover have "filter P (map f rs) = filter P (map g rs)" by (rule Cons.IH, rule Cons.prems) simp
  ultimately show ?case by auto
qed simp

text \<open>The jobs of a run another transaction owns: those it saw, and the ones added.\<close>

lemma jobs_after_commit:
  assumes x: "writes_ok x d" and y: "writes_ok y d" and keys: "distinct (map j_id (jobs d))"
    and fresh: "j_id ` set (tx_new x) \<inter> j_id ` set (jobs d) = {}"
    and i: "i \<in> owned y" "i \<notin> owned x"
  shows "run_jobs (view y (view x d)) i =
    run_jobs (view y d) i @ filter (\<lambda>j. j_pipeline_run_id j = i) (tx_new x)"
proof -
  define ox where "ox = (\<lambda>j. case tx_jobs x (j_id j) of None \<Rightarrow> j | Some j' \<Rightarrow> j')"
  define oy where "oy = (\<lambda>j. case tx_jobs y (j_id j) of None \<Rightarrow> j | Some j' \<Rightarrow> j')"
  let ?P = "\<lambda>j. j_pipeline_run_id j = i"
  have none: "tx_new y = []" using i(1) writes_okD(6)[OF y] unfolding owned_def by auto
  have "tx_jobs y (j_id j) = None" if "j \<in> set (tx_new x)" for j
  proof (rule ccontr)
    assume "tx_jobs y (j_id j) \<noteq> None"
    then obtain j' where j': "tx_jobs y (j_id j) = Some j'" by blast
    with writes_okD(1)[OF y] have "j_id j' = j_id j" by (simp add: keyed_by_def)
    with writes_okD(3)[OF y ranI[of "tx_jobs y", OF j']] fresh that show False by force
  qed
  then have new: "map oy (tx_new x) = tx_new x" by (intro map_idI) (simp add: oy_def)
  have "oy (ox j) = oy j \<or> \<not> ?P (oy (ox j)) \<and> \<not> ?P (oy j)" if j: "j \<in> set (jobs d)" for j
  proof (cases "tx_jobs x (j_id j)")
    case None
    then have "ox j = j" by (simp add: ox_def)
    then show ?thesis by simp
  next
    case (Some j')
    note xj = overlay_job[OF x keys j Some]
    have oj: "ox j = j'" by (simp add: ox_def Some)
    have "j_pipeline_run_id (oy q) = j_pipeline_run_id j"
      if "j_id q = j_id j" "j_pipeline_run_id q = j_pipeline_run_id j" for q
      using overlay_job(2)[OF y keys j] that by (cases "tx_jobs y (j_id j)") (simp_all add: oy_def)
    then have "j_pipeline_run_id (oy j) = j_pipeline_run_id j" "j_pipeline_run_id (oy j') = j_pipeline_run_id j"
      using xj by simp_all
    moreover have "j_pipeline_run_id j \<noteq> i" using xj(3) i(2) by blast
    ultimately show ?thesis by (simp add: oj)
  qed
  then have "filter ?P (map (\<lambda>j. oy (ox j)) (jobs d)) = filter ?P (map oy (jobs d))"
    by (rule filter_map_agree)
  moreover have "jobs (view y (view x d)) = map (\<lambda>j. oy (ox j)) (jobs d) @ tx_new x"
    using new unfolding oy_def ox_def jobs_of_view none overlay_def by simp
  moreover have "jobs (view y d) = map oy (jobs d)"
    unfolding oy_def jobs_of_view none overlay_def by simp
  ultimately show ?thesis by (simp add: run_jobs_def)
qed

lemma commit_bears:
  assumes x: "writes_ok x d" and y: "writes_ok y d" and keys: "distinct (map j_id (jobs d))"
    and fresh: "j_id ` set (tx_new x) \<inter> j_id ` set (jobs d) = {}" and solo: "owned x \<inter> owned y = {}"
  shows "bears y d (view x d)"
  unfolding bears_def
proof (intro conjI ballI impI)
  fix j assume j: "j \<in> set (jobs d)"
  show "\<exists>j' \<in> set (jobs (view x d)). j_id j' = j_id j \<and> j_pipeline_run_id j' = j_pipeline_run_id j"
  proof (cases "tx_jobs x (j_id j)")
    case None
    with j show ?thesis by (auto simp: in_overlay_iff[OF writes_okD(1)[OF x]])
  next
    case (Some j')
    with overlay_job[OF x keys j Some] j show ?thesis
      by (intro bexI[of _ j']) (auto simp: in_overlay_iff[OF writes_okD(1)[OF x]])
  qed
next
  fix i assume i: "i \<in> owned y"
  then have "i \<notin> owned x" using solo by blast
  note js = jobs_after_commit[OF x y keys fresh i this]
  have "j_status ` set (filter (\<lambda>j. j_pipeline_run_id j = i) (tx_new x)) \<subseteq> {Pending}"
    using writes_okD(4)[OF x] by auto
  then show "statuses (view y (view x d)) i = statuses (view y d) i \<or>
      statuses (view y (view x d)) i = insert Pending (statuses (view y d) i)"
    unfolding statuses_def js set_append image_Un by (auto dest!: subset_singletonD)
next
  fix r' assume r': "r' \<in> set (pipeline_runs (view y (view x d)))" "r_id r' \<in> owned y"
  then have nox: "r_id r' \<notin> owned x" using solo by blast
  show "r' \<in> set (pipeline_runs (view y d)) \<or>
      r_status r' = Running \<and> r_started_at r' \<noteq> None \<and> Pending \<in> statuses (view y (view x d)) (r_id r')"
  proof (cases "tx_runs y (r_id r') = None \<and> tx_runs x (r_id r') \<noteq> None")
    case True
    then obtain r1 where r1: "tx_runs x (r_id r') = Some r1" by blast
    have "r' = r1" using r'(1) True r1
      by (auto simp: in_overlay_iff[OF writes_okD(2)[OF y]] in_overlay_iff[OF writes_okD(2)[OF x]])
    with writes_okD(7)[OF x ranI[of "tx_runs x", OF r1]] nox
    have run: "r_id r' \<in> inserted x" "r_status r' = Running" "r_started_at r' \<noteq> None" by auto
    from run(1) obtain j where j: "j \<in> set (tx_new x)" "j_pipeline_run_id j = r_id r'"
      unfolding inserted_def by force
    then have "Pending \<in> j_status ` set (filter (\<lambda>j. j_pipeline_run_id j = r_id r') (tx_new x))"
      using writes_okD(4)[OF x] by force
    with run show ?thesis
      unfolding statuses_def jobs_after_commit[OF x y keys fresh r'(2) nox] by auto
  next
    case False
    have keyed: "r_id ` set (overlay (tx_runs x) r_id (pipeline_runs d)) = r_id ` set (pipeline_runs d)"
      using writes_okD(2)[OF x] unfolding overlay_def keyed_by_def
      by (force simp: image_image split: option.split)
    from r'(1) False have "r' \<in> set (pipeline_runs (view y d))"
      by (auto simp: in_overlay_iff[OF writes_okD(2)[OF y]] in_overlay_iff[OF writes_okD(2)[OF x]] keyed
          split: option.splits)
    then show ?thesis ..
  qed
qed

lemma commit_synced:
  assumes x: "writes_ok x d" and de: "done_except x d {}" and keys: "distinct (map j_id (jobs d))"
    and ok: "all_runs_synced d"
  shows "all_runs_synced (view x d)"
  unfolding all_synced_on
proof
  fix r assume r: "r \<in> set (pipeline_runs (view x d))"
  let ?i = "r_id r"
  have old: "synced_on (statuses d ?i) r" if "tx_runs x ?i = None"
    using r that ok by (simp add: all_synced_on in_overlay_iff[OF writes_okD(2)[OF x]])
  have cur: "r \<in> ran (tx_runs x)" if "tx_runs x ?i \<noteq> None"
    using r that by (auto simp: in_overlay_iff[OF writes_okD(2)[OF x]] ran_def)
  consider "?i \<in> owned x" | "?i \<in> inserted x" "?i \<notin> owned x" | "?i \<notin> owned x" "?i \<notin> inserted x" by blast
  then show "synced_on (statuses (view x d) ?i) r"
  proof cases
    case 1
    with de r show ?thesis by (simp add: done_except_def)
  next
    case 2
    then have none: "tx_jobs x = Map.empty" using writes_okD(6)[OF x] by (auto simp: inserted_def)
    have "statuses (view x d) ?i = statuses d ?i \<union> j_status ` set (filter (\<lambda>j. j_pipeline_run_id j = ?i) (tx_new x))"
      by (simp add: statuses_def run_jobs_def none overlay_def image_Un)
    then have st: "s \<in> statuses (view x d) ?i \<longleftrightarrow> s \<in> statuses d ?i" if "s \<noteq> Pending" for s
      using writes_okD(4)[OF x] that by auto
    note here = synced_open[OF inserted_pending[OF x 2(1)]]
    show ?thesis
    proof (cases "tx_runs x ?i = None")
      case True
      from old[OF True] show ?thesis unfolding here st[OF run_status.distinct(2)] by (simp add: synced_on_def)
    next
      case False
      from writes_okD(7)[OF x cur[OF False]] 2(2) show ?thesis unfolding here by blast
    qed
  next
    case 3
    then have t: "tx_runs x ?i = None" using cur writes_okD(7)[OF x] by blast
    have "(case tx_jobs x (j_id j) of None \<Rightarrow> j | Some j' \<Rightarrow> j') = id j \<or>
        \<not> j_pipeline_run_id (case tx_jobs x (j_id j) of None \<Rightarrow> j | Some j' \<Rightarrow> j') = ?i \<and>
        \<not> j_pipeline_run_id (id j) = ?i" if j: "j \<in> set (jobs d)" for j
    proof (cases "tx_jobs x (j_id j)")
      case (Some j')
      note o = overlay_job[OF x keys j Some]
      have "j_pipeline_run_id j \<noteq> ?i" using o(3) 3(1) by metis
      then show ?thesis by (simp add: Some o(2))
    qed simp
    then have "filter (\<lambda>j. j_pipeline_run_id j = ?i) (overlay (tx_jobs x) j_id (jobs d)) =
        filter (\<lambda>j. j_pipeline_run_id j = ?i) (map id (jobs d))"
      unfolding overlay_def by (rule filter_map_agree)
    moreover have "filter (\<lambda>j. j_pipeline_run_id j = ?i) (tx_new x) = []"
      using 3(2) unfolding inserted_def filter_empty_conv by (metis imageI)
    ultimately have "statuses (view x d) ?i = statuses d ?i"
      by (simp add: statuses_def run_jobs_def)
    with old[OF t] show ?thesis by simp
  qed
qed

text \<open>Each kind of step, beginning with those that change rows of jobs.\<close>

lemma begin_claim_ok:
  assumes "iso_ok st" "j \<in> set (jobs (committed st))"
  shows "iso_ok (put t \<lparr>tx_now = now, tx_jobs = [j_id j \<mapsto> claim_set (w, now) j], tx_new = [],
      tx_runs = Map.empty, tx_pc = Fire [j_pipeline_run_id j]\<rparr> st)" (is "iso_ok (put t ?x st)")
proof -
  have "owned ?x = {j_pipeline_run_id j}" by (simp add: owned_def claim_set.simps)
  with assms(2) have "txn_ok ?x (committed st)"
    by (auto simp: txn_ok_def writes_ok_def keyed_by_def done_except_def claim_set.simps)
  then show ?thesis by (rule iso_ok_put[OF assms(1)]) simp
qed

lemma write_row_ok:
  assumes "iso_ok st" "txs st t = Some x" "tx_pc x = Writing s (j_id j # ks) is"
    and "j \<in> set (jobs (committed st))" "j_id j \<notin> locked_jobs st"
  shows "iso_ok (put t (x\<lparr>tx_jobs := (tx_jobs x)(j_id j \<mapsto> update_sets s (tx_now x) j),
      tx_pc := Writing s ks (is @ [j_pipeline_run_id j])\<rparr>) st)" (is "iso_ok (put t ?x st)")
proof -
  note w = iso_okD(3)[OF assms(1,2)]
  have pc: "set is = owned x" "tx_new x = []" "tx_runs x = Map.empty"
    using iso_okD(4)[OF assms(1,2)] assms(3) by simp_all
  have "tx_jobs x (j_id j) = None" using assms(2,5) by (auto simp: locked_jobs_def)
  then have ran: "ran ((tx_jobs x)(j_id j \<mapsto> update_sets s (tx_now x) j)) =
      insert (update_sets s (tx_now x) j) (ran (tx_jobs x))"
    by (rule ran_map_upd)
  then have "owned ?x = insert (j_pipeline_run_id j) (owned x)" by (simp add: owned_def)
  with pc have "pc_ok ?x (committed st) (tx_pc ?x)" by auto
  moreover have "writes_ok ?x (committed st)"
    using w assms(4) pc ran by (auto simp: writes_ok_def keyed_by_def)
  ultimately have "txn_ok ?x (committed st)" by (simp only: txn_ok_def)
  then show ?thesis by (rule iso_ok_put[OF assms(1)]) (simp add: pc)
qed

text \<open>A call that has seen a running job: the run is marked, or is marked already.\<close>

lemma saw_running:
  assumes "iso_ok st" "txs st t = Some x" "tx_pc x = Saw_Running i is"
  shows "done_except x (committed st) (insert i (set is))"
    "i \<in> owned x \<Longrightarrow> synced_on (statuses (view x (committed st)) i) r \<longleftrightarrow>
       r_status r = Running \<and> r_started_at r \<noteq> None"
proof -
  have pc: "done_except x (committed st) (insert i (set is))"
    "i \<in> owned x \<longrightarrow> Running \<in> statuses (view x (committed st)) i"
    using iso_okD(4)[OF assms(1,2)] assms(3) by simp_all
  then show "done_except x (committed st) (insert i (set is))" by blast
  assume "i \<in> owned x"
  with pc(2) have S: "Running \<in> statuses (view x (committed st)) i" by blast
  then have "\<not> (\<forall>s \<in> statuses (view x (committed st)) i. terminal s)" by force
  with S show "synced_on (statuses (view x (committed st)) i) r \<longleftrightarrow>
      r_status r = Running \<and> r_started_at r \<noteq> None"
    unfolding synced_on_def by blast
qed

lemma set_running_ok:
  assumes "iso_ok st" "txs st t = Some x" "tx_pc x = Saw_Running i is" "r_id r = i" "\<not> run_locked st t i"
  shows "iso_ok (put t (x\<lparr>tx_runs := (tx_runs x)(i \<mapsto>
        r\<lparr>r_status := Running, r_started_at := coalesce (r_started_at r) (tx_now x)\<rparr>),
      tx_pc := Fire is\<rparr>) st)"
  by (rule iso_ok_set_run[OF assms(1,2,5) txn_ok_set_run[OF iso_okD(3)[OF assms(1,2)] saw_running(1)[OF assms(1-3)]]])
    (use saw_running[OF assms(1-3)] assms(4) in \<open>auto simp: done_except_def\<close>)

lemma running_already_ok:
  assumes "iso_ok st" "txs st t = Some x" "tx_pc x = Saw_Running i is"
    and "\<forall>r \<in> set (pipeline_runs (view x (committed st))). r_id r = i \<longrightarrow> \<not> not_marked_running r"
  shows "iso_ok (put t (x\<lparr>tx_pc := Fire is\<rparr>) st)"
proof -
  have "done_except x (committed st) (set is)"
    by (rule done_except_drop[OF saw_running(1)[OF assms(1-3)]])
      (use saw_running(2)[OF assms(1-3)] assms(4) in \<open>auto simp: not_marked_running_def\<close>)
  then show ?thesis by (intro iso_ok_pc assms(1,2)) simp
qed

text \<open>A call that has seen no running job.\<close>

lemma select_all_ok:
  assumes "iso_ok st" "txs st t = Some x" "tx_pc x = Saw_None i is" "js = run_jobs (view x (committed st)) i"
  shows "iso_ok (put t (x\<lparr>tx_pc := (if \<forall>j \<in> set js. terminal (j_status j)
       then Saw_All i (\<exists>j \<in> set js. j_status j = Failed) is else Fire is)\<rparr>) st)"
proof -
  let ?S = "statuses (view x (committed st)) i"
  have pc: "done_except x (committed st) (insert i (set is))" "i \<in> owned x \<longrightarrow> Running \<notin> ?S"
    using iso_okD(4)[OF assms(1,2)] assms(3) by simp_all
  have "pc_ok x (committed st) (if \<forall>s \<in> ?S. terminal s then Saw_All i (Failed \<in> ?S) is else Fire is)"
  proof (cases "\<forall>s \<in> ?S. terminal s")
    case True
    then have "i \<notin> inserted x" using inserted_pending[OF iso_okD(3)[OF assms(1,2)], of i] by force
    then have "i \<in> owned x" using pc(1) by (simp add: done_except_def)
    with True pc show ?thesis by simp
  next
    case False
    have "done_except x (committed st) (set is)"
      by (rule done_except_drop[OF pc(1)]) (use pc(2) False in \<open>auto simp: synced_on_def\<close>)
    then show ?thesis unfolding if_not_P[OF False] pc_ok.simps .
  qed
  then show ?thesis unfolding assms(4) all_status ex_status by (rule iso_ok_pc[OF assms(1,2)])
qed

lemma set_done_ok:
  assumes "iso_ok st" "txs st t = Some x" "tx_pc x = Saw_All i hf is" "r_id r = i" "\<not> run_locked st t i"
  shows "iso_ok (put t (x\<lparr>tx_runs := (tx_runs x)(i \<mapsto>
        r\<lparr>r_status := (if hf then Failed else Success),
          r_completed_at := coalesce (r_completed_at r) (tx_now x)\<rparr>),
      tx_pc := Fire is\<rparr>) st)"
proof -
  have pc: "done_except x (committed st) (insert i (set is))" "i \<in> owned x"
    "Running \<notin> statuses (view x (committed st)) i" "hf = (Failed \<in> statuses (view x (committed st)) i)"
    using iso_okD(4)[OF assms(1,2)] assms(3) by simp_all
  show ?thesis
    by (rule iso_ok_set_run[OF assms(1,2,5) txn_ok_set_run[OF iso_okD(3)[OF assms(1,2)] pc(1)]])
      (use pc assms(4) in \<open>simp_all add: synced_on_def\<close>)
qed

lemma run_gone_ok:
  assumes "iso_ok st" "txs st t = Some x" "tx_pc x = Saw_All i hf is"
    and "i \<notin> r_id ` set (pipeline_runs (view x (committed st)))"
  shows "iso_ok (put t (x\<lparr>tx_pc := Fire is\<rparr>) st)"
proof -
  have pc: "done_except x (committed st) (insert i (set is))" using iso_okD(4)[OF assms(1,2)] assms(3) by simp
  have "done_except x (committed st) (set is)" by (rule done_except_drop[OF pc]) (use assms(4) in blast)
  then show ?thesis by (intro iso_ok_pc assms(1,2)) simp
qed

lemma commit_ok:
  assumes "iso_ok st" "solo st" "txs st t = Some x" "tx_pc x = Fire []"
    and fresh: "j_id ` set (tx_new x) \<inter> j_id ` set (jobs (committed st)) = {}"
  shows "iso_ok (st\<lparr>committed := view x (committed st), txs := (txs st)(t := None)\<rparr>)"
proof -
  note w = iso_okD(3)[OF assms(1,3)] and keys = iso_okD(2)[OF assms(1)]
  have de: "done_except x (committed st) {}" using iso_okD(4)[OF assms(1,3)] assms(4) by simp
  have "map j_id (overlay (tx_jobs x) j_id (jobs (committed st))) = map j_id (jobs (committed st))"
    using writes_okD(1)[OF w] by (auto simp: overlay_def keyed_by_def split: option.split)
  then have "distinct (map j_id (jobs (view x (committed st))))"
    using keys writes_okD(5)[OF w] fresh by auto
  moreover have "bears y (committed st) (view x (committed st))" if y: "txs st u = Some y" "u \<noteq> t" for u y
    using commit_bears[OF w iso_okD(3)[OF assms(1) y(1)] keys fresh] assms(2,3) y
    unfolding solo_def by metis
  ultimately show ?thesis
    by (intro iso_ok_commit[OF assms(1) commit_synced[OF w de keys iso_okD(1)[OF assms(1)]]])
      (auto split: if_splits)
qed

lemma roll_back_ok:
  assumes "iso_ok st"
  shows "iso_ok (st\<lparr>txs := (txs st)(t := None)\<rparr>)"
proof -
  have "bears x d d" for x d unfolding bears_def by blast
  then have "iso_ok (st\<lparr>committed := committed st, txs := (txs st)(t := None)\<rparr>)"
    using iso_okD(1,2)[OF assms] by (intro iso_ok_commit[OF assms]) (auto split: if_splits)
  then show ?thesis by simp
qed

lemma iso_step_ok:
  assumes "iso_step st st'" "iso_ok st" "solo st"
  shows "iso_ok st'"
  using assms
proof (induction rule: iso_step.induct)
  case (Begin_Claim st t w now j)
  from pick_row_Some(1)[OF Begin_Claim.hyps(2)] show ?case by (rule begin_claim_ok[OF Begin_Claim.prems(1)])
next
  case (Begin_Update st t now s)
  then show ?case
    by (intro iso_ok_put) (simp_all add: txn_ok_def writes_ok_def keyed_by_def owned_def)
next
  case (Begin_Insert st t j now)
  then show ?case
    by (intro iso_ok_put)
      (simp_all add: txn_ok_def writes_ok_def keyed_by_def done_except_def owned_def inserted_def)
next
  case (Skip_Row st t x s k ks "is")
  then show ?case using iso_okD(4)[OF Skip_Row.prems(1) Skip_Row.hyps(1)] by (intro iso_ok_pc) auto
next
  case (Written st t x s "is")
  then show ?case
    using iso_okD(4)[OF Written.prems(1) Written.hyps(1)] by (intro iso_ok_pc) (auto simp: done_except_def)
next
  case (Select_Running st t x i "is")
  then show ?case
    using iso_okD(4)[OF Select_Running.prems(1) Select_Running.hyps(1)]
    by (intro iso_ok_pc) (simp_all add: ex_status)
next
  case (Heartbeat k st now)
  then show ?case
    by (intro iso_ok_quiet[where rs = "[]"]) (auto simp: update_where_def heartbeat_set_def)
next
  case (Create_Run r st)
  then show ?case by (intro iso_ok_quiet[where rs = "[r]"]) auto
next
  case (Elsewhere d st)
  then show ?case by (intro iso_ok_quiet[where rs = "[]"]) auto
qed (blast intro: write_row_ok set_running_ok running_already_ok select_all_ok set_done_ok run_gone_ok
      commit_ok roll_back_ok)+

text \<open>
  Property C3.  The runs stay in step with their jobs under READ COMMITTED: however the
  statements of claims, marks, reclaims and inserts interleave, SELECT by SELECT inside the
  trigger functions, with waiting, rollbacks, heartbeats and other statements in between, every committed
  state has each run's status determined by its jobs, as long as no two transactions change
  jobs of one run at the same time; inserts into the run may run beside them.
\<close>

theorem isolated_runs_synced:
  assumes "iso_reach solo st"
  shows "all_runs_synced (committed st)"
proof -
  from assms have "iso_ok st \<and> solo st"
  proof (induction rule: iso_reach.induct)
    case (Start d)
    then show ?case by (simp add: iso_ok_def runs_apart_def solo_def)
  next
    case (Next st st')
    then show ?case using iso_step_ok by blast
  qed
  then show ?thesis by (simp add: iso_ok_def)
qed

text \<open>Two transactions at once: a claim of job 2 commits while a claim of job 4, of run 3, is in its trigger.\<close>

definition two_run_db :: db where
  "two_run_db = (let d = the_db (demo_world []); r = hd (pipeline_runs d) in
     d\<lparr>pipeline_runs := [r, r\<lparr>r_id := 3\<rparr>],
       jobs := [demo_job 2 0 Pending, (demo_job 4 0 Pending)\<lparr>j_pipeline_run_id := 3\<rparr>]\<rparr>)"

lemma two_run_db_ok: "all_runs_synced two_run_db" "distinct (map j_id (jobs two_run_db))"
  by (simp_all add: two_run_db_def demo_world_def demo_job_def empty_db_def Let_def
      all_runs_synced_def run_synced_def run_jobs_def)

definition claiming :: "job \<Rightarrow> tx_pc \<Rightarrow> txn" where
  "claiming j pc = \<lparr>tx_now = 7, tx_jobs = [j_id j \<mapsto> claim_set ([], 7) j], tx_new = [],
     tx_runs = Map.empty, tx_pc = pc\<rparr>"

theorem isolated_runs_synced_witness:
  "let j = demo_job 2 0 Pending; k = (demo_job 4 0 Pending)\<lparr>j_pipeline_run_id := 3\<rparr>;
     st = \<lparr>committed = two_run_db, txs = [0 \<mapsto> claiming j (Saw_Running 1 []), 1 \<mapsto> claiming k (Fire [3])]\<rparr>
   in iso_reach solo st \<and> all_runs_synced (committed st)"
proof -
  let ?j = "demo_job 2 0 Pending" and ?k = "(demo_job 4 0 Pending)\<lparr>j_pipeline_run_id := 3\<rparr>"
  let ?s = "\<lambda>m. \<lparr>committed = two_run_db, txs = m\<rparr>"
  let ?a = "[0 \<mapsto> claiming ?j (Fire [1])]"
  let ?b = "?a(1 \<mapsto> claiming ?k (Fire [3]))"
  let ?c = "[0 \<mapsto> claiming ?j (Saw_Running 1 []), 1 \<mapsto> claiming ?k (Fire [3])]"
  have "iso_step (?s Map.empty) (?s ?a)"
    using Begin_Claim[of "?s Map.empty" 0 "[]" 7 ?j]
    by (simp add: put_def claiming_def locked_jobs_def two_run_db_def demo_world_def demo_job_def
        empty_db_def Let_def pick_row_def claimable_def earlier_step_def
        claim_rank_of_def less_claim_rank_def)
  moreover have "iso_step (?s ?a) (?s ?b)"
    using Begin_Claim[of "?s ?a" 1 "[]" 7 ?k]
    by (simp add: put_def claiming_def locked_jobs_def two_run_db_def demo_world_def demo_job_def
        empty_db_def Let_def pick_row_def claimable_def earlier_step_def
        claim_rank_of_def less_claim_rank_def)
  moreover have "iso_step (?s ?b) (?s ?c)"
    using Select_Running[of "?s ?b" 0 "claiming ?j (Fire [1])" 1 "[]"]
    by (simp add: put_def claiming_def two_run_db_def demo_world_def demo_job_def view_def overlay_def
        empty_db_def Let_def run_jobs_def claim_set.simps fun_upd_twist)
  moreover have "solo (?s ?a)" "solo (?s ?b)" "solo (?s ?c)"
    by (auto simp: solo_def owned_def claiming_def demo_job_def claim_set.simps split: if_splits)
  moreover have "iso_reach solo (?s Map.empty)" using Start[OF two_run_db_ok] by simp
  ultimately have "iso_reach solo (?s ?c)" by (meson Next)
  then show ?thesis using isolated_runs_synced[of "?s ?c"] by (simp add: Let_def)
qed

end
