(* ===== verification/IsolationFacts.thy ===== *)
theory IsolationFacts
  imports Isolation
begin

text \<open>
  Two ends of the transactions of Isolation: a statement with nothing beside it does what
  the statement on the tables does, and two marks of jobs of one run, at the same time, leave
  the run running for ever.
\<close>

section \<open>A statement that runs alone\<close>

definition alone :: "db \<Rightarrow> txn \<Rightarrow> isodb" where
  "alone d x = \<lparr>committed = d, txs = [0 \<mapsto> x]\<rparr>"

abbreviation iso_steps :: "isodb \<Rightarrow> isodb \<Rightarrow> bool" where
  "iso_steps \<equiv> iso_step\<^sup>*\<^sup>*"

lemma alone_simps [simp]:
  "committed (alone d x) = d" "txs (alone d x) 0 = Some x" "put 0 y (alone d x) = alone d y"
  "\<not> run_locked (alone d x) 0 i" "locked_jobs (alone d x) = dom (tx_jobs x)"
  by (auto simp: alone_def put_def run_locked_def locked_jobs_def split: if_splits)

lemma overlay_upd:
  assumes "keyed_by m key" "distinct (map key rows)" "r \<in> set (overlay m key rows)" "key r = i"
  shows "overlay (m(i \<mapsto> f r)) key rows = update_where (\<lambda>r. key r = i) f (overlay m key rows)"
proof -
  let ?o = "\<lambda>r. case m (key r) of None \<Rightarrow> r | Some q \<Rightarrow> q"
  have key: "key (?o r) = key r" for r
    using assms(1) by (cases "m (key r)") (simp_all add: keyed_by_def)
  from assms(3) obtain r1 where r1: "r1 \<in> set rows" "r = ?o r1" by (auto simp: overlay_def)
  have "?o r0 = r" if "r0 \<in> set rows" "key r0 = i" for r0
  proof -
    have "key r0 = key r1" using that(2) assms(4) r1(2) key[of r1] by simp
    then have "r0 = r1" by (rule keyed_rows.key_unique[OF assms(2) that(1) r1(1)])
    then show ?thesis using r1(2) by (simp only:)
  qed
  then have "(case (m(i \<mapsto> f r)) (key r0) of None \<Rightarrow> r0 | Some q \<Rightarrow> q) =
      (if key (?o r0) = i then f (?o r0) else ?o r0)" if "r0 \<in> set rows" for r0
    using that key[of r0] by (cases "key r0 = i") auto
  then show ?thesis by (simp add: overlay_def update_where_def)
qed

lemma sync_as_update:
  "sync_pipeline_run_status now i d =
     d\<lparr>pipeline_runs := update_where (\<lambda>r. r_id r = i) (sync_row now (run_jobs d i)) (pipeline_runs d)\<rparr>"
  unfolding sync_runs[symmetric] by (simp add: sync_pipeline_run_status_def Let_def)

text \<open>One call of the trigger function.\<close>

definition call_done :: "db \<Rightarrow> txn \<Rightarrow> uuid \<Rightarrow> uuid list \<Rightarrow> bool" where
  "call_done d x i is \<longleftrightarrow> (\<exists>x'. iso_steps (alone d x) (alone d x') \<and> tx_pc x' = Fire is \<and>
    keyed_by (tx_runs x') r_id \<and> tx_now x' = tx_now x \<and> tx_new x' = tx_new x \<and>
    view x' d = sync_pipeline_run_status (tx_now x) i (view x d))"

lemma call_done_nothing:
  assumes "keyed_by (tx_runs x) r_id" "iso_steps (alone d x) (alone d (x\<lparr>tx_pc := Fire is\<rparr>))"
    and same: "\<And>r. r \<in> set (pipeline_runs (view x d)) \<Longrightarrow> r_id r = i \<Longrightarrow>
      sync_row (tx_now x) (run_jobs (view x d) i) r = r"
  shows "call_done d x i is"
proof -
  let ?v = "view x d"
  have "update_where (\<lambda>r. r_id r = i) (sync_row (tx_now x) (run_jobs ?v i)) (pipeline_runs ?v) =
      update_where (\<lambda>r. r_id r = i) id (pipeline_runs ?v)"
    by (rule update_where_cong_rows) (use same in auto)
  also have "\<dots> = pipeline_runs ?v" unfolding update_where_def by (rule map_idI) simp
  finally have "sync_pipeline_run_status (tx_now x) i ?v = ?v\<lparr>pipeline_runs := pipeline_runs ?v\<rparr>"
    by (simp only: sync_as_update)
  also have "\<dots> = ?v" by (cases "?v") simp
  finally have "sync_pipeline_run_status (tx_now x) i ?v = ?v" .
  with assms(1,2) show ?thesis
    unfolding call_done_def by (intro exI[of _ "x\<lparr>tx_pc := Fire is\<rparr>"]) simp
qed

lemma call_done_sets:
  assumes "keyed_by (tx_runs x) r_id" "distinct (map r_id (pipeline_runs d))"
    and r: "r \<in> set (pipeline_runs (view x d))" "r_id r = i" "r' = sync_row (tx_now x) (run_jobs (view x d) i) r"
    and st: "iso_steps (alone d x) (alone d (x\<lparr>tx_runs := (tx_runs x)(i \<mapsto> r'), tx_pc := Fire is\<rparr>))"
  shows "call_done d x i is"
proof -
  have "overlay ((tx_runs x)(i \<mapsto> r')) r_id (pipeline_runs d) =
      update_where (\<lambda>r. r_id r = i) (sync_row (tx_now x) (run_jobs (view x d) i)) (pipeline_runs (view x d))"
    using overlay_upd[OF assms(1,2)] r by simp
  with st assms(1) r(2,3) show ?thesis
    unfolding call_done_def
    by (intro exI[of _ "x\<lparr>tx_runs := (tx_runs x)(i \<mapsto> r'), tx_pc := Fire is\<rparr>"])
      (simp add: sync_as_update view_def keyed_by_def)
qed

text \<open>The two branches of the function: some job runs, and none does.\<close>

lemma call_running:
  assumes pc: "tx_pc y = Saw_Running i is" "y = x\<lparr>tx_pc := tx_pc y\<rparr>" and st: "iso_steps (alone d x) (alone d y)"
    and keyed: "keyed_by (tx_runs x) r_id" and keys: "distinct (map r_id (pipeline_runs d))"
    and run: "\<exists>j \<in> set (run_jobs (view x d) i). j_status j = Running"
  shows "call_done d x i is"
proof -
  let ?f = "sync_row (tx_now x) (run_jobs (view x d) i)"
  have y: "view y d = view x d" "tx_runs y = tx_runs x" "tx_now y = tx_now x"
    by (metis view_pc(1) pc(2), (subst pc(2), simp)+)
  have upd: "y\<lparr>tx_pc := p\<rparr> = x\<lparr>tx_pc := p\<rparr>"
    "y\<lparr>tx_runs := m, tx_pc := p\<rparr> = x\<lparr>tx_runs := m, tx_pc := p\<rparr>" for p m
    by (subst pc(2), simp)+
  show ?thesis
  proof (cases "\<exists>r \<in> set (pipeline_runs (view x d)). r_id r = i \<and> not_marked_running r")
    case True
    then obtain r where r: "r \<in> set (pipeline_runs (view x d))" "r_id r = i" "not_marked_running r" by blast
    then have f: "?f r = r\<lparr>r_status := Running, r_started_at := coalesce (r_started_at r) (tx_now x)\<rparr>"
      unfolding sync_row_def if_P[OF run] by (simp add: not_marked_running_def)
    have "iso_step (alone d y) (alone d (x\<lparr>tx_runs := (tx_runs x)(i \<mapsto> ?f r), tx_pc := Fire is\<rparr>))"
      unfolding f using Set_Running[of "alone d y" 0 y i "is" r] pc(1) r by (simp add: y upd)
    from call_done_sets[OF keyed keys r(1,2) refl rtranclp.rtrancl_into_rtrancl[OF st this]]
    show ?thesis .
  next
    case False
    then have "iso_step (alone d y) (alone d (x\<lparr>tx_pc := Fire is\<rparr>))"
      using Running_Already[of "alone d y" 0 y i "is"] pc(1) by (simp add: y upd)
    moreover have "?f r = r" if "r \<in> set (pipeline_runs (view x d))" "r_id r = i" for r
      using False that unfolding sync_row_def if_P[OF run] not_marked_running_def by auto
    ultimately show ?thesis
      by (intro call_done_nothing[OF keyed rtranclp.rtrancl_into_rtrancl[OF st]]) auto
  qed
qed

lemma call_none:
  assumes pc: "tx_pc y = Saw_None i is" "y = x\<lparr>tx_pc := tx_pc y\<rparr>" and st: "iso_steps (alone d x) (alone d y)"
    and keyed: "keyed_by (tx_runs x) r_id" and keys: "distinct (map r_id (pipeline_runs d))"
    and run: "\<not> (\<exists>j \<in> set (run_jobs (view x d) i). j_status j = Running)"
  shows "call_done d x i is"
proof -
  let ?js = "run_jobs (view x d) i"
  let ?f = "sync_row (tx_now x) ?js" and ?hf = "\<exists>j \<in> set ?js. j_status j = Failed"
  have y: "view y d = view x d" "tx_runs y = tx_runs x" "tx_now y = tx_now x"
    by (metis view_pc(1) pc(2), (subst pc(2), simp)+)
  have upd: "y\<lparr>tx_pc := p\<rparr> = x\<lparr>tx_pc := p\<rparr>" for p by (subst pc(2), simp)
  have s2: "iso_step (alone d y) (alone d (x\<lparr>tx_pc :=
      if \<forall>j \<in> set ?js. terminal (j_status j) then Saw_All i ?hf is else Fire is\<rparr>))"
    using Select_All[of "alone d y" 0 y i "is" ?js] pc(1) by (simp add: y upd)
  show ?thesis
  proof (cases "\<forall>j \<in> set ?js. terminal (j_status j)")
    case all: True
    let ?z = "x\<lparr>tx_pc := Saw_All i ?hf is\<rparr>"
    have st2: "iso_steps (alone d x) (alone d ?z)"
      using rtranclp.rtrancl_into_rtrancl[OF st s2] unfolding if_P[OF all] .
    show ?thesis
    proof (cases "i \<in> r_id ` set (pipeline_runs (view x d))")
      case True
      then obtain r where r: "r \<in> set (pipeline_runs (view x d))" "r_id r = i" by blast
      have f: "?f r = r\<lparr>r_status := (if ?hf then Failed else Success),
          r_completed_at := coalesce (r_completed_at r) (tx_now x)\<rparr>"
        unfolding sync_row_def if_not_P[OF run] if_P[OF all] ..
      have "iso_step (alone d ?z) (alone d (x\<lparr>tx_runs := (tx_runs x)(i \<mapsto> ?f r), tx_pc := Fire is\<rparr>))"
        unfolding f using Set_Done[of "alone d ?z" 0 ?z i ?hf "is" r] r by simp
      from call_done_sets[OF keyed keys r refl rtranclp.rtrancl_into_rtrancl[OF st2 this]]
      show ?thesis .
    next
      case False
      then have "iso_step (alone d ?z) (alone d (x\<lparr>tx_pc := Fire is\<rparr>))"
        using Run_Gone[of "alone d ?z" 0 ?z i ?hf "is"] by simp
      then show ?thesis using False
        by (intro call_done_nothing[OF keyed rtranclp.rtrancl_into_rtrancl[OF st2]]) auto
    qed
  next
    case False
    have "?f r = r" for r unfolding sync_row_def if_not_P[OF run] if_not_P[OF False] ..
    moreover have "iso_steps (alone d x) (alone d (x\<lparr>tx_pc := Fire is\<rparr>))"
      using rtranclp.rtrancl_into_rtrancl[OF st s2] unfolding if_not_P[OF False] .
    ultimately show ?thesis by (intro call_done_nothing[OF keyed]) auto
  qed
qed

lemma one_call:
  assumes "tx_pc x = Fire (i # is)" "keyed_by (tx_runs x) r_id" "distinct (map r_id (pipeline_runs d))"
  shows "call_done d x i is"
proof -
  have s: "iso_step (alone d x) (alone d (x\<lparr>tx_pc := if \<exists>j \<in> set (run_jobs (view x d) i). j_status j = Running
       then Saw_Running i is else Saw_None i is\<rparr>))"
    using Select_Running[of "alone d x" 0 x i "is"] assms(1) by simp
  show ?thesis
  proof (cases "\<exists>j \<in> set (run_jobs (view x d) i). j_status j = Running")
    case True
    show ?thesis
      by (rule call_running[OF _ _ r_into_rtranclp[of iso_step, OF s[unfolded if_P[OF True]]] assms(2,3) True])
        simp_all
  next
    case False
    show ?thesis
      by (rule call_none[OF _ _ r_into_rtranclp[of iso_step, OF s[unfolded if_not_P[OF False]]] assms(2,3) False])
        simp_all
  qed
qed

lemma all_calls:
  assumes "tx_pc x = Fire is" "keyed_by (tx_runs x) r_id" "distinct (map r_id (pipeline_runs d))"
  shows "\<exists>x'. iso_steps (alone d x) (alone d x') \<and> tx_pc x' = Fire [] \<and> tx_new x' = tx_new x \<and>
    view x' d = fold (sync_pipeline_run_status (tx_now x)) is (view x d)"
  using assms(1,2)
proof (induction "is" arbitrary: x)
  case (Cons i "is")
  from one_call[OF Cons.prems assms(3), unfolded call_done_def] obtain y where
    y: "iso_steps (alone d x) (alone d y)" "tx_pc y = Fire is" "keyed_by (tx_runs y) r_id"
      "tx_now y = tx_now x" "tx_new y = tx_new x"
      "view y d = sync_pipeline_run_status (tx_now x) i (view x d)" by blast
  from Cons.IH[OF y(2,3)] obtain x' where x': "iso_steps (alone d y) (alone d x')" "tx_pc x' = Fire []"
    "tx_new x' = tx_new y" "view x' d = fold (sync_pipeline_run_status (tx_now y)) is (view y d)" by blast
  from rtranclp_trans[OF y(1) x'(1)] x'(2-4) y show ?case by (intro exI[of _ x']) simp
qed auto

lemma calls_commit:
  assumes "tx_pc x = Fire is" "tx_runs x = Map.empty" "distinct (map r_id (pipeline_runs d))"
    and "j_id ` set (tx_new x) \<inter> j_id ` set (jobs d) = {}" "run_trigger d"
  shows "iso_steps (alone d x) \<lparr>committed = fire_run_trigger (tx_now x) is (view x d), txs = Map.empty\<rparr>"
proof -
  have "keyed_by (tx_runs x) r_id" by (simp add: assms(2) keyed_by_def)
  from all_calls[OF assms(1) this assms(3)] obtain x' where
    x': "iso_steps (alone d x) (alone d x')" "tx_pc x' = Fire []" "tx_new x' = tx_new x"
      "view x' d = fold (sync_pipeline_run_status (tx_now x)) is (view x d)" by blast
  have "iso_step (alone d x') \<lparr>committed = view x' d, txs = Map.empty\<rparr>"
    using Commit[of "alone d x'" 0 x'] x'(2,3) assms(4) by (simp add: alone_def)
  moreover have "run_trigger (view x d)" using assms(5) by (simp add: view_def)
  ultimately show ?thesis
    using rtranclp.rtrancl_into_rtrancl[OF x'(1)] x'(4) by (simp add: fire_run_trigger_def)
qed

text \<open>The rows of an UPDATE, one by one.\<close>

lemma write_rows:
  assumes "tx_pc x = Writing s (map j_id js) is" "set js \<subseteq> set (jobs d)" "distinct (map j_id js)"
    and "\<forall>j \<in> set js. update_hits s (tx_now x) j" "dom (tx_jobs x) \<inter> j_id ` set js = {}"
  shows "iso_steps (alone d x) (alone d (x\<lparr>
    tx_jobs := tx_jobs x ++ map_of (map (\<lambda>j. (j_id j, update_sets s (tx_now x) j)) js),
    tx_pc := Writing s [] (is @ map j_pipeline_run_id js)\<rparr>))"
  using assms
proof (induction js arbitrary: x "is")
  case Nil
  then have "x\<lparr>tx_pc := Writing s [] is\<rparr> = x" by (metis list.map(1) txn.surjective txn.update_convs(5))
  then show ?case by simp
next
  case (Cons j js)
  let ?y = "x\<lparr>tx_jobs := (tx_jobs x)(j_id j \<mapsto> update_sets s (tx_now x) j),
      tx_pc := Writing s (map j_id js) (is @ [j_pipeline_run_id j])\<rparr>"
  have "iso_step (alone d x) (alone d ?y)"
    using Write_Row[of "alone d x" 0 x s j "map j_id js" "is"] Cons.prems by auto
  moreover have "iso_steps (alone d ?y) (alone d (?y\<lparr>
    tx_jobs := tx_jobs ?y ++ map_of (map (\<lambda>j. (j_id j, update_sets s (tx_now ?y) j)) js),
    tx_pc := Writing s [] ((is @ [j_pipeline_run_id j]) @ map j_pipeline_run_id js)\<rparr>))"
  proof (rule Cons.IH)
    have "j_id j \<notin> j_id ` set js" "dom (tx_jobs x) \<inter> j_id ` set js = {}" using Cons.prems(3,5) by auto
    then show "dom (tx_jobs ?y) \<inter> j_id ` set js = {}" by simp
  qed (use Cons.prems in auto)
  ultimately have "iso_steps (alone d x) (alone d (?y\<lparr>
    tx_jobs := tx_jobs ?y ++ map_of (map (\<lambda>j. (j_id j, update_sets s (tx_now ?y) j)) js),
    tx_pc := Writing s [] ((is @ [j_pipeline_run_id j]) @ map j_pipeline_run_id js)\<rparr>))"
    by (rule converse_rtranclp_into_rtranclp[of iso_step])
  moreover have "tx_jobs x ++ map_of (map (\<lambda>j. (j_id j, update_sets s (tx_now x) j)) (j # js)) =
      tx_jobs ?y ++ map_of (map (\<lambda>j. (j_id j, update_sets s (tx_now x) j)) js)"
  proof -
    have "j_id j \<notin> dom (map_of (map (\<lambda>j. (j_id j, update_sets s (tx_now x) j)) js))"
      using Cons.prems(3) by (simp add: dom_map_of_conv_image_fst image_image)
    then show ?thesis by (simp add: map_add_upd_left)
  qed
  ultimately show ?case by (simp del: list.map map_of.simps add: list.map(2)[of j_pipeline_run_id])
qed

lemma overlay_written:
  assumes "distinct (map key rows)"
  shows "overlay (map_of (map (\<lambda>r. (key r, f r)) (filter P rows))) key rows = update_where P f rows"
  unfolding overlay_def update_where_def
proof (rule map_cong[OF refl])
  fix r assume r: "r \<in> set rows"
  have "map_of (map (\<lambda>r. (key r, f r)) (filter P rows)) (key r) = (if P r then Some (f r) else None)"
  proof (cases "P r")
    case True
    have "distinct (map fst (map (\<lambda>r. (key r, f r)) (filter P rows)))"
      using assms by (simp add: comp_def distinct_map_filter)
    moreover have "(key r, f r) \<in> set (map (\<lambda>r. (key r, f r)) (filter P rows))" using r True by auto
    ultimately have "map_of (map (\<lambda>r. (key r, f r)) (filter P rows)) (key r) = Some (f r)"
      by (rule map_of_is_SomeI)
    with True show ?thesis by simp
  next
    case False
    have "key r \<notin> key ` set (filter P rows)"
      using keyed_rows.key_unique[OF assms _ r] False by auto
    then show ?thesis using False by (simp add: map_of_eq_None_iff image_image)
  qed
  then show "(case map_of (map (\<lambda>r. (key r, f r)) (filter P rows)) (key r) of None \<Rightarrow> r | Some r' \<Rightarrow> r') =
      (if P r then f r else r)" by simp
qed

text \<open>
  Property C14.  What the atomic statements of the job queue say is what the transaction
  computes when nothing runs beside it: from begin to commit, a mark or a reclaim comes to
  the database of \<open>update_jobs\<close>, with the trigger fired for every changed row.
\<close>

theorem alone_is_atomic:
  assumes "distinct (map j_id (jobs d))" "distinct (map r_id (pipeline_runs d))" "run_trigger d"
  shows "iso_steps \<lparr>committed = d, txs = Map.empty\<rparr>
    \<lparr>committed = update_jobs now (update_hits s now) (update_sets s now) d, txs = Map.empty\<rparr>"
proof -
  let ?js = "filter (update_hits s now) (jobs d)" and ?st = "\<lparr>committed = d, txs = Map.empty\<rparr>"
  define x where "x = \<lparr>tx_now = now, tx_jobs = Map.empty, tx_new = [], tx_runs = Map.empty,
      tx_pc = Writing s (map j_id ?js) []\<rparr>"
  define y where "y = x\<lparr>tx_jobs := map_of (map (\<lambda>j. (j_id j, update_sets s now j)) ?js),
      tx_pc := Writing s [] (map j_pipeline_run_id ?js)\<rparr>"
  define z where "z = y\<lparr>tx_pc := Fire (map j_pipeline_run_id ?js)\<rparr>"
  have "iso_step ?st (alone d x)"
    using Begin_Update[of ?st 0 now s] by (simp add: alone_def put_def x_def)
  moreover have "iso_steps (alone d x) (alone d y)"
    using write_rows[of x s ?js "[]" d] assms(1) by (simp add: distinct_map_filter x_def y_def)
  moreover have "iso_step (alone d y) (alone d z)"
    using Written[of "alone d y" 0 y s "map j_pipeline_run_id ?js"] by (simp add: y_def z_def)
  moreover have "view z d = d\<lparr>jobs := update_where (update_hits s now) (update_sets s now) (jobs d)\<rparr>"
    using overlay_written[OF assms(1), of "update_sets s now" "update_hits s now"]
    by (cases d) (simp add: view_def overlay_def[of Map.empty] x_def y_def z_def)
  then have "iso_steps (alone d z)
      \<lparr>committed = update_jobs now (update_hits s now) (update_sets s now) d, txs = Map.empty\<rparr>"
    using calls_commit[of z "map j_pipeline_run_id ?js" d] assms(2,3)
    by (simp add: x_def y_def z_def update_jobs_def)
  ultimately show ?thesis by (meson converse_rtranclp_into_rtranclp rtranclp_trans)
qed

section \<open>Two jobs of a run at once\<close>

text \<open>A mark of job \<open>j\<close> that has changed its row, with the trigger call at \<open>pc\<close>.\<close>

definition marking :: "timestamp \<Rightarrow> int \<Rightarrow> job \<Rightarrow> tx_pc \<Rightarrow> txn" where
  "marking now e j pc = \<lparr>tx_now = now, tx_jobs = [j_id j \<mapsto> completed_set e now j], tx_new = [],
     tx_runs = Map.empty, tx_pc = pc\<rparr>"

lemma marking_simps [simp]:
  "tx_jobs (marking now e j pc) = [j_id j \<mapsto> completed_set e now j]" "tx_pc (marking now e j pc) = pc"
  "tx_new (marking now e j pc) = []" "tx_runs (marking now e j pc) = Map.empty"
  "marking now e j pc\<lparr>tx_pc := p\<rparr> = marking now e j p"
  by (simp_all add: marking_def)

text \<open>It begins, and changes its row, whatever else is under way but for that row.\<close>

lemma mark_begins:
  assumes "distinct (map j_id (jobs (committed st)))" "j \<in> set (jobs (committed st))"
    and "txs st t = None" "j_id j \<notin> locked_jobs st"
  shows "iso_steps st (put t (marking now e j (Fire [j_pipeline_run_id j])) st)"
proof -
  let ?s = "Complete (Some (j_id j)) e"
  define x where "x = \<lparr>tx_now = now, tx_jobs = Map.empty, tx_new = [], tx_runs = Map.empty,
      tx_pc = Writing ?s [j_id j] []\<rparr>"
  have "update_hits ?s now = (\<lambda>k. j_id k = j_id j)" by (auto simp: is_row_def)
  then have "filter (update_hits ?s now) (jobs (committed st)) = [j]"
    using job_rows.filter_key[OF assms(1,2)] by simp
  then have 1: "iso_step st (put t x st)"
    using Begin_Update[OF assms(3), of now ?s] by (simp add: x_def)
  have free: "j_id j \<notin> locked_jobs (put t x st)"
    using assms(4) by (auto simp: locked_jobs_def put_def x_def split: if_splits)
  have 2: "iso_step (put t x st) (put t (marking now e j (Writing ?s [] [j_pipeline_run_id j])) st)"
    using Write_Row[of "put t x st" t x ?s j "[]" "[]"] assms(2) free
    by (simp add: put_def x_def is_row_def marking_def)
  have 3: "iso_step (put t (marking now e j (Writing ?s [] [j_pipeline_run_id j])) st)
      (put t (marking now e j (Fire [j_pipeline_run_id j])) st)"
    using Written[of "put t (marking now e j (Writing ?s [] [j_pipeline_run_id j])) st" t
        "marking now e j (Writing ?s [] [j_pipeline_run_id j])" ?s "[j_pipeline_run_id j]"]
    by (simp add: put_def)
  from 1 2 3 show ?thesis by (meson rtranclp.rtrancl_into_rtrancl r_into_rtranclp)
qed

text \<open>Its trigger call finds another job of the run still running, and changes nothing.\<close>

lemma mark_call_blind:
  assumes "txs st t = Some (marking now e j (Fire [i]))"
    and k: "k \<in> set (jobs (committed st))" "j_id k \<noteq> j_id j" "j_pipeline_run_id k = i" "j_status k = Running"
    and r: "\<forall>r \<in> set (pipeline_runs (committed st)). r_id r = i \<longrightarrow> \<not> not_marked_running r"
  shows "iso_steps st (put t (marking now e j (Fire [])) st)"
proof -
  let ?m = "marking now e j (Fire [i])"
  have "k \<in> set (overlay (tx_jobs ?m) j_id (jobs (committed st)))"
    using k(1,2) by (force simp: overlay_def)
  then have "\<exists>k \<in> set (run_jobs (view ?m (committed st)) i). j_status k = Running"
    using k(3,4) by (auto simp: run_jobs_def)
  then have 1: "iso_step st (put t (marking now e j (Saw_Running i [])) st)"
    using Select_Running[OF assms(1), of i "[]"] by simp
  have "iso_step (put t (marking now e j (Saw_Running i [])) st) (put t (marking now e j (Fire [])) st)"
    using Running_Already[of "put t (marking now e j (Saw_Running i [])) st" t _ i "[]"] r
    by (simp add: put_def overlay_def)
  with 1 show ?thesis by (meson rtranclp.rtrancl_into_rtrancl r_into_rtranclp)
qed

lemma any_reach: "iso_steps st st' \<Longrightarrow> iso_reach (\<lambda>_. True) st \<Longrightarrow> iso_reach (\<lambda>_. True) st'"
  by (induction rule: rtranclp_induct) (auto intro: Next)

text \<open>
  Two marks at once: both write their row, neither trigger call sees the other's, both commit.
\<close>

lemma both_marks_commit:
  assumes keys: "distinct (map j_id (jobs d))"
    and j: "j \<in> set (jobs d)" "j_pipeline_run_id j = i" "j_status j = Running"
    and k: "k \<in> set (jobs d)" "j_pipeline_run_id k = i" "j_status k = Running" "j_id j \<noteq> j_id k"
    and r: "\<forall>r \<in> set (pipeline_runs d). r_id r = i \<longrightarrow> \<not> not_marked_running r"
  shows "iso_steps \<lparr>committed = d, txs = Map.empty\<rparr>
    \<lparr>committed = view (marking 0 0 k (Fire [])) (view (marking 0 0 j (Fire [])) d), txs = Map.empty\<rparr>"
proof -
  let ?m = "marking 0 0 j" and ?n = "marking 0 0 k"
  let ?start = "\<lparr>committed = d, txs = Map.empty\<rparr>"
  let ?s = "\<lambda>p q. \<lparr>committed = d, txs = [0 \<mapsto> ?m p, 1 \<mapsto> ?n q]\<rparr>"
  have 1: "iso_steps ?start (put 0 (?m (Fire [i])) ?start)"
    using mark_begins[of ?start j 0 0 0] keys j by (simp add: locked_jobs_def)
  have 2: "iso_steps (put 0 (?m (Fire [i])) ?start) (?s (Fire [i]) (Fire [i]))"
    using mark_begins[of "put 0 (?m (Fire [i])) ?start" k 1 0 0] keys k
    by (auto simp: locked_jobs_def put_def split: if_splits)
  have 3: "iso_steps (?s (Fire [i]) (Fire [i])) (?s (Fire []) (Fire [i]))"
    using mark_call_blind[of "?s (Fire [i]) (Fire [i])" 0 0 0 j i k] k r by (simp add: put_def fun_upd_twist)
  have 4: "iso_steps (?s (Fire []) (Fire [i])) (?s (Fire []) (Fire []))"
    using mark_call_blind[of "?s (Fire []) (Fire [i])" 1 0 0 k i j] j k(4) r by (simp add: put_def)
  let ?first = "view (?m (Fire [])) d"
  let ?both = "view (?n (Fire [])) ?first"
  have 5: "iso_step (?s (Fire []) (Fire [])) \<lparr>committed = ?first, txs = [1 \<mapsto> ?n (Fire [])]\<rparr>"
    using Commit[of "?s (Fire []) (Fire [])" 0 "?m (Fire [])"] by (simp add: fun_upd_twist)
  have 6: "iso_step \<lparr>committed = ?first, txs = [1 \<mapsto> ?n (Fire [])]\<rparr> \<lparr>committed = ?both, txs = Map.empty\<rparr>"
    using Commit[of "\<lparr>committed = ?first, txs = [1 \<mapsto> ?n (Fire [])]\<rparr>" 1 "?n (Fire [])"] by simp
  show ?thesis
    by (rule rtranclp.rtrancl_into_rtrancl[OF rtranclp.rtrancl_into_rtrancl[OF
          rtranclp_trans[OF rtranclp_trans[OF rtranclp_trans[OF 1 2] 3] 4] 5] 6])
qed

text \<open>After both, every job of the run has ended.\<close>

lemma both_ended:
  assumes rest: "\<forall>l \<in> set (run_jobs d i). l \<noteq> j \<longrightarrow> l \<noteq> k \<longrightarrow> terminal (j_status l)"
    and ids: "j_id j \<noteq> j_id k"
    and l: "l \<in> set (run_jobs (view (marking 0 0 k (Fire [])) (view (marking 0 0 j (Fire [])) d)) i)"
  shows "terminal (j_status l)"
proof -
  let ?both = "view (marking 0 0 k (Fire [])) (view (marking 0 0 j (Fire [])) d)"
  let ?o = "\<lambda>j m. case [j_id j \<mapsto> completed_set 0 0 j] (j_id m) of None \<Rightarrow> m | Some m' \<Rightarrow> m'"
  have "jobs ?both = map (?o k) (map (?o j) (jobs d))" by (simp only: jobs_of_view overlay_def marking_simps append_Nil2)
  then have "l \<in> ?o k ` ?o j ` set (jobs d)" using l by (simp only: in_run_jobs set_map)
  then obtain m where m: "l = ?o k (?o j m)" "m \<in> set (jobs d)" by (elim imageE) (simp only:)
  have done_set: "terminal (j_status (completed_set 0 0 x))" for x by (simp add: completed_set_def)
  show ?thesis
  proof (cases "j_id m = j_id j \<or> j_id m = j_id k")
    case True
    then have "l = completed_set 0 0 j \<or> l = completed_set 0 0 k"
      using m(1) ids by (elim disjE) (simp_all add: completed_set_def)
    then show ?thesis using done_set by (elim disjE) simp_all
  next
    case False
    then have "l = m" using m(1) by simp
    then have "m \<in> set (run_jobs d i)" using l m(2) by (simp add: in_run_jobs)
    moreover have "m \<noteq> j" "m \<noteq> k" using False by auto
    ultimately show ?thesis using rest \<open>l = m\<close> by simp
  qed
qed


text \<open>A database that late marks lead to: two jobs of run 1 are running.\<close>

definition late_db :: db where
  "late_db = the_db (snd (seq (markCompleted (Some 2) 0) (\<lambda>_.
      seq (claimNextJob plain_rows (lit ''w3'')) (\<lambda>_.
      seq (markFailed (Some 2) 1) (\<lambda>_. claimNextJob plain_rows (lit ''w4''))))
      (demo_world [demo_job 2 0 Running, demo_job 3 1 Pending])))"

lemma late_db_rows:
  "(map (\<lambda>j. (j_id j, j_pipeline_run_id j, j_status j)) (jobs late_db),
    map (\<lambda>r. (r_id r, r_status r, r_started_at r)) (pipeline_runs late_db)) =
   ([(2, 1, Running), (3, 1, Running)], [(1, Running, Some 7)])"
  by (simp add: late_db_def seq_def markCompleted_def markFailed_def claimNextJob_def query_quiet demo_world_def
      sql_mark_completed_def sql_mark_failed_def sql_claim_next_job_def claim_row_def pick_row_def
      demo_job_def empty_db_def is_row_def completed_set_def failed_set_def claimable_def
      earlier_step_def update_jobs_def frame_simps claim_set.simps ret_def fire_run_trigger_def
      sync_runs sync_row_def run_jobs_def)

theorem alone_is_atomic_witness:
  "iso_steps \<lparr>committed = two_run_db, txs = Map.empty\<rparr>
    \<lparr>committed = update_jobs 9 (\<lambda>j. is_row (Some 2) (j_id j)) (completed_set 0 9) two_run_db, txs = Map.empty\<rparr>"
proof -
  have "distinct (map r_id (pipeline_runs two_run_db))" "run_trigger two_run_db"
    by (simp_all add: two_run_db_def demo_world_def Let_def)
  moreover have "update_hits (Complete (Some 2) 0) 9 = (\<lambda>j. is_row (Some 2) (j_id j))"
    "update_sets (Complete (Some 2) 0) 9 = completed_set 0 9"
    by (simp_all add: fun_eq_iff)
  ultimately show ?thesis
    using alone_is_atomic[OF two_run_db_ok(2), of 9 "Complete (Some 2) 0"] by simp
qed


end
