(* ===== verification/WebhookFacts.thy ===== *)
theory WebhookFacts
  imports Worker JobOrder
begin

text \<open>
  What the outbox promises: one round of it for every answer of the receiver, the schedule
  of the retries, when draining it ends, and two things it does not do: take back a webhook
  whose worker died, and work on results of the shape \<open>rows_and_count\<close>.
\<close>

section \<open>One round\<close>

lemma claimNextWebhook_quiet:
  assumes "script w = []" "distinct (map w_id (webhooks_outbox (the_db w)))"
  obtains (none) "claimNextWebhook plain_rows w = (Done None, w)"
      "\<And>x. x \<in> set (webhooks_outbox (the_db w)) \<Longrightarrow>
         hook_due (clock w) (webhooks_outbox (the_db w)) x \<Longrightarrow> w_id x \<in> row_locks (the_db w)"
  | (one) h rows where "h \<in> set (webhooks_outbox (the_db w))"
      "hook_due (clock w) (webhooks_outbox (the_db w)) h" "w_id h \<notin> row_locks (the_db w)"
      "\<And>x. x \<in> set (webhooks_outbox (the_db w)) \<Longrightarrow>
         hook_due (clock w) (webhooks_outbox (the_db w)) x \<Longrightarrow> w_id x \<notin> row_locks (the_db w) \<Longrightarrow>
         w_next_retry_at h \<le> w_next_retry_at x"
      "claimNextWebhook plain_rows w =
         (Done (Some (mapRowToOutboxItem (Row (processing_set (clock w) h)))),
          w\<lparr>the_db := (the_db w)\<lparr>webhooks_outbox := rows\<rparr>\<rparr>)"
      "rows = update_where (\<lambda>x. w_id x = w_id h) (processing_set (clock w)) (webhooks_outbox (the_db w))"
proof -
  let ?hs = "webhooks_outbox (the_db w)"
  obtain got rows where c: "claim_row w_id hook_due w_next_retry_at processing_set
      (row_locks (the_db w)) (clock w) ?hs = (got, rows)" by fastforce
  have q: "claimNextWebhook plain_rows w =
      (Done (map_option mapRowToOutboxItem (first_cell (map Row got))),
       w\<lparr>the_db := (the_db w)\<lparr>webhooks_outbox := rows\<rparr>\<rparr>)"
    using assms(1) by (simp add: claimNextWebhook_def seq_def query_quiet sql_claim_next_webhook_def
        c ret_def plain_rows_def)
  from wq.claim_outcome[OF assms(2) c] show thesis
  proof (elim disjE exE conjE)
    assume "got = []" "rows = ?hs"
      and all: "\<forall>x \<in> set ?hs. hook_due (clock w) ?hs x \<longrightarrow> w_id x \<in> row_locks (the_db w)"
    with q show thesis by (intro that(1)) auto
  next
    fix h assume h: "h \<in> set ?hs" "hook_due (clock w) ?hs h" "w_id h \<notin> row_locks (the_db w)"
      and le: "\<forall>x \<in> set ?hs. hook_due (clock w) ?hs x \<longrightarrow> w_id x \<notin> row_locks (the_db w) \<longrightarrow>
        w_next_retry_at h \<le> w_next_retry_at x"
      and got: "got = [processing_set (clock w) h]"
      and rows: "rows = update_where (\<lambda>x. w_id x = w_id h) (processing_set (clock w)) ?hs"
    show thesis
      by (rule that(2)[OF h _ _ rows]) (use le q got in auto)
  qed
qed

text \<open>The row after a delivery attempt.\<close>

definition attempted :: "timestamp \<Rightarrow> fetch_reply \<Rightarrow> webhook_outbox \<Rightarrow> webhook_outbox" where
  "attempted now reply h = (case reply of
      Response s \<Rightarrow> if res_ok s then processed_set now (processing_set now h)
        else hook_failed_set now (processing_set now h)
    | Rejects \<Rightarrow> hook_failed_set now (processing_set now h))"

lemma attempted_fun:
  "attempted now (Response s) = (if res_ok s then (\<lambda>h. processed_set now (processing_set now h))
     else (\<lambda>h. hook_failed_set now (processing_set now h)))"
  "attempted now Rejects = (\<lambda>h. hook_failed_set now (processing_set now h))"
  by (rule ext; simp add: attempted_def)+

definition reply_to :: "net \<Rightarrow> timestamp \<Rightarrow> webhook_outbox \<Rightarrow> fetch_reply" where
  "reply_to http now h =
     http now (Some (w_webhook_url h)) (request_body (mapRowToOutboxItem (Row h)))"

lemma update_hook_twice:
  assumes "\<And>x. w_id (f x) = w_id x"
  shows "update_hook (Some i) g (d\<lparr>webhooks_outbox := update_where (\<lambda>x. w_id x = i) f hs\<rparr>) =
    d\<lparr>webhooks_outbox := update_where (\<lambda>x. w_id x = i) (\<lambda>x. g (f x)) hs\<rparr>"
proof -
  have "update_where (\<lambda>x. Some i = Some (w_id x)) g (update_where (\<lambda>x. w_id x = i) f hs) =
      update_where (\<lambda>x. w_id x = i) (\<lambda>x. g (f x)) hs"
    by (induction hs) (auto simp: assms)
  then show ?thesis by (simp add: update_hook_def)
qed

lemma item_after_claim:
  "oi_id (mapRowToOutboxItem (Row (processing_set now h))) = Some (w_id h)"
  "oi_webhook_url (mapRowToOutboxItem (Row (processing_set now h))) = Some (w_webhook_url h)"
  "request_body (mapRowToOutboxItem (Row (processing_set now h))) =
     request_body (mapRowToOutboxItem (Row h))"
  by (simp_all add: processing_set_def request_body_def)

lemma processOneWebhook_quiet:
  assumes "script w = []" "distinct (map w_id (webhooks_outbox (the_db w)))"
  obtains (none) "processOneWebhook plain_rows http w = (Done False, w)"
      "\<And>x. x \<in> set (webhooks_outbox (the_db w)) \<Longrightarrow>
         hook_due (clock w) (webhooks_outbox (the_db w)) x \<Longrightarrow> w_id x \<in> row_locks (the_db w)"
  | (one) h where "h \<in> set (webhooks_outbox (the_db w))"
      "hook_due (clock w) (webhooks_outbox (the_db w)) h" "w_id h \<notin> row_locks (the_db w)"
      "\<And>x. x \<in> set (webhooks_outbox (the_db w)) \<Longrightarrow>
         hook_due (clock w) (webhooks_outbox (the_db w)) x \<Longrightarrow> w_id x \<notin> row_locks (the_db w) \<Longrightarrow>
         w_next_retry_at h \<le> w_next_retry_at x"
      "processOneWebhook plain_rows http w = (Done True,
         w\<lparr>the_db := (the_db w)\<lparr>webhooks_outbox :=
            update_where (\<lambda>x. w_id x = w_id h) (attempted (clock w) (reply_to http (clock w) h))
              (webhooks_outbox (the_db w))\<rparr>\<rparr>)"
  using assms
proof (cases rule: claimNextWebhook_quiet)
  case none
  then show thesis by (intro that(1)) (simp_all add: processOneWebhook_def seq_def ret_def)
next
  case (one h rows)
  have q: "script (w\<lparr>the_db := d\<rparr>) = []" for d using assms(1) by simp
  have "processOneWebhook plain_rows http w = (Done True,
         w\<lparr>the_db := (the_db w)\<lparr>webhooks_outbox :=
            update_where (\<lambda>x. w_id x = w_id h) (attempted (clock w) (reply_to http (clock w) h))
              (webhooks_outbox (the_db w))\<rparr>\<rparr>)"
    by (simp add: processOneWebhook_def seq_def one(5,6) try_catch_def fetch_def q item_after_claim
        throw_def ret_def markWebhookProcessed_def markWebhookFailed_def query_quiet
        sql_mark_webhook_processed_def sql_mark_webhook_failed_def update_hook_twice reply_to_def
        attempted_fun del: mapRowToOutboxItem.simps split: fetch_reply.split)
  with one(1-4) show thesis by (rule that(2))
qed


text \<open>What the receiver of a webhook answers, and the row it is marked with.\<close>

definition delivered :: "net \<Rightarrow> timestamp \<Rightarrow> outbox_item \<Rightarrow> bool" where
  "delivered http now item \<longleftrightarrow> (case http now (oi_webhook_url item) (request_body item) of
      Response s \<Rightarrow> 200 \<le> s \<and> s \<le> 299
    | Rejects \<Rightarrow> False)"

definition marked_row :: "bool \<Rightarrow> timestamp \<Rightarrow> webhook_outbox \<Rightarrow> webhook_outbox" where
  "marked_row ok now x =
     (if ok then x\<lparr>w_status := Processed, w_processed_at := Some now\<rparr>
      else if w_retry_count x + 1 < w_max_retries x
      then x\<lparr>w_status := Hook_Pending, w_retry_count := w_retry_count x + 1,
        w_next_retry_at := now + seconds (2 ^ nat (w_retry_count x + 1))\<rparr>
      else x\<lparr>w_status := Hook_Failed, w_retry_count := w_retry_count x + 1\<rparr>)"

lemma marked_row_sets:
  "marked_row True now = processed_set now" "marked_row False now = hook_failed_set now"
  by (rule ext; simp add: marked_row_def processed_set_def hook_failed_set_def backoff_def)+

text \<open>
  Property C27.  One round of the outbox, whatever the database layer makes of the rows of the
  claim.  The claim takes the due and unlocked webhook with the earliest retry time, if there is
  one, and puts it into the status processing; no other row changes.  When nothing comes back
  the round returns false.  Otherwise it posts to the URL of the object it got and returns true,
  and exactly the row that this object names is marked: processed when the receiver answered
  2xx; and when it answered anything else or could not be reached, pending again after 2, 4, 8,
  ... seconds with one more retry, or failed when that was its last.  An object without an id,
  such as the pair of the rows and their number gives, marks no row.
\<close>

theorem process_webhook_outcome:
  assumes "script w = []" "distinct (map w_id (webhooks_outbox (the_db w)))"
  shows "\<exists>got claimed.
    (if \<exists>x \<in> set (webhooks_outbox (the_db w)).
         w_status x = Hook_Pending \<and> w_next_retry_at x \<le> clock w \<and> w_id x \<notin> row_locks (the_db w)
     then \<exists>h \<in> set (webhooks_outbox (the_db w)).
       w_status h = Hook_Pending \<and> w_next_retry_at h \<le> clock w \<and> w_id h \<notin> row_locks (the_db w) \<and>
       (\<forall>x \<in> set (webhooks_outbox (the_db w)). w_status x = Hook_Pending \<longrightarrow> w_next_retry_at x \<le> clock w \<longrightarrow>
          w_id x \<notin> row_locks (the_db w) \<longrightarrow> w_next_retry_at h \<le> w_next_retry_at x) \<and>
       got = [h\<lparr>w_status := Processing\<rparr>] \<and>
       claimed = map (\<lambda>x. if w_id x = w_id h then x\<lparr>w_status := Processing\<rparr> else x) (webhooks_outbox (the_db w))
     else got = [] \<and> claimed = webhooks_outbox (the_db w)) \<and>
    processOneWebhook sh http w = (case map_option mapRowToOutboxItem (first_cell (sh got)) of
        None \<Rightarrow> (Done False, w\<lparr>the_db := (the_db w)\<lparr>webhooks_outbox := claimed\<rparr>\<rparr>)
      | Some item \<Rightarrow> (Done True, w\<lparr>the_db := (the_db w)\<lparr>webhooks_outbox :=
          map (\<lambda>x. if oi_id item = Some (w_id x) then marked_row (delivered http (clock w) item) (clock w) x else x)
            claimed\<rparr>\<rparr>))"
proof -
  let ?hs = "webhooks_outbox (the_db w)"
  let ?L = "row_locks (the_db w)"
  obtain got claimed where c: "claim_row w_id hook_due w_next_retry_at processing_set ?L (clock w) ?hs = (got, claimed)"
    by fastforce
  let ?w1 = "w\<lparr>the_db := (the_db w)\<lparr>webhooks_outbox := claimed\<rparr>\<rparr>"
  have claim: "claimNextWebhook sh w = (Done (map_option mapRowToOutboxItem (first_cell (sh got))), ?w1)"
    using assms(1) by (simp add: claimNextWebhook_def seq_def query_quiet sql_claim_next_webhook_def c ret_def)
  have mark: "update_hook i f (d\<lparr>webhooks_outbox := claimed\<rparr>) =
      d\<lparr>webhooks_outbox := map (\<lambda>x. if i = Some (w_id x) then f x else x) claimed\<rparr>" for i f d
    by (simp add: update_hook_def update_where_def)
  have q: "script ?w1 = []" using assms(1) by simp
  have round: "processOneWebhook sh http w = (case map_option mapRowToOutboxItem (first_cell (sh got)) of
        None \<Rightarrow> (Done False, ?w1)
      | Some item \<Rightarrow> (Done True, w\<lparr>the_db := (the_db w)\<lparr>webhooks_outbox :=
          map (\<lambda>x. if oi_id item = Some (w_id x) then marked_row (delivered http (clock w) item) (clock w) x else x)
            claimed\<rparr>\<rparr>))"
  proof (cases "map_option mapRowToOutboxItem (first_cell (sh got))")
    case None
    then show ?thesis by (simp add: processOneWebhook_def seq_def claim ret_def)
  next
    case (Some item)
    then have "claimNextWebhook sh w = (Done (Some item), ?w1)" using claim by simp
    note step = this
    have reply: "delivered http (clock w) item = (case http (clock w) (oi_webhook_url item) (request_body item) of
        Response s \<Rightarrow> res_ok s | Rejects \<Rightarrow> False)"
      by (simp add: delivered_def res_ok_def split: fetch_reply.split)
    show ?thesis
      unfolding Some option.case using assms(1) step reply
      by (cases "delivered http (clock w) item"; cases "http (clock w) (oi_webhook_url item) (request_body item)")
        (simp_all add: processOneWebhook_def seq_def try_catch_def fetch_def throw_def ret_def
          markWebhookProcessed_def markWebhookFailed_def query_quiet sql_mark_webhook_processed_def
          sql_mark_webhook_failed_def mark marked_row_sets)
  qed
  have pick: "if \<exists>x \<in> set ?hs. w_status x = Hook_Pending \<and> w_next_retry_at x \<le> clock w \<and> w_id x \<notin> ?L
     then \<exists>h \<in> set ?hs. w_status h = Hook_Pending \<and> w_next_retry_at h \<le> clock w \<and> w_id h \<notin> ?L \<and>
       (\<forall>x \<in> set ?hs. w_status x = Hook_Pending \<longrightarrow> w_next_retry_at x \<le> clock w \<longrightarrow>
          w_id x \<notin> ?L \<longrightarrow> w_next_retry_at h \<le> w_next_retry_at x) \<and>
       got = [h\<lparr>w_status := Processing\<rparr>] \<and>
       claimed = map (\<lambda>x. if w_id x = w_id h then x\<lparr>w_status := Processing\<rparr> else x) ?hs
     else got = [] \<and> claimed = ?hs"
    using wq.claim_outcome[OF assms(2) c]
  proof (elim disjE exE conjE)
    assume "got = []" "claimed = ?hs" "\<forall>x \<in> set ?hs. hook_due (clock w) ?hs x \<longrightarrow> w_id x \<in> ?L"
    then show ?thesis by (auto simp: hook_due_def)
  next
    fix h assume h: "h \<in> set ?hs" "hook_due (clock w) ?hs h" "w_id h \<notin> ?L"
      and le: "\<forall>x \<in> set ?hs. hook_due (clock w) ?hs x \<longrightarrow> w_id x \<notin> ?L \<longrightarrow> w_next_retry_at h \<le> w_next_retry_at x"
      and got: "got = [processing_set (clock w) h]"
      and rows: "claimed = update_where (\<lambda>x. w_id x = w_id h) (processing_set (clock w)) ?hs"
    have ex: "\<exists>x \<in> set ?hs. w_status x = Hook_Pending \<and> w_next_retry_at x \<le> clock w \<and> w_id x \<notin> ?L"
      using h by (auto simp: hook_due_def)
    show ?thesis
      unfolding if_P[OF ex] using h le
      by (intro bexI[OF _ h(1)]) (auto simp: got rows hook_due_def processing_set_def update_where_def)
  qed
  from pick round show ?thesis by blast
qed

theorem process_webhook_outcome_witness:
  "let w = (demo_world [])\<lparr>the_db := empty_db\<lparr>webhooks_outbox := [demo_hook 8 1]\<rparr>\<rparr>
   in \<exists>claimed. processOneWebhook rows_and_count (\<lambda>_ _ _. Response 200) w =
        (Done True, w\<lparr>the_db := (the_db w)\<lparr>webhooks_outbox := claimed\<rparr>\<rparr>) \<and> map w_status claimed = [Processing]"
proof -
  define w where "w = (demo_world [])\<lparr>the_db := empty_db\<lparr>webhooks_outbox := [demo_hook 8 1]\<rparr>\<rparr>"
  have w: "script w = []" "webhooks_outbox (the_db w) = [demo_hook 8 1]" "clock w = 7" "row_locks (the_db w) = {}"
    by (simp_all add: w_def demo_world_def empty_db_def)
  have h: "w_status (demo_hook 8 1) = Hook_Pending" "w_next_retry_at (demo_hook 8 1) = 1"
    by (simp_all add: demo_hook_def)
  obtain got claimed where "claimed = [(demo_hook 8 1)\<lparr>w_status := Processing\<rparr>]"
    "processOneWebhook rows_and_count (\<lambda>_ _ _. Response 200) w =
       (Done True, w\<lparr>the_db := (the_db w)\<lparr>webhooks_outbox := claimed\<rparr>\<rparr>)"
    using process_webhook_outcome[of w rows_and_count "\<lambda>_ _ _. Response 200"]
    by (auto simp: w h rows_and_count_def)
  then show ?thesis unfolding w_def Let_def by (intro exI[of _ claimed]) simp
qed

section \<open>The schedule of the retries\<close>

text \<open>
  A new webhook with a limit of \<open>m\<close> attempts that keeps failing waits 2, 4, 8,
  \<dots> seconds after its 1st, 2nd, 3rd, \<dots> failure, and with the \<open>m\<close>-th failure it is given up
  and stays given up.
\<close>

theorem webhook_backoff:
  assumes "cs \<noteq> []" "w_retry_count h = 0"
  shows "(int (length cs) < w_max_retries h \<longrightarrow>
       w_status (fold hook_failed_set cs h) = Hook_Pending \<and>
       w_next_retry_at (fold hook_failed_set cs h) = last cs + seconds (2 ^ length cs)) \<and>
    (w_max_retries h \<le> int (length cs) \<longrightarrow> w_status (fold hook_failed_set cs h) = Hook_Failed) \<and>
    w_retry_count (fold hook_failed_set cs h) = int (length cs)"
proof -
  obtain ds c where cs: "cs = ds @ [c]" using assms(1) by (metis rev_exhaust)
  have "w_retry_count (fold hook_failed_set ds h) = int (length ds)"
    "w_max_retries (fold hook_failed_set ds h) = w_max_retries h"
    using wr.count_fails[of ds h] wr.limit_fails[of ds h] assms(2) by simp_all
  moreover have "nat (int (length ds) + 1) = Suc (length ds)" by simp
  ultimately have "int (length cs) < w_max_retries h \<Longrightarrow>
      w_next_retry_at (fold hook_failed_set cs h) = c + seconds (2 ^ length cs)"
    by (simp add: cs hook_failed_set_def backoff_def)
  moreover have "c = last cs" by (simp add: cs)
  ultimately show ?thesis
    using wr.fails_outcome[OF assms(1), of h] wr.count_fails[of cs h] assms(2) by simp
qed

theorem webhook_backoff_witness:
  "w_status (fold hook_failed_set [100, 3000000] (demo_hook 8 1)) = Hook_Pending \<and>
   w_next_retry_at (fold hook_failed_set [100, 3000000] (demo_hook 8 1)) = 3000000 + seconds 4 \<and>
   w_status (fold hook_failed_set [1, 2, 3, 4, 5] (demo_hook 8 1)) = Hook_Failed"
  using webhook_backoff[of "[100, 3000000]" "demo_hook 8 1"]
    webhook_backoff[of "[1, 2, 3, 4, 5]" "demo_hook 8 1"]
  by (simp add: demo_hook_def)


section \<open>Draining\<close>

definition waiting_hooks :: "world \<Rightarrow> webhook_outbox set" where
  "waiting_hooks w = {x \<in> set (webhooks_outbox (the_db w)).
     hook_due (clock w) (webhooks_outbox (the_db w)) x \<and> w_id x \<notin> row_locks (the_db w)}"

lemma finite_waiting [simp]: "finite (waiting_hooks w)"
  by (simp add: waiting_hooks_def)

lemma attempted_not_due: "\<not> hook_due now rows (attempted now reply h)"
  using backoff_pos[of "w_retry_count h"]
  by (auto simp: attempted_def hook_due_def processed_set_def hook_failed_set_def processing_set_def
      not_le split: fetch_reply.split simp del: backoff_pos)

lemma attempted_id [simp]: "w_id (attempted now reply h) = w_id h"
  by (simp add: attempted_def split: fetch_reply.split)

text \<open>A round uses up one waiting webhook.\<close>

lemma round_uses_one:
  assumes "script w = []" "distinct (map w_id (webhooks_outbox (the_db w)))"
  obtains (none) "processOneWebhook plain_rows http w = (Done False, w)" "waiting_hooks w = {}"
  | (one) h w' where "processOneWebhook plain_rows http w = (Done True, w')"
      "h \<in> waiting_hooks w" "waiting_hooks w' = waiting_hooks w - {h}" "script w' = []"
      "aborted w' = aborted w" "distinct (map w_id (webhooks_outbox (the_db w')))"
      "jobs (the_db w') = jobs (the_db w)"
  using assms
proof (cases rule: processOneWebhook_quiet[where http = http])
  case none
  then show thesis by (intro that(1)) (auto simp: waiting_hooks_def)
next
  case (one h)
  let ?f = "attempted (clock w) (reply_to http (clock w) h)"
  let ?hs = "update_where (\<lambda>x. w_id x = w_id h) ?f (webhooks_outbox (the_db w))"
  let ?w' = "w\<lparr>the_db := (the_db w)\<lparr>webhooks_outbox := ?hs\<rparr>\<rparr>"
  have set: "set ?hs = insert (?f h) (set (webhooks_outbox (the_db w)) - {h})"
    by (rule hook_rows.update_key[OF assms(2) one(1)])
  have "\<not> hook_due (clock w) (set_rows) (?f h)" for set_rows by (rule attempted_not_due)
  then have "waiting_hooks ?w' = waiting_hooks w - {h}"
    unfolding waiting_hooks_def by (auto simp: set hook_due_def)
  moreover have "distinct (map w_id ?hs)"
    using hook_rows.distinct_update[of ?f "\<lambda>x. w_id x = w_id h"] assms(2) by simp
  moreover have "h \<in> waiting_hooks w" using one(1-3) by (simp add: waiting_hooks_def)
  ultimately show thesis using one(5) assms(1) by (intro that(2)[of ?w' h]) simp_all
qed

lemma drain_bound:
  assumes "script w = []" "distinct (map w_id (webhooks_outbox (the_db w)))" "\<not> aborted w"
    and "card (waiting_hooks w) < n"
  shows "\<exists>w'. drain_outbox n plain_rows http w = (Done (), w') \<and> waiting_hooks w' = {} \<and>
    jobs (the_db w') = jobs (the_db w)"
  using assms
proof (induction n arbitrary: w)
  case 0
  then show ?case by simp
next
  case (Suc n)
  from Suc.prems(1,2) show ?case
  proof (cases rule: round_uses_one[where http = http])
    case none
    then show ?thesis by (simp add: seq_def is_aborted_def ret_def)
  next
    case (one h w')
    have "card (waiting_hooks w') < n"
      using one(2,3) Suc.prems(4) by (simp add: card_Diff_singleton)
        (metis Suc_pred card_gt_0_iff empty_iff finite_waiting Suc_less_eq)
    with Suc.IH[of w'] one Suc.prems(3) show ?thesis
      by (auto simp: seq_def is_aborted_def)
  qed
qed

text \<open>
  If the database layer hands on the rows, draining the outbox ends: as many rounds as there are
  due webhooks and one more are enough, whatever the receivers answer, and afterwards no unlocked
  webhook is due, because a failed delivery is put at least two seconds ahead.  With the pair of
  the rows and their number it never does (\<open>rows_and_count_never_drains\<close>).
\<close>

theorem drain_terminates:
  assumes "script w = []" "distinct (map w_id (webhooks_outbox (the_db w)))" "\<not> aborted w"
    and "length (webhooks_outbox (the_db w)) < n"
  shows "\<exists>w'. drain_outbox n plain_rows http w = (Done (), w') \<and>
    (\<forall>h \<in> set (webhooks_outbox (the_db w')). w_status h = Hook_Pending \<longrightarrow>
       w_id h \<notin> row_locks (the_db w') \<longrightarrow> clock w' < w_next_retry_at h)"
proof -
  have "card (waiting_hooks w) \<le> card (set (webhooks_outbox (the_db w)))"
    by (rule card_mono) (auto simp: waiting_hooks_def)
  also have "\<dots> \<le> length (webhooks_outbox (the_db w))" by (rule card_length)
  finally have "card (waiting_hooks w) < n" using assms(4) by simp
  from drain_bound[OF assms(1-3) this, where http = http] show ?thesis
    by (auto simp: waiting_hooks_def hook_due_def not_le[symmetric])
qed

theorem drain_terminates_witness:
  "\<exists>w'. drain_outbox 3 plain_rows (\<lambda>_ _ _. Rejects)
     ((demo_world [])\<lparr>the_db := empty_db\<lparr>webhooks_outbox := [demo_hook 8 1, demo_hook 9 0]\<rparr>\<rparr>) =
       (Done (), w') \<and>
     (\<forall>h \<in> set (webhooks_outbox (the_db w')). w_status h = Hook_Pending \<longrightarrow>
        w_id h \<notin> row_locks (the_db w') \<longrightarrow> clock w' < w_next_retry_at h)"
  by (rule drain_terminates) (simp_all add: demo_world_def demo_hook_def empty_db_def)

section \<open>What the outbox does not do\<close>

lemma no_row_update: "update_hook None f d = d"
proof -
  have "update_where (\<lambda>w. None = Some (w_id w)) f (webhooks_outbox d) = webhooks_outbox d"
    by (rule update_where_id) simp
  then show ?thesis by (simp add: update_hook_def)
qed

lemma claimed_rows:
  "claim_row w_id hook_due w_next_retry_at processing_set locked now hs = (got, rows) \<Longrightarrow>
     h \<in> set rows \<Longrightarrow> h \<in> set hs \<or> w_status h = Processing"
  by (auto simp: claim_row_def set_update_where processing_set_def split: option.splits)

lemma rows_and_count_round:
  assumes "script w = []"
  shows "\<exists>rows. processOneWebhook rows_and_count http w =
      (Done True, w\<lparr>the_db := (the_db w)\<lparr>webhooks_outbox := rows\<rparr>\<rparr>) \<and>
    (\<forall>h \<in> set rows. h \<in> set (webhooks_outbox (the_db w)) \<or> w_status h = Processing)"
proof -
  obtain got rows where c: "claim_row w_id hook_due w_next_retry_at processing_set
      (row_locks (the_db w)) (clock w) (webhooks_outbox (the_db w)) = (got, rows)" by fastforce
  have q: "script (w\<lparr>the_db := d\<rparr>) = []" for d using assms by simp
  have "processOneWebhook rows_and_count http w =
      (Done True, w\<lparr>the_db := (the_db w)\<lparr>webhooks_outbox := rows\<rparr>\<rparr>)"
    by (simp add: processOneWebhook_def claimNextWebhook_def seq_def query_quiet assms q
        sql_claim_next_webhook_def c ret_def rows_and_count_def try_catch_def fetch_def throw_def
        markWebhookProcessed_def markWebhookFailed_def sql_mark_webhook_processed_def
        sql_mark_webhook_failed_def no_row_update split: fetch_reply.split)
  with claimed_rows[OF c] show ?thesis by blast
qed

text \<open>
  Property C28.  When the database layer answers an UPDATE ... RETURNING with the pair of the
  rows and their number, as TypeORM's Postgres driver does, a round takes that pair for a
  webhook: it returns true every time, so that draining never ends, and no webhook is ever
  processed, retried or given up: a row stays as it is or is left in the status processing.
\<close>

theorem rows_and_count_never_drains:
  assumes "script w = []" "\<not> aborted w"
  shows "\<exists>w'. drain_outbox n rows_and_count http w = (Hangs, w') \<and>
    (\<forall>h \<in> set (webhooks_outbox (the_db w')).
       h \<in> set (webhooks_outbox (the_db w)) \<or> w_status h = Processing)"
  using assms
proof (induction n arbitrary: w)
  case 0
  then show ?case by (simp add: hang_def)
next
  case (Suc n)
  obtain rows where r: "processOneWebhook rows_and_count http w =
      (Done True, w\<lparr>the_db := (the_db w)\<lparr>webhooks_outbox := rows\<rparr>\<rparr>)"
    "\<forall>h \<in> set rows. h \<in> set (webhooks_outbox (the_db w)) \<or> w_status h = Processing"
    using rows_and_count_round[OF Suc.prems(1)] by blast
  have "\<exists>w'. drain_outbox n rows_and_count http (w\<lparr>the_db := (the_db w)\<lparr>webhooks_outbox := rows\<rparr>\<rparr>) =
      (Hangs, w') \<and> (\<forall>h \<in> set (webhooks_outbox (the_db w')). h \<in> set rows \<or> w_status h = Processing)"
    using Suc.IH[of "w\<lparr>the_db := (the_db w)\<lparr>webhooks_outbox := rows\<rparr>\<rparr>"] Suc.prems by simp
  with r Suc.prems show ?case by (auto simp: seq_def is_aborted_def)
qed

theorem rows_and_count_never_drains_witness:
  "\<exists>w'. drain_outbox 100 rows_and_count (\<lambda>_ _ _. Response 200)
     ((demo_world [])\<lparr>the_db := empty_db\<lparr>webhooks_outbox := [demo_hook 8 1]\<rparr>\<rparr>) = (Hangs, w') \<and>
    (\<forall>h \<in> set (webhooks_outbox (the_db w')).
       h \<in> set (webhooks_outbox (the_db ((demo_world [])\<lparr>the_db :=
         empty_db\<lparr>webhooks_outbox := [demo_hook 8 1]\<rparr>\<rparr>))) \<or> w_status h = Processing)"
  by (rule rows_and_count_never_drains) (simp_all add: demo_world_def)

text \<open>The steps on the outbox that do not mark webhook \<open>i\<close>.\<close>

inductive unmarked_step :: "uuid \<Rightarrow> db \<Rightarrow> webhook_outbox list \<Rightarrow> db \<Rightarrow> bool" for i where
  Hook_Enqueued: "sql_enqueue_notification t pl url m now d = Inr (h, d') \<Longrightarrow> i < next_uuid d \<Longrightarrow>
     unmarked_step i d [] d'"
| Hook_Claimed: "sql_claim_next_webhook now d = Inr (got, d') \<Longrightarrow> unmarked_step i d got d'"
| Other_Processed: "sql_mark_webhook_processed k now d = Inr (u, d') \<Longrightarrow> k \<noteq> Some i \<Longrightarrow>
     unmarked_step i d [] d'"
| Other_Hook_Failed: "sql_mark_webhook_failed k now d = Inr (u, d') \<Longrightarrow> k \<noteq> Some i \<Longrightarrow>
     unmarked_step i d [] d'"

inductive unmarked_run :: "uuid \<Rightarrow> db \<Rightarrow> webhook_outbox list \<Rightarrow> db \<Rightarrow> bool" for i where
  Unmarked_Refl: "unmarked_run i d [] d"
| Unmarked_Step: "unmarked_run i d hs d' \<Longrightarrow> unmarked_step i d' got d'' \<Longrightarrow>
     unmarked_run i d (hs @ got) d''"

lemma unmarked_keeps:
  assumes "unmarked_step i d got d'" "\<forall>x \<in> set (webhooks_outbox d). w_id x = i \<longrightarrow> w_status x = Processing"
  shows "(\<forall>x \<in> set (webhooks_outbox d'). w_id x = i \<longrightarrow> w_status x = Processing) \<and>
    i \<notin> w_id ` set got \<and> (h \<in> set (webhooks_outbox d) \<longrightarrow> w_id h = i \<longrightarrow> h \<in> set (webhooks_outbox d'))"
  using assms
proof (induction rule: unmarked_step.induct)
  case (Hook_Enqueued t pl url m now d x d')
  then show ?case
    by (auto simp: sql_enqueue_notification_def Let_def split: if_splits)
next
  case (Hook_Claimed now d got d')
  obtain rows where c: "claim_row w_id hook_due w_next_retry_at processing_set
      (row_locks d) now (webhooks_outbox d) = (got, rows)" and d': "d' = d\<lparr>webhooks_outbox := rows\<rparr>"
    using Hook_Claimed(1) by (auto simp: sql_claim_next_webhook_def split: prod.splits)
  show ?case
  proof (cases "pick_row w_id hook_due w_next_retry_at (row_locks d) now (webhooks_outbox d)")
    case None
    with c Hook_Claimed(2) show ?thesis by (auto simp: claim_row_def d')
  next
    case (Some x)
    from pick_row_Some[OF Some] Hook_Claimed(2) have "w_id x \<noteq> i" by (auto simp: hook_due_def)
    with c Some Hook_Claimed(2) show ?thesis
      by (auto simp: claim_row_def d' set_update_where)
  qed
next
  case (Other_Processed k now d u d')
  then show ?case
    by (auto simp: sql_mark_webhook_processed_def update_hook_def set_update_where)
next
  case (Other_Hook_Failed k now d u d')
  then show ?case
    by (auto simp: sql_mark_webhook_failed_def update_hook_def set_update_where)
qed

text \<open>
  A webhook whose worker dies between the claim and the mark is lost: nothing
  the outbox does later, at any time, changes its row or hands it out again.
\<close>

theorem processing_webhook_lost:
  assumes "unmarked_run i d hs d'" "h \<in> set (webhooks_outbox d)" "w_id h = i"
    and "distinct (map w_id (webhooks_outbox d))" "w_status h = Processing"
  shows "h \<in> set (webhooks_outbox d') \<and> i \<notin> w_id ` set hs"
proof -
  have "\<forall>x \<in> set (webhooks_outbox d). w_id x = i \<longrightarrow> w_status x = Processing"
  proof (intro ballI impI)
    fix x assume x: "x \<in> set (webhooks_outbox d)" "w_id x = i"
    have "w_id x = w_id h" using x(2) assms(3) by simp
    with hook_rows.key_unique[OF assms(4) x(1) assms(2)] have "x = h" by blast
    with assms(5) show "w_status x = Processing" by simp
  qed
  with assms(1-3) have "(\<forall>x \<in> set (webhooks_outbox d'). w_id x = i \<longrightarrow> w_status x = Processing) \<and>
      h \<in> set (webhooks_outbox d') \<and> i \<notin> w_id ` set hs"
  proof (induction rule: unmarked_run.induct)
    case (Unmarked_Refl d)
    then show ?case by simp
  next
    case (Unmarked_Step d hs d' got d'')
    note IH = Unmarked_Step(3)[OF Unmarked_Step(4-6)]
    note step = unmarked_keeps[OF Unmarked_Step(2), of h, OF conjunct1[OF IH]]
    have "\<forall>x \<in> set (webhooks_outbox d''). w_id x = i \<longrightarrow> w_status x = Processing"
      "i \<notin> w_id ` set got" "h \<in> set (webhooks_outbox d'')"
      using step IH Unmarked_Step(5) by blast+
    with IH show ?case by auto
  qed
  then show ?thesis by blast
qed

lemma hook_claim_total: "\<exists>got d'. sql_claim_next_webhook now d = Inr (got, d')"
  by (simp add: sql_claim_next_webhook_def split: prod.split)

theorem processing_webhook_lost_witness:
  "let h = (demo_hook 8 1)\<lparr>w_status := Processing\<rparr>;
       d = empty_db\<lparr>webhooks_outbox := [h, demo_hook 9 0]\<rparr>
   in \<exists>got d'. sql_claim_next_webhook (seconds 100000) d = Inr (got, d') \<and>
        h \<in> set (webhooks_outbox d') \<and> 8 \<notin> w_id ` set got"
proof -
  let ?h = "(demo_hook 8 1)\<lparr>w_status := Processing\<rparr>"
  let ?d = "empty_db\<lparr>webhooks_outbox := [?h, demo_hook 9 0]\<rparr>"
  obtain got d' where s: "sql_claim_next_webhook (seconds 100000) ?d = Inr (got, d')"
    using hook_claim_total by blast
  have "unmarked_run 8 ?d got d'"
    using Unmarked_Step[OF Unmarked_Refl Hook_Claimed[OF s]] by simp
  then have "?h \<in> set (webhooks_outbox d') \<and> 8 \<notin> w_id ` set got"
    by (rule processing_webhook_lost) (simp_all add: demo_hook_def)
  with s show ?thesis unfolding Let_def by blast
qed

end
