(* ===== verification/WorkerFacts.thy ===== *)
theory WorkerFacts
  imports ExecFacts WebhookFacts System
begin

text \<open>
  What the worker's loop promises: it survives every error and ends only when aborted; a
  round that gets a job out of its claim runs it and settles the row it names by its exit code;
  and with results of the shape \<open>rows_and_count\<close> it claims jobs and never runs them.
\<close>

section \<open>The loop survives\<close>

lemma loop_catch_cases:
  "loop_catch w = (x, w') \<Longrightarrow> x = Done True \<or> x = Done False \<and> aborted w'"
  by (auto simp: loop_catch_def seq_def is_aborted_def ret_def sleep_def split: if_splits)

lemma loop_try_false:
  assumes "loop_try n rt http shj shw workerId w = (Done False, w')"
  shows "aborted w'"
proof -
  have "\<not> (\<exists>w1. seq m (\<lambda>_. ret True) w1 = (Done False, w'))" for m :: "'a act"
    by (auto simp: seq_def ret_def split: prod.splits outcome.splits)
  then show ?thesis
    using assms
    by (auto simp: loop_try_def seq_def is_aborted_def ret_def
        split: if_splits option.splits prod.splits outcome.splits)
qed

lemma loop_round_cases:
  assumes "loop_round n rt http shj shw workerId w = (x, w')"
  shows "x = Hangs \<or> x = Done True \<or> x = Done False \<and> aborted w'"
proof -
  obtain y w1 where t: "loop_try n rt http shj shw workerId w = (y, w1)" by fastforce
  show ?thesis
  proof (cases y)
    case (Done b)
    with assms t show ?thesis
      by (cases b) (auto simp: loop_round_def try_catch_def dest: loop_try_false)
  qed (use assms t loop_catch_cases in \<open>auto simp: loop_round_def try_catch_def\<close>)
qed

text \<open>
  Nothing ends a worker's loop but its abort signal: no error of the
  database, of a command, of a receiver or of the loop's own bookkeeping leaves it, and
  when it returns the worker has been aborted.
\<close>

theorem loop_ends_only_on_abort:
  "runLoop n rt http shj shw workerId w = (x, w') \<Longrightarrow> x = Hangs \<or> x = Done () \<and> aborted w'"
proof (induction n arbitrary: w)
  case 0
  then show ?case by (simp add: hang_def)
next
  case (Suc n)
  show ?case
  proof (cases "aborted w")
    case True
    with Suc.prems show ?thesis by (auto simp: seq_def is_aborted_def ret_def)
  next
    case False
    obtain y w1 where r: "loop_round n rt http shj shw workerId w = (y, w1)" by fastforce
    from loop_round_cases[OF r] Suc.IH[of w1] Suc.prems False r show ?thesis
      by (auto simp: seq_def is_aborted_def ret_def)
  qed
qed

theorem loop_ends_only_on_abort_witness:
  "let w = (demo_world [])\<lparr>script := [\<lparr>ev_other = id, ev_now = 8, ev_fate = Lost_Reply, ev_abort = True\<rparr>]\<rparr>;
       (x, w') = runLoop 5 (demo_runtime []) (\<lambda>_ _ _. Rejects) plain_rows plain_rows [] w
   in x = Done () \<and> aborted w'"
proof -
  let ?w = "(demo_world [])\<lparr>script := [\<lparr>ev_other = id, ev_now = 8, ev_fate = Lost_Reply, ev_abort = True\<rparr>]\<rparr>"
  obtain x w' where r: "runLoop 5 (demo_runtime []) (\<lambda>_ _ _. Rejects) plain_rows plain_rows [] ?w = (x, w')"
    by fastforce
  have "x \<noteq> Hangs"
    using r by (auto simp: numeral_eq_Suc seq_def is_aborted_def demo_world_def loop_round_def try_catch_def
        loop_try_def claimNext_def claimNextJob_def query_def elapse_def loop_catch_def ret_def
        sql_claim_next_job_def claim_row_def pick_row_def empty_db_def)
  with loop_ends_only_on_abort[OF r] r show ?thesis by (simp add: Let_def)
qed

section \<open>Actions that come to an end\<close>

text \<open>\<open>settles P m\<close>: from a world with \<open>P\<close>, \<open>m\<close> ends, in a world with \<open>P\<close>.\<close>

definition settles :: "(world \<Rightarrow> bool) \<Rightarrow> 'a act \<Rightarrow> bool" where
  "settles P m \<longleftrightarrow> (\<forall>w. P w \<longrightarrow> P (snd (m w)) \<and> fst (m w) \<noteq> Hangs)"

named_theorems settles_intros

lemma settlesE:
  assumes "settles P m" "P w"
  obtains x w' where "m w = (x, w')" "P w'" "x \<noteq> Hangs"
  using assms unfolding settles_def by (metis prod.collapse)

lemma settles_ret [settles_intros]: "settles P (ret x)"
  and settles_throw [settles_intros]: "settles P (throw e)"
  by (simp_all add: settles_def ret_def throw_def)

lemma settles_seq [settles_intros]:
  assumes "settles P m" "\<And>x. settles P (k x)"
  shows "settles P (seq m k)"
  unfolding settles_def
proof (intro allI impI)
  fix w assume w: "P w"
  obtain x w1 where m: "m w = (x, w1)" "P w1" "x \<noteq> Hangs" using settlesE[OF assms(1) w] .
  from m show "P (snd (seq m k w)) \<and> fst (seq m k w) \<noteq> Hangs"
    using assms(2) by (cases x) (auto simp: seq_def settles_def)
qed

lemma settles_try_catch [settles_intros]:
  assumes "settles P m" "settles P h"
  shows "settles P (try_catch m h)"
  unfolding settles_def
proof (intro allI impI)
  fix w assume w: "P w"
  obtain x w1 where m: "m w = (x, w1)" "P w1" "x \<noteq> Hangs" using settlesE[OF assms(1) w] .
  from m show "P (snd (try_catch m h w)) \<and> fst (try_catch m h w) \<noteq> Hangs"
    using assms(2) by (cases x) (auto simp: try_catch_def settles_def)
qed

lemma settles_try_finally [settles_intros]:
  assumes "settles P m" "settles P f"
  shows "settles P (try_finally m f)"
  unfolding settles_def
proof (intro allI impI)
  fix w assume w: "P w"
  obtain x w1 where m: "m w = (x, w1)" "P w1" "x \<noteq> Hangs" using settlesE[OF assms(1) w] .
  have "settles P (seq f (\<lambda>_. ret a))" "settles P (seq f (\<lambda>_. throw e))" for a :: 'a and e
    by (intro settles_intros assms(2))+
  with m show "P (snd (try_finally m f w)) \<and> fst (try_finally m f w) \<noteq> Hangs"
    by (cases x) (auto simp: try_finally_def settles_def)
qed

lemma settles_if [settles_intros]: "settles P m \<Longrightarrow> settles P n \<Longrightarrow> settles P (if b then m else n)"
  by simp

lemma settles_case_option [settles_intros]:
  "settles P m \<Longrightarrow> (\<And>x. settles P (k x)) \<Longrightarrow> settles P (case v of None \<Rightarrow> m | Some x \<Rightarrow> k x)"
  by (cases v) simp_all

lemma settles_query: "stays P (query st) \<Longrightarrow> settles P (query st)"
proof -
  have "fst (query st w) \<noteq> Hangs" for w
    using query_not_hangs[of st w "snd (query st w)"] by (auto simp: prod_eq_iff)
  then show "stays P (query st) \<Longrightarrow> settles P (query st)" by (simp add: settles_def stays_def)
qed

section \<open>What executing a job keeps\<close>

text \<open>Nothing interferes, and all tables but the logs and the locks are those of \<open>w0\<close>.\<close>

definition core :: "world \<Rightarrow> world \<Rightarrow> bool" where
  "core w0 w \<longleftrightarrow> script w = [] \<and> clock w = clock w0 \<and> aborted w = aborted w0 \<and>
     jobs (the_db w) = jobs (the_db w0) \<and> pipeline_runs (the_db w) = pipeline_runs (the_db w0) \<and>
     webhooks_outbox (the_db w) = webhooks_outbox (the_db w0) \<and>
     row_locks (the_db w) = row_locks (the_db w0) \<and> run_trigger (the_db w) = run_trigger (the_db w0) \<and>
     next_uuid (the_db w) = next_uuid (the_db w0)"

lemma core_logs: "core w0 w \<Longrightarrow> logs_only w w' \<Longrightarrow> core w0 w'"
  using logs_onlyD[of w w'] by (simp add: core_def)

lemma core_query:
  assumes "\<And>now d x d'. st now d = Inr (x, d') \<Longrightarrow>
    jobs d' = jobs d \<and> pipeline_runs d' = pipeline_runs d \<and> webhooks_outbox d' = webhooks_outbox d \<and>
    row_locks d' = row_locks d \<and> run_trigger d' = run_trigger d \<and> next_uuid d' = next_uuid d"
  shows "settles (core w0) (query st)" "settles (core w0) (client_query sess st)"
proof -
  have "stays (core w0) (query st)"
    by (rule stays_query) (use assms in \<open>auto simp: core_def\<close>)
  then show q: "settles (core w0) (query st)" by (rule settles_query)
  show "settles (core w0) (client_query sess st)"
    using q by (auto simp: settles_def core_def client_query_quiet)
qed

lemma core_append: "settles (core w0) (appendLog fmt i line lvl)"
  unfolding appendLog_def
  by (intro settles_intros core_query) (auto dest: insert_job_log_frame)

lemma core_client:
  "settles (core w0) (pool_connect s)" "settles (core w0) (client_release s)"
  by (simp_all add: settles_def core_def pool_connect_def client_release_def)

lemma core_release_and_rethrow:
  assumes "settles (core w0) m"
  shows "settles (core w0) (release_and_rethrow s m)"
  unfolding settles_def
proof (intro allI impI)
  fix w assume w: "core w0 w"
  obtain x w1 where m: "m w = (x, w1)" "core w0 w1" "x \<noteq> Hangs" using settlesE[OF assms w] .
  then show "core w0 (snd (release_and_rethrow s m w)) \<and> fst (release_and_rethrow s m w) \<noteq> Hangs"
    by (cases x) (simp_all add: release_and_rethrow_def seq_def client_release_def throw_def core_def)
qed

lemma core_locks:
  "settles (core w0) (tryAcquire h s env run)" "settles (core w0) (run_release h r)"
proof -
  have 1: "settles (core w0) (client_query s (sql_try_lock s k))"
    "settles (core w0) (client_query s (sql_unlock s k))"
    "settles (core w0) (client_query s (sql_insert_deployment_lock env i))"
    "settles (core w0) (client_query s (sql_delete_deployment_lock env))" for s k env i
    by (rule core_query; auto simp: sql_try_lock_def sql_unlock_def sql_insert_deployment_lock_def
        sql_delete_deployment_lock_def Let_def split: prod.splits if_splits)+
  show "settles (core w0) (tryAcquire h s env run)"
    unfolding tryAcquire_def Let_def
    by (intro settles_intros core_client core_release_and_rethrow 1)
  show "settles (core w0) (run_release h r)"
    by (cases r) (auto intro!: settles_intros core_client 1)
qed

text \<open>Every command comes to an end.\<close>

definition commands_end :: "runtime \<Rightarrow> timestamp \<Rightarrow> bool" where
  "commands_end rt now \<longleftrightarrow> (\<forall>command. exit_of (rt_child rt now command) \<noteq> None)"

lemma core_command:
  assumes "commands_end rt (clock w0)" "beats_now i w0"
  shows "settles (core w0) (run_command rt i command workerId)"
  unfolding settles_def
proof (intro allI impI)
  fix w assume w: "core w0 w"
  obtain x w' where r: "run_command rt i command workerId w = (x, w')" by fastforce
  have q: "script w = []" "beats_now i w" using w assms(2) by (simp_all add: core_def beats_now_def)
  have "logs_only w w'" using staysD[OF stays_run_command[OF q] logs_only_refl r] .
  moreover obtain code where "exit_of (rt_child rt (clock w) command) = Some code"
    using assms(1) w by (auto simp: commands_end_def core_def)
  from run_command_ends[OF this q(1) r] have "x \<noteq> Hangs" by auto
  ultimately show "core w0 (snd (run_command rt i command workerId w)) \<and>
      fst (run_command rt i command workerId w) \<noteq> Hangs"
    using core_logs[OF w] by (simp add: r)
qed

lemma core_execute:
  assumes "commands_end rt (clock w0)" "\<And>i. jo_id job = Some i \<Longrightarrow> beats_now i w0"
  shows "settles (core w0) (execute rt job workerId)"
  unfolding execute_def Let_def
  by (cases "jo_id job")
    (auto intro!: settles_intros core_locks core_append core_command assms)


section \<open>One round\<close>

definition settled_set :: "int \<Rightarrow> timestamp \<Rightarrow> job \<Rightarrow> job" where
  "settled_set code now j = (if code = 0 then completed_set code now j else failed_set code j)"

lemma settled_ids [simp]:
  "j_id (settled_set code now j) = j_id j"
  "j_pipeline_run_id (settled_set code now j) = j_pipeline_run_id j"
  by (simp_all add: settled_set_def)

lemma settle_quiet:
  assumes "script w = []" "jo_id job = Some i"
  shows "settle_job job code w = (Done (), w\<lparr>the_db :=
    update_jobs (clock w) (\<lambda>j. j_id j = i) (settled_set code (clock w)) (the_db w)\<rparr>)"
proof -
  have "is_row (Some i) k = (k = i)" for k by (auto simp: is_row_def)
  moreover have "settled_set code now = (if code = 0 then completed_set code now else failed_set code)" for now
    by (rule ext) (simp add: settled_set_def)
  ultimately show ?thesis
    using assms by (simp add: settle_job_def markCompleted_def markFailed_def query_quiet
        sql_mark_completed_def sql_mark_failed_def)
qed

lemma core_jobs:
  "core w0 w \<Longrightarrow> jobs (the_db w) = jobs (the_db w0)"
  "core w0 w \<Longrightarrow> clock w = clock w0"
  "core w0 w \<Longrightarrow> script w = []"
  by (simp_all add: core_def)

lemma no_row_jobs: "update_where (\<lambda>j. is_row None (j_id j)) f rows = rows"
  by (rule update_where_id) (simp add: is_row_def)

lemma no_row_filter: "filter (\<lambda>j. is_row None (j_id j)) rows = []"
  by (simp add: is_row_def filter_empty_conv)

lemma update_no_jobs: "update_jobs now (\<lambda>j. is_row None (j_id j)) f d = d"
  by (simp add: update_jobs_def no_row_jobs no_row_filter)

text \<open>A job object in hand is executed and settled, whatever its command does.\<close>

lemma job_in_hand_settled:
  assumes "script w = []" "commands_end rt (clock w)" "\<And>i. jo_id job = Some i \<Longrightarrow> beats_now i w"
  obtains code w1 where "execute_job rt job workerId w = (Done code, w1)" "core w w1"
    "settle_job job code w1 = (Done (), w1\<lparr>the_db := (case jo_id job of None \<Rightarrow> the_db w1
       | Some i \<Rightarrow> update_jobs (clock w1) (\<lambda>x. j_id x = i) (settled_set code (clock w1)) (the_db w1))\<rparr>)"
proof -
  have c: "core w w" using assms(1) by (simp add: core_def)
  have "settles (core w) (execute_job rt job workerId)"
    unfolding execute_job_def by (intro settles_intros core_execute) (use assms(2,3) in auto)
  from settlesE[OF this c] obtain y w1 where
    e: "execute_job rt job workerId w = (y, w1)" "core w w1" "y \<noteq> Hangs" .
  obtain code where y: "y = Done code"
    using e(1,3) by (cases y) (auto simp: execute_job_def try_catch_def ret_def split: prod.splits outcome.splits)
  have "settle_job job code w1 = (Done (), w1\<lparr>the_db := (case jo_id job of None \<Rightarrow> the_db w1
       | Some i \<Rightarrow> update_jobs (clock w1) (\<lambda>x. j_id x = i) (settled_set code (clock w1)) (the_db w1))\<rparr>)"
    using core_jobs(3)[OF e(2)] settle_quiet[of w1 job _ code]
    by (cases "jo_id job") (simp_all add: settle_job_def markCompleted_def markFailed_def query_quiet
        sql_mark_completed_def sql_mark_failed_def update_no_jobs)
  with e(1,2) y show thesis by (intro that) simp_all
qed

lemma plain_exit_code:
  assumes "execute_job rt job workerId w = (Done code, w1)" "script w = []" "jo_stage job \<noteq> lit ''deploy''"
    and "exit_of (rt_child rt (clock w) (jo_command job)) = Some e"
  shows "code = 1 \<or> jo_id job \<noteq> None \<and> code = e"
proof (cases "jo_id job")
  case None
  with assms(1) show ?thesis by (simp add: execute_job_def execute_def try_catch_def ret_def)
next
  case (Some i)
  obtain x w2 where r: "run_command rt i (jo_command job) workerId w = (x, w2)" by fastforce
  from run_command_ends[OF assms(4,2) r] assms(1,3) Some r show ?thesis
    by (auto simp: execute_job_def execute_def try_catch_def ret_def)
qed

text \<open>
  Property C18.  Whatever the database layer makes of a claimed row, a worker that gets a job
  object out of its claim runs it to an exit code and settles exactly the row the object names,
  by that code: success on 0; otherwise the job goes back into the queue with one more retry, or
  has failed for good when that was its last.  An object that names no row settles nothing and
  runs nothing.  No other job and no webhook is touched, the code of a job that is no deploy is
  its command's, or 1, and the worker goes on.
\<close>

theorem job_in_hand_is_settled:
  assumes "claimNext shj workerId w0 = (Done (Some job), w)" "\<not> aborted w0" "script w = []"
    and "commands_end rt (clock w)" "\<And>i. jo_id job = Some i \<Longrightarrow> beats_now i w"
  shows "\<exists>code w1 w2. execute_job rt job workerId w = (Done code, w1) \<and>
    settle_job job code w1 = (Done (), w2) \<and>
    loop_round n rt http shj shw workerId w0 = (Done True, w2) \<and>
    jobs (the_db w2) = map (\<lambda>j. if jo_id job = Some (j_id j)
      then if code = 0
        then j\<lparr>j_status := Success, j_exit_code := Some 0, j_completed_at := Some (clock w)\<rparr>
        else j\<lparr>j_status := (if j_retry_count j + 1 < j_max_retries j then Pending else Failed),
          j_retry_count := j_retry_count j + 1, j_exit_code := Some code,
          j_claimed_by := None, j_claimed_at := None\<rparr>
      else j) (jobs (the_db w)) \<and>
    webhooks_outbox (the_db w2) = webhooks_outbox (the_db w) \<and>
    (jo_id job = None \<longrightarrow> code = 1 \<and> w2 = w) \<and>
    (jo_stage job \<noteq> lit ''deploy'' \<longrightarrow>
       code = 1 \<or> exit_of (rt_child rt (clock w) (jo_command job)) = Some code)"
proof -
  obtain code w1 where e: "execute_job rt job workerId w = (Done code, w1)" "core w w1"
    and s: "settle_job job code w1 = (Done (), w1\<lparr>the_db := (case jo_id job of None \<Rightarrow> the_db w1
       | Some i \<Rightarrow> update_jobs (clock w1) (\<lambda>x. j_id x = i) (settled_set code (clock w1)) (the_db w1))\<rparr>)"
    by (rule job_in_hand_settled[OF assms(3,4), of job workerId]) (use assms(5) in auto)
  let ?d = "case jo_id job of None \<Rightarrow> the_db w1
       | Some i \<Rightarrow> update_jobs (clock w1) (\<lambda>x. j_id x = i) (settled_set code (clock w1)) (the_db w1)"
  let ?w2 = "w1\<lparr>the_db := ?d\<rparr>"
  note same = core_jobs[OF e(2)]
  have "jobs ?d = map (\<lambda>j. if jo_id job = Some (j_id j) then settled_set code (clock w) j else j) (jobs (the_db w))"
    using same(1,2) by (auto simp: frame_simps update_where_def split: option.split)
  moreover have "settled_set code (clock w) j = (if code = 0
        then j\<lparr>j_status := Success, j_exit_code := Some 0, j_completed_at := Some (clock w)\<rparr>
        else j\<lparr>j_status := (if j_retry_count j + 1 < j_max_retries j then Pending else Failed),
          j_retry_count := j_retry_count j + 1, j_exit_code := Some code,
          j_claimed_by := None, j_claimed_at := None\<rparr>)" for j
    by (simp add: settled_set_def completed_set_def failed_set_def)
  ultimately have jobs: "jobs (the_db ?w2) = map (\<lambda>j. if jo_id job = Some (j_id j)
      then if code = 0
        then j\<lparr>j_status := Success, j_exit_code := Some 0, j_completed_at := Some (clock w)\<rparr>
        else j\<lparr>j_status := (if j_retry_count j + 1 < j_max_retries j then Pending else Failed),
          j_retry_count := j_retry_count j + 1, j_exit_code := Some code,
          j_claimed_by := None, j_claimed_at := None\<rparr>
      else j) (jobs (the_db w))" by simp
  have round: "loop_round n rt http shj shw workerId w0 = (Done True, ?w2)"
    using assms(1,2) e(1) s by (simp add: loop_round_def try_catch_def loop_try_def seq_def is_aborted_def ret_def)
  have hooks: "webhooks_outbox (the_db ?w2) = webhooks_outbox (the_db w)"
    using e(2) by (auto simp: core_def frame_simps split: option.split)
  have idle: "code = 1 \<and> ?w2 = w" if "jo_id job = None"
    using e(1) that by (auto simp: execute_job_def execute_def try_catch_def ret_def)
  have exit: "code = 1 \<or> exit_of (rt_child rt (clock w) (jo_command job)) = Some code"
    if "jo_stage job \<noteq> lit ''deploy''"
    using plain_exit_code[OF e(1) assms(3) that] assms(4) by (auto simp: commands_end_def)
  show ?thesis
  proof (rule exI[of _ code], rule exI[of _ w1], rule exI[of _ ?w2], intro conjI)
    show "jo_id job = None \<longrightarrow> code = 1 \<and> ?w2 = w" by (rule impI) (rule idle)
    show "jo_stage job \<noteq> lit ''deploy'' \<longrightarrow>
       code = 1 \<or> exit_of (rt_child rt (clock w) (jo_command job)) = Some code" using exit by simp
  qed (rule e(1) s round jobs hooks)+
qed

theorem job_in_hand_is_settled_witness:
  "let w0 = demo_world [demo_job 3 1 Pending, demo_job 2 0 Pending]
   in \<exists>w2. loop_round 9 (demo_runtime [Close (Some 2)]) (\<lambda>_ _ _. Rejects) plain_rows plain_rows [] w0 = (Done True, w2) \<and>
     (\<forall>j \<in> set (jobs (the_db w2)). j_status j \<noteq> Running)"
proof -
  let ?start = "demo_world [demo_job 3 1 Pending, demo_job 2 0 Pending]"
  let ?rt = "demo_runtime [Close (Some 2)]"
  have w0: "script ?start = []" "distinct (map j_id (jobs (the_db ?start)))" "length ([] :: ustring) \<le> 100"
    by (simp_all add: demo_world_def demo_job_def)
  obtain j d' where j: "claimNextJob plain_rows [] ?start = (Done (Some (job_object_of j)), ?start\<lparr>the_db := d'\<rparr>)"
    and d': "set (jobs d') = insert (claim_set ([], clock ?start) j) (set (jobs (the_db ?start)) - {j})"
    and in_j: "j \<in> set (jobs (the_db ?start))"
    using w0
  proof (cases rule: claimNextJob_quiet)
    case none
    have "claimable c (jobs (the_db ?start)) (demo_job 2 0 Pending)" for c
      by (simp add: demo_world_def claimable_def earlier_step_def) (simp add: demo_job_def)
    moreover have "demo_job 2 0 Pending \<in> set (jobs (the_db ?start))" "row_locks (the_db ?start) = {}"
      by (simp_all add: demo_world_def empty_db_def)
    ultimately show thesis using none(2) by blast
  qed blast
  let ?held = "?start\<lparr>the_db := d'\<rparr>"
  have same: "x = j" if "x \<in> set (jobs (the_db ?start))" "j_id x = j_id j" for x
    using job_rows.key_unique[OF w0(2) that(1) in_j that(2)] .
  have pre: "claimNext plain_rows [] ?start = (Done (Some (job_object_of j)), ?held)" "\<not> aborted ?start" "script ?held = []"
    "commands_end ?rt (clock ?held)"
    using j by (simp_all add: claimNext_def) (simp_all add: demo_world_def commands_end_def demo_runtime_def)
  have "beats_now i ?held" if "jo_id (job_object_of j) = Some i" for i
    using that same by (auto simp: beats_now_def job_object_of_def d' claim_set.simps)
  from job_in_hand_is_settled[OF pre this, of 9 "\<lambda>_ _ _. Rejects" plain_rows] obtain w2 code where w2:
    "loop_round 9 ?rt (\<lambda>_ _ _. Rejects) plain_rows plain_rows [] ?start = (Done True, w2)"
    "jobs (the_db w2) = map (\<lambda>x. if jo_id (job_object_of j) = Some (j_id x) then if code = 0
        then x\<lparr>j_status := Success, j_exit_code := Some 0, j_completed_at := Some (clock ?held)\<rparr>
        else x\<lparr>j_status := (if j_retry_count x + 1 < j_max_retries x then Pending else Failed),
          j_retry_count := j_retry_count x + 1, j_exit_code := Some code, j_claimed_by := None,
          j_claimed_at := None\<rparr> else x) (jobs (the_db ?held))"
    by blast
  have "j_status x = Pending" if "x \<in> set (jobs (the_db ?start))" for x
    using that by (auto simp: demo_world_def demo_job_def)
  then have "\<forall>x \<in> set (jobs (the_db w2)). j_status x \<noteq> Running"
    using same by (auto simp: w2(2) job_object_of_def d')
  with w2(1) show ?thesis unfolding Let_def by blast
qed

section \<open>Results of the shape rows and count\<close>

text \<open>
  Property C39.  When the database layer answers an UPDATE ... RETURNING with the pair of the
  rows and their number, every round takes that pair for a job: the job it claimed is never
  run, marked or logged and stays running, an empty queue looks like a job, and the outbox is
  never served.
\<close>

theorem rows_and_count_strands_jobs:
  assumes "script w = []" "\<not> aborted w" "distinct (map j_id (jobs (the_db w)))" "length workerId \<le> 100"
  shows "\<exists>w'. loop_round n rt http rows_and_count shw workerId w = (Done True, w') \<and>
    job_logs (the_db w') = job_logs (the_db w) \<and> webhooks_outbox (the_db w') = webhooks_outbox (the_db w) \<and>
    (jobs (the_db w') = jobs (the_db w) \<or>
     (\<exists>j \<in> set (jobs (the_db w)). j_status j = Pending \<and>
        set (jobs (the_db w')) = insert (claim_set (workerId, clock w) j) (set (jobs (the_db w)) - {j})))"
proof -
  obtain got d' where s: "sql_claim_next_job workerId (clock w) (the_db w) = Inr (got, d')"
    using claim_done[of workerId "clock w" "the_db w"] assms(4)
    by (cases "sql_claim_next_job workerId (clock w) (the_db w)") auto
  let ?w1 = "w\<lparr>the_db := d'\<rparr>"
  have q: "script ?w1 = []" using assms(1) by simp
  have "loop_round n rt http rows_and_count shw workerId w = (Done True, ?w1)"
    using assms(1,2) by (simp add: loop_round_def try_catch_def loop_try_def seq_def is_aborted_def claimNext_def
        claimNextJob_def query_quiet s rows_and_count_def ret_def execute_job_def execute_def settle_job_def
        markFailed_def sql_mark_failed_def update_jobs_def no_row_jobs no_row_filter)
  moreover have "job_logs d' = job_logs (the_db w) \<and> webhooks_outbox d' = webhooks_outbox (the_db w) \<and>
    (jobs d' = jobs (the_db w) \<or> (\<exists>j \<in> set (jobs (the_db w)). j_status j = Pending \<and>
        set (jobs d') = insert (claim_set (workerId, clock w) j) (set (jobs (the_db w)) - {j})))"
    using assms(3) s
  proof (cases rule: claim_statement_keyed)
    case (one j)
    have "job_logs d' = job_logs (the_db w)" "webhooks_outbox d' = webhooks_outbox (the_db w)"
      by (simp_all add: one(6) frame_simps)
    with one(1,2,7) show ?thesis by (auto simp: claimable_def)
  qed simp
  ultimately show ?thesis by (intro exI[of _ ?w1]) simp
qed

theorem rows_and_count_strands_jobs_witness:
  "\<exists>w'. loop_round 9 (demo_runtime [Close (Some 0)]) (\<lambda>_ _ _. Rejects) rows_and_count rows_and_count []
      (demo_world [demo_job 2 0 Pending]) = (Done True, w') \<and>
    job_logs (the_db w') = job_logs (the_db (demo_world [demo_job 2 0 Pending]))"
  using rows_and_count_strands_jobs[of "demo_world [demo_job 2 0 Pending]" "[]" 9
      "demo_runtime [Close (Some 0)]" "\<lambda>_ _ _. Rejects" rows_and_count]
  by (auto simp: demo_world_def)

end
