(* ===== verification/Lifecycle.thy ===== *)
theory Lifecycle
  imports WorkerFacts
begin

text \<open>
  Starting and stopping the worker's loop and the lock service
  (\<open>onModuleInit\<close> and \<open>onModuleDestroy\<close> of src/src/worker/worker.service.ts, \<open>getPool\<close> and
  \<open>onModuleDestroy\<close> of src/src/locks/deployment-lock.service.ts), and what of a worker is left
  after it: no connection that is checked out, whatever interfered, and no advisory lock.
\<close>

section \<open>The worker's loop\<close>

text \<open>\<open>if (process.env.RUN_WORKER_LOOP !== 'true') return; this.loopPromise = this.runLoop()\<close>\<close>

definition worker_onModuleInit :: "ustring option \<Rightarrow> unit act \<Rightarrow> unit act option" where
  "worker_onModuleInit run_worker_loop loop =
     (if run_worker_loop \<noteq> Some (lit ''true'') then None else Some loop)"

text \<open>\<open>process.env.WORKER_ID || process.env.HOSTNAME || `worker-...`\<close>; an empty text is falsy.\<close>

definition workerId_of :: "ustring option \<Rightarrow> ustring option \<Rightarrow> ustring \<Rightarrow> ustring" where
  "workerId_of worker_id hostname random =
     (case worker_id of
        Some (c # cs) \<Rightarrow> c # cs
      | _ \<Rightarrow> (case hostname of Some (c # cs) \<Rightarrow> c # cs | _ \<Rightarrow> lit ''worker-'' @ random))"

text \<open>
  \<open>loopPromise\<close> is what of the loop is still to run, as far as it gets within the two seconds
  of the race: \<open>Hangs\<close> when it has not returned by then, and the timer wins.
\<close>

definition worker_onModuleDestroy :: "unit act option \<Rightarrow> unit act" where
  "worker_onModuleDestroy loopPromise w =
     (let w1 = w\<lparr>aborted := True\<rparr> in
      case loopPromise of
        None \<Rightarrow> (Done (), w1)
      | Some rest \<Rightarrow> (case rest w1 of (Hangs, w2) \<Rightarrow> (Done (), w2) | r \<Rightarrow> r))"

section \<open>The lock service\<close>

text \<open>The pool, once it exists, as the sessions it has opened.\<close>

record lock_service =
  lock_database_url :: "ustring option"
  lock_pool :: "session set option"

definition lock_getPool :: "lock_service \<Rightarrow> js_error + lock_service" where
  "lock_getPool svc = (case lock_pool svc of
      Some ss \<Rightarrow> Inr svc
    | None \<Rightarrow> (case lock_database_url svc of
        None \<Rightarrow> Inl Type_Error
      | Some url \<Rightarrow> Inr (svc\<lparr>lock_pool := Some {}\<rparr>)))"

text \<open>\<open>tryAcquire\<close> with the pool it takes its client from.\<close>

definition service_tryAcquire ::
  "(ustring \<Rightarrow> int) \<Rightarrow> session \<Rightarrow> ustring \<Rightarrow> uuid option \<Rightarrow> lock_service \<Rightarrow>
     acquire_result act \<times> lock_service" where
  "service_tryAcquire hashtext sess environment run svc =
     (case lock_getPool svc of
        Inl e \<Rightarrow> (throw e, svc)
      | Inr svc1 \<Rightarrow> (tryAcquire hashtext sess environment run,
          svc1\<lparr>lock_pool := map_option (insert sess) (lock_pool svc1)\<rparr>))"

text \<open>
  \<open>await this.pool.end()\<close> waits for the clients that are checked out, then every session of
  the pool ends.
\<close>

definition lock_onModuleDestroy :: "lock_service \<Rightarrow> world \<Rightarrow> unit outcome \<times> lock_service \<times> world" where
  "lock_onModuleDestroy svc w = (case lock_pool svc of
      None \<Rightarrow> (Done (), svc, w)
    | Some ss \<Rightarrow>
        if clients w \<inter> ss \<noteq> {} then (Hangs, svc, w)
        else (Done (), svc\<lparr>lock_pool := None\<rparr>,
          w\<lparr>the_db := (the_db w)\<lparr>advisory :=
              filter (\<lambda>(s, k). s \<notin> ss) (advisory (the_db w))\<rparr>\<rparr>))"

section \<open>No client stays checked out\<close>

text \<open>
  \<open>gives_back C m\<close>: whatever interferes, when \<open>m\<close> comes to an end the process has the same
  clients checked out as before.
\<close>

definition gives_back :: "session set \<Rightarrow> 'a act \<Rightarrow> bool" where
  "gives_back C m \<longleftrightarrow>
     (\<forall>w. clients w = C \<longrightarrow> fst (m w) = Hangs \<or> clients (snd (m w)) = C)"

named_theorems gives_back_intros

lemma gives_backD:
  "gives_back C m \<Longrightarrow> clients w = C \<Longrightarrow> m w = (x, w') \<Longrightarrow> x = Hangs \<or> clients w' = C"
  unfolding gives_back_def by (metis fst_conv snd_conv)

lemma gives_back_ret [gives_back_intros]: "gives_back C (ret x)"
  and gives_back_throw [gives_back_intros]: "gives_back C (throw e)"
  and gives_back_hang [gives_back_intros]: "gives_back C hang"
  and gives_back_is_aborted [gives_back_intros]: "gives_back C is_aborted"
  by (simp_all add: gives_back_def ret_def throw_def hang_def is_aborted_def)

lemma gives_back_seq [gives_back_intros]:
  assumes "gives_back C m" "\<And>x. gives_back C (k x)"
  shows "gives_back C (seq m k)"
  unfolding gives_back_def
proof (intro allI impI)
  fix w :: world assume w: "clients w = C"
  obtain x w1 where m: "m w = (x, w1)" by fastforce
  from gives_backD[OF assms(1) w m] show "fst (seq m k w) = Hangs \<or> clients (snd (seq m k w)) = C"
    using assms(2) by (cases x) (auto simp: seq_def m gives_back_def)
qed

lemma gives_back_try_catch [gives_back_intros]:
  assumes "gives_back C m" "gives_back C h"
  shows "gives_back C (try_catch m h)"
  unfolding gives_back_def
proof (intro allI impI)
  fix w :: world assume w: "clients w = C"
  obtain x w1 where m: "m w = (x, w1)" by fastforce
  from gives_backD[OF assms(1) w m] show "fst (try_catch m h w) = Hangs \<or> clients (snd (try_catch m h w)) = C"
    using assms(2) by (cases x) (auto simp: try_catch_def m gives_back_def)
qed

lemma gives_back_ignore_error [gives_back_intros]:
  "gives_back C m \<Longrightarrow> gives_back C (ignore_error m)"
  unfolding ignore_error_def by (intro gives_back_intros)

lemma gives_back_if [gives_back_intros]:
  "gives_back C m \<Longrightarrow> gives_back C n \<Longrightarrow> gives_back C (if b then m else n)"
  by simp

lemma gives_back_case_option [gives_back_intros]:
  "gives_back C m \<Longrightarrow> (\<And>x. gives_back C (k x)) \<Longrightarrow>
     gives_back C (case v of None \<Rightarrow> m | Some x \<Rightarrow> k x)"
  by (cases v) simp_all

lemma elapse_clients: "elapse w = (f, w1) \<Longrightarrow> clients w1 = clients w"
  by (auto simp: elapse_def split: list.splits)

lemma query_clients: "query st w = (x, w1) \<Longrightarrow> clients w1 = clients w"
proof -
  assume a: "query st w = (x, w1)"
  obtain f w2 where e: "elapse w = (f, w2)" by fastforce
  have "clients (snd (query st w)) = clients w2"
    by (simp add: query_def e split: sum.split)
  with a elapse_clients[OF e] show ?thesis by simp
qed

lemma gives_back_query [gives_back_intros]: "gives_back C (query st)"
  unfolding gives_back_def by (metis query_clients prod.collapse)

lemma gives_back_sleep [gives_back_intros]: "gives_back C sleep"
  unfolding gives_back_def sleep_def by (metis elapse_clients prod.collapse snd_conv)

lemma gives_back_fetch [gives_back_intros]: "gives_back C (fetch http url body)"
  unfolding gives_back_def
proof (intro allI impI)
  fix w :: world assume w: "clients w = C"
  obtain f w1 where e: "elapse w = (f, w1)" by fastforce
  with w elapse_clients[OF e]
  show "fst (fetch http url body w) = Hangs \<or> clients (snd (fetch http url body w)) = C"
    by (simp add: fetch_def split: fetch_reply.split)
qed

lemma client_query_clients: "client_query sess st w = (x, w1) \<Longrightarrow> clients w1 = clients w"
proof -
  assume a: "client_query sess st w = (x, w1)"
  obtain y w2 where q: "query st w = (y, w2)" by fastforce
  have "clients (snd (client_query sess st w)) = clients w2"
    by (simp add: client_query_def q split: outcome.split js_error.split)
  with a query_clients[OF q] show ?thesis by simp
qed

lemmas service_defs =
  appendLog_def log_line_def claimNext_def claimNextJob_def tick_def updateHeartbeat_def
  markCompleted_def markFailed_def claimNextWebhook_def markWebhookProcessed_def
  markWebhookFailed_def

lemma gives_back_logs [gives_back_intros]:
  "gives_back C (appendLog fmt i line lvl)" "gives_back C (log_line rt j line' lvl')"
  "gives_back C (log_lines rt j lvl' ls)" "gives_back C (tick i')"
proof -
  show *: "gives_back C (log_line rt j line' lvl')" for line'
    unfolding service_defs by (intro gives_back_intros)
  show "gives_back C (log_lines rt j lvl' ls)"
    by (induction ls) (auto intro!: gives_back_intros *)
  show "gives_back C (appendLog fmt i line lvl)"
    unfolding service_defs by (intro gives_back_intros)
  show "gives_back C (tick i')"
    unfolding service_defs by (rule gives_back_query)
qed

lemma gives_back_run_child: "gives_back C (run_child rt i es out err settled)"
proof (induction rt i es out err settled rule: run_child.induct)
  case (1 rt i out err settled)
  show ?case by (cases settled) (simp_all add: gives_back_intros)
next
  case (2 rt i chunk es out err settled)
  obtain ls out' where l: "lb_write out chunk = (ls, out')" by fastforce
  show ?case using 2[OF l[symmetric]] by (simp add: l) (intro gives_back_intros)
next
  case (3 rt i chunk es out err settled)
  obtain ls err' where l: "lb_write err chunk = (ls, err')" by fastforce
  show ?case using 3[OF l[symmetric]] by (simp add: l) (intro gives_back_intros)
next
  case (4 rt i es out err settled)
  then show ?case by (cases settled) (simp_all, intro gives_back_intros)
next
  case (5 rt i code es out err settled)
  obtain ls out' where o: "lb_flush out = (ls, out')" by fastforce
  obtain ls' err' where e: "lb_flush err = (ls', err')" by fastforce
  show ?case using 5[OF refl o[symmetric] e[symmetric]] by (simp add: o e) (intro gives_back_intros)
next
  case (6 rt i m es out err settled)
  obtain ls out' where o: "lb_flush out = (ls, out')" by fastforce
  obtain ls' err' where e: "lb_flush err = (ls', err')" by fastforce
  show ?case using 6[OF refl o[symmetric] e[symmetric]] by (simp add: o e) (intro gives_back_intros)
qed

lemma gives_back_command [gives_back_intros]: "gives_back C (run_command rt i command workerId)"
proof -
  have "gives_back C (spawn_child rt i command)"
    using gives_back_run_child[of C rt i] by (simp add: gives_back_def spawn_child_def)
  then show ?thesis unfolding run_command_def by (intro gives_back_intros)
qed

text \<open>The acquisition is the exception: it ends with a client if, and only if, it succeeds.\<close>

lemma tryAcquire_clients:
  assumes "tryAcquire hashtext s env run w = (x, w1)" "s \<notin> clients w"
  shows "x = Hangs \<or> (if \<exists>r. x = Done r \<and> acquired r
      then x = Done \<lparr>acquired = True, release = Release s env\<rparr> \<and> clients w1 = insert s (clients w)
      else clients w1 = clients w)"
proof -
  let ?lck = "client_query s (sql_try_lock s (hashtext (LOCK_PREFIX @ env)))"
  let ?ins = "case run of None \<Rightarrow> ret () | Some r \<Rightarrow> client_query s (sql_insert_deployment_lock env r)"
  obtain f w2 where e: "elapse w = (f, w2)" by fastforce
  have w2: "clients w2 = clients w" by (rule elapse_clients[OF e])
  have undo: "insert s (clients w) - {s} = clients w" using assms(2) by blast
  show ?thesis
  proof (cases "f = Delivered")
    case False
    with assms(1) w2 show ?thesis
      by (auto simp: tryAcquire_def Let_def seq_def pool_connect_def e)
  next
    case True
    let ?w2 = "w2\<lparr>clients := insert s (clients w2)\<rparr>"
    obtain y w3 where t: "?lck ?w2 = (y, w3)" by fastforce
    have w3: "clients w3 = insert s (clients w)" using client_query_clients[OF t] w2 by simp
    obtain z w4 where i: "?ins w3 = (z, w4)" by fastforce
    have w4: "clients w4 = clients w3"
      using i client_query_clients[of s "sql_insert_deployment_lock env (the run)" w3 z w4]
      by (cases run) (auto simp: ret_def)
    let ?rel = "\<lambda>w'. w'\<lparr>clients := clients w' - {s}\<rparr>"
    have "tryAcquire hashtext s env run w = (case y of
        Done b \<Rightarrow> if b then (case z of Done _ \<Rightarrow> (Done \<lparr>acquired = True, release = Release s env\<rparr>, w4)
            | Threw e \<Rightarrow> (Threw e, ?rel w4) | Hangs \<Rightarrow> (Hangs, w4))
          else (Done \<lparr>acquired = False, release = No_Release\<rparr>, ?rel w3)
      | Threw e \<Rightarrow> (Threw e, ?rel w3) | Hangs \<Rightarrow> (Hangs, w3))"
      using True by (simp add: tryAcquire_def Let_def seq_def pool_connect_def e t i
          release_and_rethrow_def client_release_def ret_def throw_def split: outcome.split)
    moreover have "clients (?rel w4) = clients w" "clients (?rel w3) = clients w"
      using w3 w4 undo by simp_all
    ultimately show ?thesis
      using assms(1) w3 w4 by (simp split: outcome.splits if_splits)
  qed
qed

lemma run_release_clients:
  assumes "run_release hashtext (Release s env) w = (x, w1)" "clients w = insert s C" "s \<notin> C"
  shows "x = Hangs \<or> clients w1 = C"
proof -
  let ?del = "client_query s (sql_delete_deployment_lock env)"
  let ?un = "client_query s (sql_unlock s (hashtext (LOCK_PREFIX @ env)))"
  obtain y w2 where d: "?del w = (y, w2)" by fastforce
  obtain z w3 where u: "?un w2 = (z, w3)" by fastforce
  have c: "clients w2 = insert s C" "clients w3 = insert s C"
    using client_query_clients[OF d] client_query_clients[OF u] assms(2) by simp_all
  have "insert s C - {s} = C" using assms(3) by blast
  with assms(1) c show ?thesis
    by (cases y; cases z)
      (auto simp: try_finally_def seq_def d u client_release_def ret_def throw_def)
qed

lemma try_finally_end:
  assumes "m w = (y, w2)" "f w2 = (z, w3)"
  shows "fst (try_finally m f w) = Hangs \<or> y \<noteq> Hangs \<and> z \<noteq> Hangs \<and> snd (try_finally m f w) = w3"
  using assms by (cases y; cases z) (simp_all add: try_finally_def seq_def ret_def throw_def)

lemma gives_back_execute:
  assumes "rt_session rt \<notin> C"
  shows "gives_back C (execute rt job workerId)"
proof (cases "jo_id job = None \<or> jo_stage job \<noteq> lit ''deploy''")
  case True
  then show ?thesis by (auto simp: execute_def intro: gives_back_intros split: option.split)
next
  case False
  then obtain i where i: "jo_id job = Some i" "jo_stage job = lit ''deploy''" by auto
  let ?s = "rt_session rt" and ?h = "rt_hashtext rt" and ?env = "guessDeployEnvironment (jo_command job)"
  let ?body = "seq (appendLog (rt_format rt) (Some i) (lit ''Acquired deploy lock for '' @ ?env) (lit ''info''))
      (\<lambda>_. run_command rt i (jo_command job) workerId)"
  show ?thesis
    unfolding gives_back_def
  proof (intro allI impI)
    fix w :: world assume w: "clients w = C"
    obtain x w1 where t: "tryAcquire ?h ?s ?env (jo_pipeline_run_id job) w = (x, w1)" by fastforce
    consider (held) "x = Done \<lparr>acquired = True, release = Release ?s ?env\<rparr>" "clients w1 = insert ?s C"
      | (hangs) "x = Hangs" | (threw) e where "x = Threw e" "clients w1 = C"
      | (busy) r where "x = Done r" "\<not> acquired r" "clients w1 = C"
      using tryAcquire_clients[OF t] assms w by (cases x) (auto split: if_splits)
    then show "fst (execute rt job workerId w) = Hangs \<or> clients (snd (execute rt job workerId w)) = C"
    proof cases
      case held
      have e: "execute rt job workerId w = try_finally ?body (run_release ?h (Release ?s ?env)) w1"
        by (simp add: execute_def i Let_def seq_def t held(1) del: run_release.simps)
      obtain y w2 where b: "?body w1 = (y, w2)" by fastforce
      have "gives_back (insert ?s C) ?body" by (intro gives_back_intros)
      from gives_backD[OF this held(2) b] have y: "y = Hangs \<or> clients w2 = insert ?s C" .
      obtain z w3 where r: "run_release ?h (Release ?s ?env) w2 = (z, w3)" by fastforce
      show ?thesis
        using y run_release_clients[OF r _ assms] try_finally_end[of ?body w1 y w2 "run_release ?h (Release ?s ?env)" z w3, OF b r] unfolding e
        by blast
    next
      case (busy r)
      have "gives_back C (seq (appendLog (rt_format rt) (Some i)
          (lit ''Deploy lock busy for '' @ ?env @ lit ''; skipping'') (lit ''warn'')) (\<lambda>_. ret EX_TEMPFAIL))"
        by (intro gives_back_intros)
      with busy show ?thesis
        by (simp add: execute_def i Let_def seq_def t gives_back_def)
    qed (simp_all add: execute_def i Let_def seq_def t)
  qed
qed

lemma gives_back_drain: "gives_back C (drain_outbox n sh http)"
proof (induction n)
  case (Suc n)
  have "gives_back C (processOneWebhook sh http)"
    unfolding processOneWebhook_def service_defs by (intro gives_back_intros)
  with Suc show ?case by (auto intro!: gives_back_intros)
qed (simp add: gives_back_hang)

lemma gives_back_loop:
  assumes "rt_session rt \<notin> C"
  shows "gives_back C (runLoop n rt http shj shw workerId)"
proof (induction n)
  case (Suc n)
  have "gives_back C (loop_round n rt http shj shw workerId)"
    unfolding loop_round_def loop_try_def loop_catch_def service_defs execute_job_def settle_job_def
    by (intro gives_back_intros gives_back_execute gives_back_drain assms)
  with Suc show ?case by (auto intro!: gives_back_intros)
qed (simp add: gives_back_hang)

section \<open>Shutting down\<close>

text \<open>
  Property C21.  A worker whose loop has returned has given back every connection it took for
  a deploy, whatever went wrong on the way: ending the pool therefore does not wait, and it
  frees every advisory lock the worker's sessions may still hold (a lock that leaked into the
  pool included), and no lock of anybody else.
\<close>

theorem shutdown_frees_locks:
  assumes "runLoop n rt http shj shw workerId w = (Done (), w1)"
    and "clients w = {}" "lock_pool svc = Some ss"
  shows "\<exists>w2. lock_onModuleDestroy svc w1 = (Done (), svc\<lparr>lock_pool := None\<rparr>, w2) \<and>
    (\<forall>s k. holds_lock (advisory (the_db w2)) s k \<longleftrightarrow>
       s \<notin> ss \<and> holds_lock (advisory (the_db w1)) s k) \<and>
    the_db w2 = (the_db w1)\<lparr>advisory := advisory (the_db w2)\<rparr>"
proof -
  have "gives_back {} (runLoop n rt http shj shw workerId)"
    by (rule gives_back_loop) simp
  from gives_backD[OF this assms(2,1)] have "clients w1 = {}" by simp
  then show ?thesis
    by (auto simp: lock_onModuleDestroy_def assms(3) holds_lock_def)
qed

theorem shutdown_frees_locks_witness:
  "let w = (demo_world [])\<lparr>clients := {}, script := [\<lparr>ev_other = id, ev_now = 8, ev_fate = Lost_Reply, ev_abort = True\<rparr>]\<rparr>;
       svc = \<lparr>lock_database_url = Some [], lock_pool = Some {1}\<rparr>
   in \<exists>w1 w2. runLoop 5 (demo_runtime []) (\<lambda>_ _ _. Rejects) plain_rows plain_rows [] w = (Done (), w1) \<and>
     lock_onModuleDestroy svc w1 = (Done (), svc\<lparr>lock_pool := None\<rparr>, w2) \<and>
     (\<forall>s k. holds_lock (advisory (the_db w2)) s k \<longleftrightarrow>
        s \<notin> {1} \<and> holds_lock (advisory (the_db w1)) s k) \<and>
     the_db w2 = (the_db w1)\<lparr>advisory := advisory (the_db w2)\<rparr>"
proof -
  let ?w = "(demo_world [])\<lparr>clients := {}, script := [\<lparr>ev_other = id, ev_now = 8, ev_fate = Lost_Reply, ev_abort = True\<rparr>]\<rparr>"
  have "\<exists>w1. runLoop 5 (demo_runtime []) (\<lambda>_ _ _. Rejects) plain_rows plain_rows [] ?w = (Done (), w1)"
    by (auto simp: numeral_eq_Suc seq_def is_aborted_def demo_world_def loop_round_def try_catch_def
        loop_try_def claimNext_def claimNextJob_def query_def elapse_def loop_catch_def ret_def
        sql_claim_next_job_def claim_row_def pick_row_def empty_db_def)
  then obtain w1 where r: "runLoop 5 (demo_runtime []) (\<lambda>_ _ _. Rejects) plain_rows plain_rows [] ?w =
      (Done (), w1)" by blast
  show ?thesis
    unfolding Let_def using shutdown_frees_locks[OF r, of "\<lparr>lock_database_url = Some [], lock_pool = Some {1}\<rparr>" "{1}"] r
    by auto
qed

lemma stays_aborted_query [simp]: "stays aborted (query st)"
proof -
  have "aborted (snd (query st w))" if "aborted w" for w
  proof -
    obtain f w1 where e: "elapse w = (f, w1)" by fastforce
    with that have "aborted w1" by (auto simp: elapse_def split: list.splits)
    then show ?thesis by (simp add: query_def e split: sum.split)
  qed
  then show ?thesis by (simp add: stays_def)
qed

lemma stays_aborted_logs [simp]:
  "stays aborted (appendLog fmt i line lvl)" "stays aborted (log_line rt j line' lvl')"
  "stays aborted (log_lines rt j lvl' ls)" "stays aborted (ignore_error (tick i'))"
  "stays aborted (tick i')"
proof -
  show *: "stays aborted (log_line rt j line' lvl')" for line'
    unfolding service_defs by (intro stays_intros stays_aborted_query)
  show "stays aborted (log_lines rt j lvl' ls)"
    by (induction ls) (auto intro!: stays_intros *)
  show "stays aborted (appendLog fmt i line lvl)"
    unfolding service_defs by (intro stays_intros stays_aborted_query)
  show *: "stays aborted (tick i')"
    unfolding service_defs by (rule stays_aborted_query)
  show "stays aborted (ignore_error (tick i'))" by (intro stays_intros *)
qed

lemma stays_aborted_command: "stays aborted (run_command rt i command workerId)"
proof -
  have "stays aborted (run_child rt i es out err settled)" for i es out err settled
    by (induction rt i es out err settled rule: run_child.induct)
      (auto intro!: stays_intros split: prod.split option.split)
  then have "stays aborted (spawn_child rt i command)"
    by (simp add: stays_def spawn_child_def)
  then show ?thesis unfolding run_command_def by (intro stays_intros stays_aborted_logs)
qed

lemma stays_aborted_client: "stays aborted (client_query s st)"
proof -
  have "aborted (snd (client_query s st w))" if "aborted w" for w
  proof -
    obtain x w1 where q: "query st w = (x, w1)" by fastforce
    then have "aborted w1" using staysD[OF stays_aborted_query that] by blast
    then show ?thesis by (simp add: client_query_def q split: outcome.split js_error.split)
  qed
  then show ?thesis by (simp add: stays_def)
qed

lemma stays_aborted_locks:
  "stays aborted (tryAcquire hashtext s env run)" "stays aborted (run_release hashtext f)"
proof -
  have c: "stays aborted (client_release s')" for s'
    by (simp add: stays_def client_release_def)
  have r: "stays aborted (release_and_rethrow s m)" if "stays aborted m" for m :: "'b act"
    using that by (auto simp: stays_def release_and_rethrow_def seq_def client_release_def throw_def
        split: prod.split outcome.split)
  have p: "stays aborted (pool_connect s)"
    by (auto simp: stays_def pool_connect_def elapse_def split: list.split)
  show "stays aborted (tryAcquire hashtext s env run)"
    unfolding tryAcquire_def Let_def
    by (intro stays_intros r p c stays_aborted_client)
  show "stays aborted (run_release hashtext f)"
    by (cases f) (auto intro!: stays_intros c stays_aborted_client)
qed

lemma stays_aborted_execute: "stays aborted (execute_job rt j workerId)"
  unfolding execute_job_def execute_def Let_def
  by (intro stays_intros stays_aborted_locks stays_aborted_command stays_aborted_logs)

lemma execute_job_not_threw: "execute_job rt j workerId w \<noteq> (Threw e, w')"
  by (auto simp: execute_job_def try_catch_def ret_def split: prod.splits outcome.splits)

text \<open>What is left of the loop while it executes job \<open>j\<close> in a round with \<open>n\<close> more to come.\<close>

definition rest_of_loop ::
  "nat \<Rightarrow> runtime \<Rightarrow> net \<Rightarrow> job shape \<Rightarrow> webhook_outbox shape \<Rightarrow> ustring \<Rightarrow> job_object \<Rightarrow> unit act" where
  "rest_of_loop n rt http shj shw workerId j =
     seq (try_catch
           (seq (execute_job rt j workerId) (\<lambda>exitCode.
            seq (settle_job j exitCode) (\<lambda>_.
            ret True)))
           loop_catch)
       (\<lambda>go. if go then runLoop n rt http shj shw workerId else ret ())"

text \<open>
  Shutting the worker down always succeeds and claims nothing more: between two
  jobs the loop returns without another statement, and in the middle of a job the worker
  waits for it to be executed and marked, and for nothing after it; if the command does not
  end in time the job stays as it is then, for the reclaim to find.
\<close>

theorem worker_shutdown:
  assumes "wa = w\<lparr>aborted := True\<rparr>"
  shows "worker_onModuleDestroy
      (worker_onModuleInit env (runLoop (Suc n) rt http shj shw workerId)) w = (Done (), wa) \<and>
    worker_onModuleDestroy (Some (rest_of_loop (Suc n) rt http shj shw workerId j)) w =
      (Done (), case execute_job rt j workerId wa of
         (Done code, w1) \<Rightarrow> snd (settle_job j code w1)
       | (_, w1) \<Rightarrow> w1)"
proof
  have l: "runLoop (Suc n) rt http shj shw workerId v = (Done (), v)" if "aborted v" for v
    using that by (simp add: seq_def is_aborted_def ret_def)
  show "worker_onModuleDestroy
      (worker_onModuleInit env (runLoop (Suc n) rt http shj shw workerId)) w = (Done (), wa)"
    using l[of wa] by (simp add: worker_onModuleDestroy_def worker_onModuleInit_def assms Let_def
        del: runLoop.simps)
  obtain x w1 where x: "execute_job rt j workerId wa = (x, w1)" by fastforce
  have a1: "aborted w1"
    using staysD[OF stays_aborted_execute _ x] by (simp add: assms)
  show "worker_onModuleDestroy (Some (rest_of_loop (Suc n) rt http shj shw workerId j)) w =
      (Done (), case execute_job rt j workerId wa of
         (Done code, w1) \<Rightarrow> snd (settle_job j code w1)
       | (_, w1) \<Rightarrow> w1)"
  proof (cases x)
    case (Done code)
    obtain st :: "unit stmt" where st: "settle_job j code = query st"
      by (cases "code = 0") (auto simp: settle_job_def markCompleted_def markFailed_def)
    obtain y w2 where y: "settle_job j code w1 = (y, w2)" by fastforce
    with st query_not_hangs have "y \<noteq> Hangs" by metis
    moreover have "aborted w2"
      using staysD[OF stays_aborted_query a1, of st] y st by simp
    ultimately show ?thesis
      using x y l[of w2]
      by (cases y) (simp_all add: worker_onModuleDestroy_def rest_of_loop_def seq_def try_catch_def
          loop_catch_def is_aborted_def ret_def assms[symmetric] Done Let_def del: runLoop.simps)
  qed (use x execute_job_not_threw in \<open>auto simp: worker_onModuleDestroy_def rest_of_loop_def seq_def
      try_catch_def assms[symmetric] Let_def\<close>)
qed

theorem worker_shutdown_witness:
  "let w = demo_world []; wa = w\<lparr>aborted := True\<rparr>; rt = demo_runtime [Close (Some 0)]
   in worker_onModuleDestroy (worker_onModuleInit (Some (lit ''true''))
        (runLoop (Suc 3) rt (\<lambda>_ _ _. Rejects) plain_rows plain_rows [])) w = (Done (), wa) \<and>
      worker_onModuleDestroy (Some (rest_of_loop (Suc 3) rt (\<lambda>_ _ _. Rejects) plain_rows plain_rows []
          demo_deploy)) w =
        (Done (), case execute_job rt demo_deploy [] wa of
           (Done code, w1) \<Rightarrow> snd (settle_job demo_deploy code w1)
         | (_, w1) \<Rightarrow> w1)"
  unfolding Let_def by (rule worker_shutdown[OF refl])

end
