(* ===== verification/Wiring.thy ===== *)
theory Wiring
  imports Lifecycle LogService TriggerFacts
begin

text \<open>
  How the application is put together and started: the classes with what their constructors
  ask for, the modules that provide them (the *.module.ts files), the data source
  (src/src/database/database.module.ts) and \<open>bootstrap\<close> (src/src/main.ts).  The container of
  Nest is a parameter; what it is documented to do with modules is the locale \<open>injector\<close>.
\<close>

section \<open>The classes\<close>

datatype cls =
    AppController | AppService | DatabaseSeedService | LogStreamService | SSEController
  | JobClaimerService | HeartbeatService | WorkerService | JobExecutorService | JobQueueService
  | WebhookQueueService | PipelinesService | PipelinesController | GitWebhookController
  | RunsController | RunsService | DashboardService | DashboardController
  | DeploymentLockService | ConfigService | DataSource

text \<open>What the constructor takes, and which of the two lifecycle methods the class has.\<close>

record class_def =
  needs :: "cls list"
  has_init :: bool
  has_destroy :: bool

definition plain_class :: "cls list \<Rightarrow> class_def" where
  "plain_class ds = \<lparr>needs = ds, has_init = False, has_destroy = False\<rparr>"

definition AppController_class :: class_def where
  "AppController_class = plain_class [AppService]"

definition AppService_class :: class_def where
  "AppService_class = plain_class []"

definition DatabaseSeedService_class :: class_def where
  "DatabaseSeedService_class = \<lparr>needs = [DataSource], has_init = True, has_destroy = False\<rparr>"

definition LogStreamService_class :: class_def where
  "LogStreamService_class =
     \<lparr>needs = [ConfigService, DataSource], has_init = True, has_destroy = True\<rparr>"

definition SSEController_class :: class_def where
  "SSEController_class = plain_class [LogStreamService]"

definition JobClaimerService_class :: class_def where
  "JobClaimerService_class = plain_class [JobQueueService]"

definition HeartbeatService_class :: class_def where
  "HeartbeatService_class = \<lparr>needs = [JobQueueService], has_init = True, has_destroy = True\<rparr>"

definition WorkerService_class :: class_def where
  "WorkerService_class =
     \<lparr>needs = [JobClaimerService, JobExecutorService, JobQueueService, WebhookQueueService],
      has_init = True, has_destroy = True\<rparr>"

definition JobExecutorService_class :: class_def where
  "JobExecutorService_class = plain_class [HeartbeatService, DeploymentLockService, LogStreamService]"

definition JobQueueService_class :: class_def where
  "JobQueueService_class = plain_class [DataSource]"

definition WebhookQueueService_class :: class_def where
  "WebhookQueueService_class = plain_class [DataSource]"

definition PipelinesService_class :: class_def where
  "PipelinesService_class = plain_class [DataSource]"

definition PipelinesController_class :: class_def where
  "PipelinesController_class = plain_class [PipelinesService]"

definition GitWebhookController_class :: class_def where
  "GitWebhookController_class = plain_class [PipelinesService, RunsService]"

definition RunsController_class :: class_def where
  "RunsController_class = plain_class [RunsService]"

definition RunsService_class :: class_def where
  "RunsService_class = plain_class [DataSource, PipelinesService, JobQueueService]"

definition DashboardService_class :: class_def where
  "DashboardService_class = plain_class [DataSource]"

definition DashboardController_class :: class_def where
  "DashboardController_class = plain_class [DashboardService]"

definition DeploymentLockService_class :: class_def where
  "DeploymentLockService_class = \<lparr>needs = [ConfigService], has_init = False, has_destroy = True\<rparr>"

fun class_of :: "cls \<Rightarrow> class_def" where
  "class_of AppController = AppController_class"
| "class_of AppService = AppService_class"
| "class_of DatabaseSeedService = DatabaseSeedService_class"
| "class_of LogStreamService = LogStreamService_class"
| "class_of SSEController = SSEController_class"
| "class_of JobClaimerService = JobClaimerService_class"
| "class_of HeartbeatService = HeartbeatService_class"
| "class_of WorkerService = WorkerService_class"
| "class_of JobExecutorService = JobExecutorService_class"
| "class_of JobQueueService = JobQueueService_class"
| "class_of WebhookQueueService = WebhookQueueService_class"
| "class_of PipelinesService = PipelinesService_class"
| "class_of PipelinesController = PipelinesController_class"
| "class_of GitWebhookController = GitWebhookController_class"
| "class_of RunsController = RunsController_class"
| "class_of RunsService = RunsService_class"
| "class_of DashboardService = DashboardService_class"
| "class_of DashboardController = DashboardController_class"
| "class_of DeploymentLockService = DeploymentLockService_class"
| "class_of ConfigService = plain_class []"
| "class_of DataSource = plain_class []"

lemmas class_defs =
  plain_class_def AppController_class_def AppService_class_def DatabaseSeedService_class_def
  LogStreamService_class_def SSEController_class_def JobClaimerService_class_def
  HeartbeatService_class_def WorkerService_class_def JobExecutorService_class_def
  JobQueueService_class_def WebhookQueueService_class_def PipelinesService_class_def
  PipelinesController_class_def GitWebhookController_class_def RunsController_class_def
  RunsService_class_def DashboardService_class_def DashboardController_class_def
  DeploymentLockService_class_def

section \<open>The modules\<close>

text \<open>
  The last two are the global modules of the libraries: \<open>ConfigModule.forRoot\<close> with
  \<open>isGlobal\<close>, and the core of TypeOrmModule, which makes the data source available everywhere.
\<close>

datatype nest_module =
    AppModule | DatabaseModule | LocksModule | PipelinesModule | RunsModule | WebhooksModule
  | StreamingModule | WorkerModule | DashboardModule | ConfigModule | TypeOrmModule

record module_def =
  m_imports :: "nest_module list"
  m_controllers :: "cls list"
  m_providers :: "cls list"
  m_exports :: "cls list"

definition app_module :: module_def where
  "app_module = \<lparr>
     m_imports = [ConfigModule, DatabaseModule, LocksModule, PipelinesModule, RunsModule,
       WebhooksModule, StreamingModule, WorkerModule, DashboardModule],
     m_controllers = [AppController], m_providers = [AppService], m_exports = []\<rparr>"

definition database_module :: module_def where
  "database_module = \<lparr>m_imports = [TypeOrmModule], m_controllers = [],
     m_providers = [DatabaseSeedService], m_exports = []\<rparr>"

definition locks_module :: module_def where
  "locks_module = \<lparr>m_imports = [], m_controllers = [],
     m_providers = [DeploymentLockService], m_exports = [DeploymentLockService]\<rparr>"

definition pipelines_module :: module_def where
  "pipelines_module = \<lparr>m_imports = [], m_controllers = [PipelinesController],
     m_providers = [PipelinesService], m_exports = [PipelinesService]\<rparr>"

definition runs_module :: module_def where
  "runs_module = \<lparr>m_imports = [PipelinesModule], m_controllers = [RunsController],
     m_providers = [RunsService, JobQueueService], m_exports = [RunsService]\<rparr>"

definition webhooks_module :: module_def where
  "webhooks_module = \<lparr>m_imports = [PipelinesModule, RunsModule],
     m_controllers = [GitWebhookController], m_providers = [], m_exports = []\<rparr>"

definition streaming_module :: module_def where
  "streaming_module = \<lparr>m_imports = [], m_controllers = [SSEController],
     m_providers = [LogStreamService], m_exports = [LogStreamService]\<rparr>"

definition worker_module :: module_def where
  "worker_module = \<lparr>m_imports = [LocksModule, StreamingModule], m_controllers = [],
     m_providers = [HeartbeatService, JobQueueService, WebhookQueueService, JobExecutorService,
       JobClaimerService, WorkerService],
     m_exports = [HeartbeatService, JobQueueService, WebhookQueueService, JobExecutorService,
       JobClaimerService, WorkerService]\<rparr>"

definition dashboard_module :: module_def where
  "dashboard_module = \<lparr>m_imports = [], m_controllers = [DashboardController],
     m_providers = [DashboardService], m_exports = []\<rparr>"

definition library_module :: "cls list \<Rightarrow> module_def" where
  "library_module cs = \<lparr>m_imports = [], m_controllers = [], m_providers = cs, m_exports = cs\<rparr>"

fun module_of :: "nest_module \<Rightarrow> module_def" where
  "module_of AppModule = app_module"
| "module_of DatabaseModule = database_module"
| "module_of LocksModule = locks_module"
| "module_of PipelinesModule = pipelines_module"
| "module_of RunsModule = runs_module"
| "module_of WebhooksModule = webhooks_module"
| "module_of StreamingModule = streaming_module"
| "module_of WorkerModule = worker_module"
| "module_of DashboardModule = dashboard_module"
| "module_of ConfigModule = library_module [ConfigService]"
| "module_of TypeOrmModule = library_module [DataSource]"

lemmas module_defs =
  app_module_def database_module_def locks_module_def pipelines_module_def runs_module_def
  webhooks_module_def streaming_module_def worker_module_def dashboard_module_def
  library_module_def

definition global_modules :: "nest_module list" where
  "global_modules = [ConfigModule, TypeOrmModule]"

text \<open>The modules the container finds from the root.\<close>

inductive loaded :: "nest_module \<Rightarrow> bool" where
  Root: "loaded AppModule"
| Import: "loaded m \<Longrightarrow> n \<in> set (m_imports (module_of m)) \<Longrightarrow> loaded n"

text \<open>
  \<open>resolve m c\<close>: the instance a class of module \<open>m\<close> is given for \<open>c\<close>, named by the module that
  holds it.  A module has one instance of each of its own providers; otherwise it is given
  what an imported module, or a global one, exports.
\<close>

locale injector =
  fixes resolve :: "nest_module \<Rightarrow> cls \<Rightarrow> (nest_module \<times> cls) option"
  assumes own: "c \<in> set (m_providers (module_of m)) \<Longrightarrow> resolve m c = Some (m, c)"
    and imported: "c \<notin> set (m_providers (module_of m)) \<Longrightarrow>
      n \<in> set (m_imports (module_of m) @ global_modules) \<Longrightarrow> c \<in> set (m_exports (module_of n)) \<Longrightarrow>
      \<exists>n' \<in> set (m_imports (module_of m) @ global_modules).
        c \<in> set (m_exports (module_of n')) \<and> resolve m c = Some (n', c)"
begin

lemma only_exporter:
  assumes "c \<notin> set (m_providers (module_of m))"
    and "n \<in> set (m_imports (module_of m) @ global_modules)" "c \<in> set (m_exports (module_of n))"
    and "\<And>k. c \<in> set (m_exports (module_of k)) \<Longrightarrow> k = n"
  shows "resolve m c = Some (n, c)"
  using imported[OF assms(1-3)] assms(4) by auto

end

text \<open>What looking into the imports in their order gives.\<close>

definition nest_resolve :: "nest_module \<Rightarrow> cls \<Rightarrow> (nest_module \<times> cls) option" where
  "nest_resolve m c =
     (if c \<in> set (m_providers (module_of m)) then Some (m, c)
      else map_option (\<lambda>n. (n, c))
        (find (\<lambda>n. c \<in> set (m_exports (module_of n))) (m_imports (module_of m) @ global_modules)))"

lemma find_Some_mem: "find P xs = Some x \<Longrightarrow> P x \<and> x \<in> set xs"
  by (induction xs) (auto split: if_splits)

interpretation nest: injector nest_resolve
proof
  fix c m n
  assume *: "c \<notin> set (m_providers (module_of m))"
    "n \<in> set (m_imports (module_of m) @ global_modules)" "c \<in> set (m_exports (module_of n))"
  then obtain n' where n': "find (\<lambda>n. c \<in> set (m_exports (module_of n)))
      (m_imports (module_of m) @ global_modules) = Some n'"
    by (metis (no_types, lifting) find_None_iff not_None_eq)
  with *(1) find_Some_mem[OF n'] show "\<exists>n' \<in> set (m_imports (module_of m) @ global_modules).
      c \<in> set (m_exports (module_of n')) \<and> nest_resolve m c = Some (n', c)"
    by (intro bexI[of _ n']) (simp_all add: nest_resolve_def)
qed (simp add: nest_resolve_def)

section \<open>Every class gets what it asks for\<close>

text \<open>The order the instances can be made in.\<close>

fun cls_rank :: "cls \<Rightarrow> nat" where
  "cls_rank ConfigService = 0"
| "cls_rank DataSource = 0"
| "cls_rank AppService = 0"
| "cls_rank JobQueueService = 1"
| "cls_rank WebhookQueueService = 1"
| "cls_rank LogStreamService = 1"
| "cls_rank DeploymentLockService = 1"
| "cls_rank DatabaseSeedService = 1"
| "cls_rank PipelinesService = 1"
| "cls_rank DashboardService = 1"
| "cls_rank HeartbeatService = 2"
| "cls_rank JobClaimerService = 2"
| "cls_rank RunsService = 2"
| "cls_rank JobExecutorService = 3"
| "cls_rank _ = 4"

text \<open>The classes of a module: what it declares.\<close>

definition declares :: "nest_module \<Rightarrow> cls list" where
  "declares m = m_controllers (module_of m) @ m_providers (module_of m)"

lemma all_loaded: "loaded m"
proof -
  have 1: "loaded n" if "n \<in> set (m_imports app_module)" for n
    using Import[OF Root] that by simp
  then have "loaded DatabaseModule" by (simp add: app_module_def)
  then have "loaded TypeOrmModule" by (rule Import) (simp add: database_module_def)
  with 1 Root show ?thesis by (cases m rule: nest_module.exhaust) (simp_all add: app_module_def)
qed

lemma exporter:
  "c \<in> set (m_exports (module_of k)) \<longleftrightarrow>
    (c = DeploymentLockService \<and> k = LocksModule) \<or> (c = PipelinesService \<and> k = PipelinesModule) \<or>
    (c = RunsService \<and> k = RunsModule) \<or> (c = LogStreamService \<and> k = StreamingModule) \<or>
    (c \<in> set (m_exports worker_module) \<and> k = WorkerModule) \<or>
    (c = ConfigService \<and> k = ConfigModule) \<or> (c = DataSource \<and> k = TypeOrmModule)"
  by (cases k) (auto simp: module_defs)

lemma exporter_unique:
  "c \<in> set (m_exports (module_of k)) \<Longrightarrow> c \<in> set (m_exports (module_of n)) \<Longrightarrow> k = n"
  unfolding exporter by (auto simp: worker_module_def)

lemma exports_provided: "c \<in> set (m_exports (module_of k)) \<Longrightarrow> c \<in> set (m_providers (module_of k))"
  unfolding exporter by (auto simp: module_defs)

text \<open>What is asked for is there: provided by the module, or exported by one it can see.\<close>

definition can_see :: "nest_module \<Rightarrow> cls \<Rightarrow> bool" where
  "can_see m d \<longleftrightarrow> d \<in> set (m_providers (module_of m)) \<or>
     (\<exists>n \<in> set (m_imports (module_of m) @ global_modules). d \<in> set (m_exports (module_of n)))"

lemma needs_seen: "c \<in> set (declares m) \<Longrightarrow> d \<in> set (needs (class_of c)) \<Longrightarrow> can_see m d"
  by (cases m)
    (auto simp: declares_def can_see_def global_modules_def module_defs class_defs)

lemma needs_rank: "d \<in> set (needs (class_of c)) \<Longrightarrow> cls_rank d < cls_rank c"
  by (cases c) (auto simp: class_defs)

text \<open>
  The application can be put together: whatever container keeps to the
  documented rules, every constructor of every class of every module gets an instance of each
  class it asks for, held by a loaded module that provides it, and no class depends on itself
  in a cycle.
\<close>

theorem dependencies_resolved:
  assumes "injector resolve" "c \<in> set (declares m)" "d \<in> set (needs (class_of c))"
  shows "\<exists>n. resolve m d = Some (n, d) \<and> loaded n \<and> d \<in> set (m_providers (module_of n)) \<and>
    cls_rank d < cls_rank c"
proof (cases "d \<in> set (m_providers (module_of m))")
  case True
  then show ?thesis using injector.own[OF assms(1) True] needs_rank[OF assms(3)] all_loaded by blast
next
  case False
  with needs_seen[OF assms(2,3)] obtain n where
    n: "n \<in> set (m_imports (module_of m) @ global_modules)" "d \<in> set (m_exports (module_of n))"
    by (auto simp: can_see_def)
  then have "resolve m d = Some (n, d)"
    using injector.only_exporter[OF assms(1) False n] exporter_unique[OF _ n(2)] by blast
  then show ?thesis using exports_provided[OF n(2)] needs_rank[OF assms(3)] all_loaded by blast
qed

theorem dependencies_resolved_witness:
  "\<exists>n. nest_resolve WorkerModule LogStreamService = Some (n, LogStreamService) \<and> loaded n \<and>
    LogStreamService \<in> set (m_providers (module_of n)) \<and>
    cls_rank LogStreamService < cls_rank JobExecutorService"
  by (rule dependencies_resolved[OF nest.injector_axioms])
    (simp_all add: declares_def worker_module_def JobExecutorService_class_def plain_class_def)

text \<open>
  The services with a state of their own exist once in a process, whatever the
  container: the executor logs to the service whose stream the endpoints subscribe to, all
  deploys take their locks from one pool, one reclaim loop runs; only the job queue, which
  keeps its state in the database, has two instances, one behind the API and one behind the
  worker.
\<close>

theorem stateful_services_shared:
  assumes "injector resolve" "c \<in> set (declares m)" "d \<in> set (needs (class_of c))"
    and "c' \<in> set (declares m')" "d \<in> set (needs (class_of c'))"
  shows "resolve m d = resolve m' d \<or>
    (d = JobQueueService \<and> {resolve m d, resolve m' d} =
       {Some (RunsModule, JobQueueService), Some (WorkerModule, JobQueueService)})"
proof -
  obtain n where n: "resolve m d = Some (n, d)" "d \<in> set (m_providers (module_of n))"
    using dependencies_resolved[OF assms(1-3)] by blast
  obtain n' where n': "resolve m' d = Some (n', d)" "d \<in> set (m_providers (module_of n'))"
    using dependencies_resolved[OF assms(1,4,5)] by blast
  have "n = n' \<or> (d = JobQueueService \<and> {n, n'} = {RunsModule, WorkerModule})"
    using n(2) n'(2) by (cases n; cases n') (auto simp: module_defs)
  then show ?thesis using n(1) n'(1) by auto
qed

theorem stateful_services_shared_witness:
  "nest_resolve WorkerModule LogStreamService = nest_resolve StreamingModule LogStreamService"
  using stateful_services_shared[OF nest.injector_axioms, of JobExecutorService WorkerModule
      LogStreamService SSEController StreamingModule]
  by (simp add: declares_def module_defs class_defs)

section \<open>The data source\<close>

datatype entity = Pipeline | PipelineRun | Job | JobLog | DeploymentLock | WebhookOutbox

record orm_options =
  orm_type :: ustring
  orm_url :: "ustring option"
  orm_entities :: "entity list"
  orm_synchronize :: bool

text \<open>The factory in database.module.ts; \<open>config\<close> is \<open>ConfigService.get\<close>.\<close>

definition orm_factory :: "(ustring \<Rightarrow> ustring option) \<Rightarrow> orm_options" where
  "orm_factory config =
     \<lparr>orm_type = lit ''postgres'', orm_url = config (lit ''DATABASE_URL''),
      orm_entities = [Pipeline, PipelineRun, Job, JobLog, DeploymentLock, WebhookOutbox],
      orm_synchronize = (config (lit ''SYNC_DATABASE'') = Some (lit ''true''))\<rparr>"

text \<open>No entity of the schema is left out.\<close>

lemma entities_all: "set (orm_entities (orm_factory config)) = UNIV"
  using entity.exhaust by (auto simp: orm_factory_def)

section \<open>Starting a process\<close>

text \<open>
  A process: its services with state, the worker's loop if it was started, the port it
  listens on, what it has printed, and whether signals run the lifecycle methods.
\<close>

record process =
  p_logs :: log_service
  p_heartbeat :: heartbeat_service
  p_loop :: "unit act option"
  p_port :: "ustring option"
  p_console :: "ustring list"
  p_shutdown_hooks :: bool

definition new_process :: "ustring option \<Rightarrow> process" where
  "new_process url = \<lparr>p_logs = new_log_service url, p_heartbeat = new_heartbeat_service,
     p_loop = None, p_port = None, p_console = [], p_shutdown_hooks = False\<rparr>"

text \<open>\<open>onModuleInit\<close> of the instance of a class, where the class has it.\<close>

definition on_module_init ::
  "(ustring \<Rightarrow> ustring option) \<Rightarrow> connection \<Rightarrow> unit act \<Rightarrow> cls \<Rightarrow> process \<Rightarrow> world \<Rightarrow>
     unit outcome \<times> process \<times> world" where
  "on_module_init env conn loop c p w =
     (case c of
        DatabaseSeedService \<Rightarrow>
          (case seedOnModuleInit (env (lit ''SYNC_DATABASE'') = Some (lit ''true'')) w of
             (r, w') \<Rightarrow> (r, p, w'))
      | LogStreamService \<Rightarrow>
          (case log_onModuleInit (env (lit ''SYNC_DATABASE'')) conn (p_logs p) w of
             (r, s, w') \<Rightarrow> (r, p\<lparr>p_logs := s\<rparr>, w'))
      | HeartbeatService \<Rightarrow>
          (Done (), p\<lparr>p_heartbeat := heartbeatOnModuleInit (p_heartbeat p)\<rparr>, w)
      | WorkerService \<Rightarrow>
          (Done (), p\<lparr>p_loop := worker_onModuleInit (env (lit ''RUN_WORKER_LOOP'')) loop\<rparr>, w)
      | _ \<Rightarrow> (Done (), p, w))"

fun init_all ::
  "(ustring \<Rightarrow> ustring option) \<Rightarrow> connection \<Rightarrow> unit act \<Rightarrow> cls list \<Rightarrow> process \<Rightarrow> world \<Rightarrow>
     unit outcome \<times> process \<times> world" where
  "init_all env conn loop [] p w = (Done (), p, w)"
| "init_all env conn loop (c # cs) p w =
     (case on_module_init env conn loop c p w of
        (Done _, p', w') \<Rightarrow> init_all env conn loop cs p' w'
      | (r, p', w') \<Rightarrow> (r, p', w'))"

text \<open>
  \<open>bootstrap\<close>: Nest makes the instances, awaits their \<open>onModuleInit\<close> in some order \<open>order\<close>, and
  listens; an error of one of them is thrown by \<open>listen\<close>, before the two lines are printed.
  \<open>enableShutdownHooks\<close> is not called.
\<close>

definition bootstrap ::
  "(ustring \<Rightarrow> ustring option) \<Rightarrow> cls list \<Rightarrow> connection \<Rightarrow> unit act \<Rightarrow> world \<Rightarrow>
     unit outcome \<times> process \<times> world" where
  "bootstrap env order conn loop w =
     (let swaggerPath = case_option (lit ''docs'') id (env (lit ''SWAGGER_PATH''));
          port = case_option (lit ''3000'') id (env (lit ''PORT''));
          run_loop = case_option (lit ''undefined'') id (env (lit ''RUN_WORKER_LOOP''))
      in case init_all env conn loop order (new_process (env (lit ''DATABASE_URL''))) w of
           (Done _, p, w') \<Rightarrow> (Done (), p\<lparr>p_port := Some port, p_console := p_console p @
              [lit ''Swagger: http://localhost:'' @ port @ lit ''/'' @ swaggerPath,
               lit ''Worker loop run status: '' @ run_loop]\<rparr>, w')
         | (r, p, w') \<Rightarrow> (r, p, w'))"

section \<open>What a started process does\<close>

text \<open>The state of a process whose classes \<open>C\<close> have been initialised, in a database nobody else uses.\<close>

definition booted ::
  "(ustring \<Rightarrow> ustring option) \<Rightarrow> session \<Rightarrow> unit act \<Rightarrow> cls set \<Rightarrow> db \<Rightarrow> process \<Rightarrow> world \<Rightarrow> bool" where
  "booted env c loop C d p w \<longleftrightarrow> script w = [] \<and>
     (let sync = (env (lit ''SYNC_DATABASE'') = Some (lit ''true''))
      in (sync \<and> DatabaseSeedService \<in> C \<longrightarrow>
            run_trigger (the_db w) \<and> pipelines (the_db w) \<noteq> [] \<and> pipeline_stats (the_db w) \<noteq> None) \<and>
         (sync \<and> LogStreamService \<in> C \<longrightarrow> log_trigger (the_db w)) \<and>
         (\<not> sync \<longrightarrow> the_db w = d) \<and> jobs (the_db w) = jobs d \<and>
         (if sync \<and> LogStreamService \<in> C then listening (p_logs p) = [c]
          else p_logs p = new_log_service (env (lit ''DATABASE_URL'')))) \<and>
     (if HeartbeatService \<in> C then map (\<lambda>i. (interval_ms i, timeout_seconds i)) (intervals (p_heartbeat p)) = [(15000, 30)]
      else p_heartbeat p = new_heartbeat_service) \<and>
     p_loop p = (if WorkerService \<in> C \<and> env (lit ''RUN_WORKER_LOOP'') = Some (lit ''true'') then Some loop else None) \<and>
     \<not> p_shutdown_hooks p"

lemma init_quiet:
  assumes "booted env c loop C d p w" "x \<notin> C" "env (lit ''DATABASE_URL'') = Some url"
  shows "\<exists>p' w'. on_module_init env (Connects c) loop x p w = (Done (), p', w') \<and>
    booted env c loop (insert x C) d p' w'"
proof -
  have q: "script w = []" using assms(1) by (simp add: booted_def)
  show ?thesis
  proof (cases x)
    case DatabaseSeedService
    show ?thesis
    proof (cases "env (lit ''SYNC_DATABASE'') = Some (lit ''true'')")
      case True
      obtain ps n where s: "seedOnModuleInit True w = (Done (), w\<lparr>the_db := seeded_view (clock w)
          ((the_db w)\<lparr>pipelines := pipelines (the_db w) @ ps, next_uuid := n\<rparr>)\<rparr>)"
        "length ps = (if pipelines (the_db w) = [] then 3 else 0)"
        using seed_quiet[OF q] by metis
      then show ?thesis using assms(1) True DatabaseSeedService
        by (auto simp: on_module_init_def booted_def Let_def seeded_view_def split: option.splits)
    next
      case False
      then show ?thesis using assms(1) DatabaseSeedService
        by (simp add: on_module_init_def booted_def Let_def seedOnModuleInit_def ret_def)
    qed
  next
    case LogStreamService
    then show ?thesis using assms q
      by (auto simp: on_module_init_def booted_def Let_def log_onModuleInit_def shouldRunTriggerDdl_def
          ensureNotifyTrigger_def seq_def query_quiet sql_xact_lock_def sql_install_log_trigger_def ret_def
          startListening_def log_getPool_def new_log_service_def attach_client_def)
  next
    case HeartbeatService
    then show ?thesis using assms
      by (simp add: on_module_init_def booted_def Let_def heartbeatOnModuleInit_def startReclaimLoop_def
          stopReclaimLoop_def new_heartbeat_service_def DEFAULT_RECLAIM_INTERVAL_MS_def DEFAULT_TIMEOUT_SECONDS_def)
  next
    case WorkerService
    then show ?thesis using assms by (simp add: on_module_init_def booted_def worker_onModuleInit_def Let_def)
  qed (use assms in \<open>simp_all add: on_module_init_def booted_def Let_def\<close>)
qed

lemma init_all_quiet:
  assumes "booted env c loop C d p w" "distinct cs" "set cs \<inter> C = {}" "env (lit ''DATABASE_URL'') = Some url"
  shows "\<exists>p' w'. init_all env (Connects c) loop cs p w = (Done (), p', w') \<and>
    booted env c loop (C \<union> set cs) d p' w'"
  using assms
proof (induction cs arbitrary: C p w)
  case (Cons x cs)
  have "x \<notin> C" using Cons.prems(3) by simp
  from init_quiet[OF Cons.prems(1) this Cons.prems(4)] obtain p1 w1
    where 1: "on_module_init env (Connects c) loop x p w = (Done (), p1, w1)"
      "booted env c loop (insert x C) d p1 w1" by blast
  then show ?case using Cons.IH[OF 1(2)] Cons.prems(2-4) by auto
qed simp

text \<open>
  Property C32.  What starting a process comes to, in whatever order the services are
  initialised: it listens on its port; with SYNC_DATABASE it has installed both triggers, the
  seed and the view, and listens for log lines, without it the database is as it was; every
  process reclaims jobs every 15 seconds; only one with RUN_WORKER_LOOP runs the worker's
  loop; and no process runs its shutdown methods on a signal.
\<close>

theorem boot_outcome:
  assumes "script w = []" "env (lit ''DATABASE_URL'') = Some url"
    and "distinct order" "\<forall>x. has_init (class_of x) \<longrightarrow> x \<in> set order"
  shows "\<exists>p w'. bootstrap env order (Connects c) loop w = (Done (), p, w') \<and>
    p_port p = Some (case_option (lit ''3000'') id (env (lit ''PORT''))) \<and>
    p_loop p = (if env (lit ''RUN_WORKER_LOOP'') = Some (lit ''true'') then Some loop else None) \<and>
    map (\<lambda>i. (interval_ms i, timeout_seconds i)) (intervals (p_heartbeat p)) = [(15000, 30)] \<and>
    \<not> p_shutdown_hooks p \<and> jobs (the_db w') = jobs (the_db w) \<and>
    (if env (lit ''SYNC_DATABASE'') = Some (lit ''true'')
     then run_trigger (the_db w') \<and> log_trigger (the_db w') \<and> pipelines (the_db w') \<noteq> [] \<and>
       pipeline_stats (the_db w') \<noteq> None \<and> listening (p_logs p) = [c]
     else the_db w' = the_db w \<and> listening (p_logs p) = [])"
proof -
  have "booted env c loop {} (the_db w) (new_process (env (lit ''DATABASE_URL''))) w"
    using assms(1) by (simp add: booted_def new_process_def Let_def)
  from init_all_quiet[OF this assms(3) _ assms(2)] obtain p w' where
    1: "init_all env (Connects c) loop order (new_process (env (lit ''DATABASE_URL''))) w = (Done (), p, w')"
    and "booted env c loop (set order) (the_db w) p w'"
    by auto
  moreover have "DatabaseSeedService \<in> set order" "LogStreamService \<in> set order"
    "HeartbeatService \<in> set order" "WorkerService \<in> set order"
    by (rule assms(4)[rule_format], simp add: class_defs)+
  ultimately show ?thesis
    by (auto simp: bootstrap_def Let_def booted_def new_log_service_def)
qed

definition compose_worker :: "ustring \<Rightarrow> ustring option" where
  "compose_worker = [lit ''DATABASE_URL'' \<mapsto> lit ''postgresql'', lit ''SYNC_DATABASE'' \<mapsto> lit ''false'',
     lit ''RUN_WORKER_LOOP'' \<mapsto> lit ''true'']"

theorem boot_outcome_witness:
  "let w = demo_world []; order = [WorkerService, LogStreamService, HeartbeatService, DatabaseSeedService] in
   \<exists>p. bootstrap compose_worker order (Connects 4) (ret ()) w = (Done (), p, w) \<and>
     p_port p = Some (lit ''3000'') \<and> p_loop p = Some (ret ()) \<and> listening (p_logs p) = []"
proof -
  let ?order = "[WorkerService, LogStreamService, HeartbeatService, DatabaseSeedService]"
  have order: "x \<in> set ?order" if "has_init (class_of x)" for x
    using that by (cases x) (simp_all add: class_defs)
  have env: "compose_worker (lit ''DATABASE_URL'') = Some (lit ''postgresql'')"
    "compose_worker (lit ''SYNC_DATABASE'') = Some (lit ''false'')"
    "compose_worker (lit ''RUN_WORKER_LOOP'') = Some (lit ''true'')"
    "compose_worker (lit ''PORT'') = None" "lit ''false'' \<noteq> lit ''true''"
    by (simp_all add: compose_worker_def lit_def)
  obtain p w' where b: "bootstrap compose_worker ?order (Connects 4) (ret ()) (demo_world []) = (Done (), p, w')"
    "p_port p = Some (lit ''3000'')" "p_loop p = Some (ret ())" "listening (p_logs p) = []"
    "the_db w' = the_db (demo_world [])"
    using boot_outcome[where w = "demo_world []" and env = compose_worker and order = ?order
        and c = 4 and loop = "ret ()"] order env by (auto simp: demo_world_def)
  moreover have "w' = demo_world []"
    using b(1) env by (simp add: bootstrap_def on_module_init_def log_onModuleInit_def Let_def
        shouldRunTriggerDdl_def ensureNotifyTrigger_def seedOnModuleInit_def ret_def)
  ultimately show ?thesis by (simp add: Let_def)
qed

text \<open>Whatever runs beside it, starting a process keeps the database sound.\<close>

lemma init_within:
  assumes "others db_step w" "on_module_init env conn loop c p w = (r, p', w')"
  shows "others db_step w' \<and> db_step\<^sup>*\<^sup>* (the_db w) (the_db w')"
proof -
  have seed: "others db_step (snd (seedOnModuleInit b w)) \<and> db_step\<^sup>*\<^sup>* (the_db w) (the_db (snd (seedOnModuleInit b w)))"
    and log: "others db_step (snd (ensureNotifyTrigger b w)) \<and> db_step\<^sup>*\<^sup>* (the_db w) (the_db (snd (ensureNotifyTrigger b w)))" for b
    using assms(1) ps.within_seed[of b] ps.within_logs(4)[of b] by (auto simp: within_def)
  from assms(2) show ?thesis
    using seed[of "env (lit ''SYNC_DATABASE'') = Some (lit ''true'')"]
      log[of "shouldRunTriggerDdl (env (lit ''SYNC_DATABASE''))"] assms(1)
    by (auto simp: on_module_init_def log_onModuleInit_def split: cls.splits prod.splits outcome.splits if_splits option.splits)
qed

lemma init_all_within:
  "others db_step w \<Longrightarrow> init_all env conn loop cs p w = (r, p', w') \<Longrightarrow>
   others db_step w' \<and> db_step\<^sup>*\<^sup>* (the_db w) (the_db w')"
proof (induction cs arbitrary: p w)
  case (Cons c cs)
  obtain r1 p1 w1 where 1: "on_module_init env conn loop c p w = (r1, p1, w1)"
    by (cases "on_module_init env conn loop c p w") auto
  note 2 = init_within[OF Cons.prems(1) 1]
  show ?case
  proof (cases r1)
    case (Done u)
    with Cons.prems(2) 1 have "init_all env conn loop cs p1 w1 = (r, p', w')" by simp
    with Cons.IH[of w1 p1] 2 show ?thesis by (meson rtranclp_trans)
  qed (use Cons.prems(2) 1 2 in auto)
qed simp

text \<open>
  Processes may start at any time: whatever the others do meanwhile, wherever
  the start fails, and in whatever order the services are initialised, a process that starts
  on a sound database leaves a sound one.
\<close>

theorem boot_sound:
  assumes "others db_step w" "sound (the_db w)" "bootstrap env order conn loop w = (r, p, w')"
  shows "sound (the_db w')"
proof -
  obtain r1 p1 where "init_all env conn loop order (new_process (env (lit ''DATABASE_URL''))) w = (r1, p1, w')"
    using assms(3) by (auto simp: bootstrap_def Let_def split: prod.splits outcome.splits)
  then have "db_step\<^sup>*\<^sup>* (the_db w) (the_db w')" using init_all_within[OF assms(1)] by blast
  then show ?thesis using assms(2) by (induction rule: rtranclp_induct) (auto intro: db_step_sound)
qed

end
