(* ===== verification/RunHistory.thy ===== *)
theory RunHistory
  imports JobTraces JobOrder TriggerFacts
begin

text \<open>
  The life of a run over whole traces: what the trigger function
  (src/src/database/database-seed.service.ts) does to a run is a small automaton over its
  status and its two times, whatever statements run in whatever order.  And what a worker that
  is faster than the inserts of \<open>triggerRun\<close> (src/src/api/runs/runs.service.ts) makes of it.
\<close>

section \<open>The life of a run\<close>

type_synonym life = "run_status \<times> timestamp option \<times> timestamp option"

definition life :: "pipeline_run \<Rightarrow> life" where
  "life r = (r_status r, r_started_at r, r_completed_at r)"

definition newborn :: life where
  "newborn = (Pending, None, None)"

inductive life_step :: "life \<Rightarrow> life \<Rightarrow> bool" where
  Runs: "s \<noteq> Running \<or> st = None \<Longrightarrow> life_step (s, st, c) (Running, coalesce st now, c)"
| Ends: "s' \<in> {Success, Failed} \<Longrightarrow> life_step (s, st, c) (s', st, coalesce c now)"

inductive_cases life_stepE: "life_step (s, st, c) l"

text \<open>What of a run never changes.\<close>

definition same_run :: "pipeline_run \<Rightarrow> pipeline_run \<Rightarrow> bool" where
  "same_run r r' \<longleftrightarrow> r_id r' = r_id r \<and> r_pipeline_id r' = r_pipeline_id r \<and>
     r_trigger_type r' = r_trigger_type r \<and> r_trigger_metadata r' = r_trigger_metadata r \<and>
     r_created_at r' = r_created_at r"

definition lives_on :: "pipeline_run \<Rightarrow> pipeline_run \<Rightarrow> bool" where
  "lives_on r r' \<longleftrightarrow> same_run r r' \<and> life_step\<^sup>*\<^sup>* (life r) (life r')"

lemma lives_on_refl [simp]: "lives_on r r"
  by (simp add: lives_on_def same_run_def)

lemma lives_on_trans: "lives_on r r' \<Longrightarrow> lives_on r' r'' \<Longrightarrow> lives_on r r''"
  by (auto simp: lives_on_def same_run_def)

lemma sync_row_lives: "lives_on r (sync_row now js r)"
proof -
  have "life_step (life r) (life (sync_row now js r)) \<or> sync_row now js r = r"
    by (auto simp: sync_row_def life_def intro: life_step.intros)
  then have "life_step\<^sup>*\<^sup>* (life r) (life (sync_row now js r))"
    by (metis r_into_rtranclp rtranclp.rtrancl_refl)
  moreover have "same_run r (sync_row now js r)" by (simp add: same_run_def sync_row_def)
  ultimately show ?thesis by (simp add: lives_on_def)
qed

text \<open>Every run of the new database was there before, or is new and started from \<open>newborn\<close>.\<close>

definition runs_live :: "db \<Rightarrow> db \<Rightarrow> bool" where
  "runs_live d d' \<longleftrightarrow> next_uuid d \<le> next_uuid d' \<and>
     (\<forall>r' \<in> set (pipeline_runs d'). (\<exists>r \<in> set (pipeline_runs d). lives_on r r') \<or>
        (next_uuid d \<le> r_id r' \<and> life_step\<^sup>*\<^sup>* newborn (life r')))"

lemma runs_live_same:
  "pipeline_runs d' = pipeline_runs d \<Longrightarrow> next_uuid d \<le> next_uuid d' \<Longrightarrow> runs_live d d'"
  unfolding runs_live_def by (metis lives_on_refl)

lemma runs_live_trans:
  assumes "runs_live d d'" "runs_live d' d''"
  shows "runs_live d d''"
  unfolding runs_live_def
proof (intro conjI ballI)
  show "next_uuid d \<le> next_uuid d''" using assms by (simp add: runs_live_def)
  fix r'' assume "r'' \<in> set (pipeline_runs d'')"
  with assms(2) consider (old) r' where "r' \<in> set (pipeline_runs d')" "lives_on r' r''"
    | (new) "next_uuid d' \<le> r_id r''" "life_step\<^sup>*\<^sup>* newborn (life r'')"
    unfolding runs_live_def by blast
  then show "(\<exists>r \<in> set (pipeline_runs d). lives_on r r'') \<or>
      (next_uuid d \<le> r_id r'' \<and> life_step\<^sup>*\<^sup>* newborn (life r''))"
  proof cases
    case old
    from assms(1) old(1) consider r where "r \<in> set (pipeline_runs d)" "lives_on r r'"
      | "next_uuid d \<le> r_id r'" "life_step\<^sup>*\<^sup>* newborn (life r')"
      unfolding runs_live_def by blast
    then show ?thesis
    proof cases
      case 1
      then show ?thesis using old(2) lives_on_trans by blast
    next
      case 2
      then show ?thesis using old(2) unfolding lives_on_def same_run_def
        by (metis rtranclp_trans)
    qed
  next
    case new
    then show ?thesis using assms(1) by (auto simp: runs_live_def)
  qed
qed

lemma sync_live: "runs_live d (sync_pipeline_run_status now i d)"
proof -
  have "\<exists>r0 \<in> set (pipeline_runs d). lives_on r0 r"
    if "r \<in> set (pipeline_runs (sync_pipeline_run_status now i d))" for r
    using that[unfolded sync_runs]
    by (cases rule: in_update_whereE) (auto intro: sync_row_lives lives_on_refl)
  then show ?thesis by (simp add: runs_live_def frame_simps)
qed

lemma fire_live: "runs_live d (fire_run_trigger now is d)"
proof -
  have "runs_live d (fold (sync_pipeline_run_status now) is d)"
    by (induction "is" arbitrary: d) (auto intro: runs_live_same runs_live_trans[OF sync_live])
  then show ?thesis by (simp add: fire_run_trigger_def runs_live_same)
qed

lemma update_jobs_live: "runs_live d (update_jobs now P f d)"
  unfolding update_jobs_def by (rule runs_live_trans[OF runs_live_same fire_live]) simp_all

lemma step_live: "sys_step d ids d' \<Longrightarrow> runs_live d d'"
proof (induction rule: sys_step.induct)
  case (Claim_Job workerId now d got d')
  from claim_statement[OF this] show ?case
    by (elim disjE exE conjE) (simp_all add: runs_live_same update_jobs_live)
next
  case (Insert_Job i st sn cmd p so sp now d j d')
  then have "d' = fire_run_trigger now [i] (d\<lparr>jobs := jobs d @ [j], next_uuid := next_uuid d + 1\<rparr>)"
    by (auto simp: sql_insert_job_def Let_def split: if_splits)
  then show ?case by (auto intro: runs_live_trans[OF runs_live_same fire_live])
next
  case (Insert_Run pl tt m now d r d')
  then have "pipeline_runs d' = pipeline_runs d @ [r]" "life r = newborn" "r_id r = next_uuid d"
    "next_uuid d' = next_uuid d + 1"
    by (auto simp: sql_insert_run_def Let_def life_def newborn_def split: if_splits)
  then show ?case unfolding runs_live_def by (auto intro: lives_on_refl)
next
  case (Delete_Pipeline pid now d k d')
  then have "set (pipeline_runs d') \<subseteq> set (pipeline_runs d)" "next_uuid d' = next_uuid d"
    by (auto simp: sql_delete_pipeline_def Let_def split: if_splits sum.splits)
  then show ?case unfolding runs_live_def by (auto intro: lives_on_refl)
qed (auto simp: sql_mark_completed_def sql_mark_failed_def sql_reclaim_stuck_jobs_def update_jobs_live
       sql_update_heartbeat_def sql_insert_pipeline_def sql_save_pipeline_def sql_insert_job_log_def
       pg_notify_def sql_install_log_trigger_def sql_install_run_trigger_def sql_try_lock_def sql_unlock_def
       sql_insert_deployment_lock_def sql_delete_deployment_lock_def sql_enqueue_notification_def
       sql_claim_next_webhook_def claim_row_def sql_mark_webhook_processed_def sql_mark_webhook_failed_def
       update_hook_def sql_create_matview_def sql_refresh_concurrently_def sql_refresh_def Let_def
     split: if_splits option.splits prod.splits sum.splits intro!: runs_live_same)

lemma steps_live: "db_step\<^sup>*\<^sup>* d d' \<Longrightarrow> runs_live d d'"
  by (induction rule: rtranclp_induct)
    (auto simp: db_step_def runs_live_same intro: runs_live_trans step_live)

section \<open>What the automaton keeps\<close>

lemma life_keeps:
  assumes "life_step\<^sup>*\<^sup>* l l'"
  shows "case (l, l') of ((s, st, c), (s', st', c')) \<Rightarrow>
    (st \<noteq> None \<longrightarrow> st' = st) \<and> (c \<noteq> None \<longrightarrow> c' = c) \<and>
    (s \<noteq> Pending \<longrightarrow> s' \<noteq> Pending) \<and> (s' = s \<and> st' = st \<and> c' = c \<or> s' \<in> {Running, Success, Failed})"
  using assms
proof (induction rule: rtranclp_induct)
  case base
  then show ?case by (simp split: prod.split)
next
  case (step l' l'')
  then show ?case by (auto simp: life_step.simps coalesce_def split: prod.splits option.splits)
qed

lemma life_of_newborn:
  assumes "life_step\<^sup>*\<^sup>* newborn (s, st, c)"
  shows "s \<noteq> Cancelled \<and> (s = Pending \<longrightarrow> st = None \<and> c = None) \<and> (s = Running \<longrightarrow> st \<noteq> None) \<and>
    (terminal s \<longrightarrow> c \<noteq> None)"
proof -
  have "case l of (s, st, c) \<Rightarrow> s \<noteq> Cancelled \<and> (s = Pending \<longrightarrow> st = None \<and> c = None) \<and>
      (s = Running \<longrightarrow> st \<noteq> None) \<and> (terminal s \<longrightarrow> c \<noteq> None)" if "life_step\<^sup>*\<^sup>* newborn l" for l
    using that
  proof (induction rule: rtranclp_induct)
    case base
    then show ?case by (simp add: newborn_def)
  next
    case (step l' l'')
    then show ?case by (auto simp: life_step.simps coalesce_def split: prod.splits option.splits)
  qed
  from this[OF assms] show ?thesis by simp
qed

text \<open>
  Property C10.  Over whole traces, whatever the processes do, a run's row moves along the
  automaton of its life and nothing else of it changes: once started_at or completed_at is set
  it is never changed again, a run that has left pending never returns to it, and it is never
  cancelled.
\<close>

theorem run_refines_life:
  assumes "db_step\<^sup>*\<^sup>* d d'" "sound d" "r \<in> set (pipeline_runs d)"
    and "r' \<in> set (pipeline_runs d')" "r_id r' = r_id r"
  shows "same_run r r' \<and> life_step\<^sup>*\<^sup>* (life r) (life r') \<and>
    (r_started_at r \<noteq> None \<longrightarrow> r_started_at r' = r_started_at r) \<and>
    (r_completed_at r \<noteq> None \<longrightarrow> r_completed_at r' = r_completed_at r) \<and>
    (r_status r \<noteq> Pending \<longrightarrow> r_status r' \<noteq> Pending) \<and>
    (r_status r' = Cancelled \<longrightarrow> r' = r)"
proof -
  have keys: "distinct (map r_id (pipeline_runs d))" "r_id r < next_uuid d"
    using soundD(1)[OF assms(2)] assms(3) by (auto simp: jobs_inv_def keys_ok_def)
  from steps_live[OF assms(1)] assms(4,5) keys(2)
  obtain r0 where r0: "r0 \<in> set (pipeline_runs d)" "lives_on r0 r'"
    by (auto simp: runs_live_def)
  then have "r0 = r"
    using keys(1) assms(3,5) by (auto simp: lives_on_def same_run_def distinct_map dest: inj_onD)
  with r0 have 1: "same_run r r'" "life_step\<^sup>*\<^sup>* (life r) (life r')" by (simp_all add: lives_on_def)
  from life_keeps[OF 1(2)] 1(1) have "r_status r' = Cancelled \<longrightarrow> r' = r"
    by (cases r; cases r') (auto simp: life_def same_run_def)
  with 1 life_keeps[OF 1(2)] show ?thesis by (simp add: life_def)
qed

text \<open>And from its creation: the phases of a run, in every reachable database.\<close>

theorem reachable_life:
  assumes "reachable d trace" "r \<in> set (pipeline_runs d)"
  shows "r_status r \<noteq> Cancelled \<and> (r_status r = Pending \<longrightarrow> r_started_at r = None \<and> r_completed_at r = None) \<and>
    (r_status r = Running \<longrightarrow> r_started_at r \<noteq> None) \<and> (terminal (r_status r) \<longrightarrow> r_completed_at r \<noteq> None)"
proof -
  have "\<exists>d0 now. d0 = initial_db now \<and> db_step\<^sup>*\<^sup>* d0 d"
    using assms(1) by (induction rule: reachable.induct) (auto intro: rtranclp.rtrancl_into_rtrancl db_stepI)
  then obtain now where "runs_live (initial_db now) d" using steps_live by blast
  then have "life_step\<^sup>*\<^sup>* newborn (life r)"
    using assms(2) by (auto simp: runs_live_def initial_db_fields)
  then show ?thesis using life_of_newborn[of "r_status r" "r_started_at r" "r_completed_at r"]
    by (simp add: life_def)
qed

section \<open>Workers faster than the inserts\<close>

text \<open>
  A run whose queued jobs have all ended is finished for the trigger, although
  more of its jobs are still to be inserted: the insert leaves it successful or failed with a
  job that waits, and completed_at keeps the time at which the first jobs had ended,
  whatever runs afterwards.
\<close>

theorem premature_success:
  assumes "sound d" "r \<in> set (pipeline_runs d)" "run_jobs d (r_id r) \<noteq> []"
    and "\<forall>j \<in> set (run_jobs d (r_id r)). terminal (j_status j)"
    and "sql_insert_job (r_id r) st sn cmd p so sp now d = Inr (k, d1)"
    and "db_step\<^sup>*\<^sup>* d1 d2" "r2 \<in> set (pipeline_runs d2)" "r_id r2 = r_id r"
  shows "r \<in> set (pipeline_runs d1) \<and> r_status r \<in> {Success, Failed} \<and>
    k \<in> set (run_jobs d1 (r_id r)) \<and> j_status k = Pending \<and>
    r_completed_at r \<noteq> None \<and> r_completed_at r2 = r_completed_at r"
proof -
  let ?d = "d\<lparr>jobs := jobs d @ [k], next_uuid := next_uuid d + 1\<rparr>"
  have k: "d1 = fire_run_trigger now [r_id r] ?d" "j_status k = Pending" "j_pipeline_run_id k = r_id r"
    using assms(5) by (auto simp: sql_insert_job_def Let_def split: if_splits)
  have fin: "r_status r \<in> {Success, Failed}" "r_completed_at r \<noteq> None"
    using soundD(5)[OF assms(1)] assms(2-4) by (auto simp: all_runs_synced_def run_synced_def)
  have "run_jobs ?d (r_id r) = run_jobs d (r_id r) @ [k]" using k(3) by (simp add: run_jobs_def)
  then have "sync_row now (run_jobs ?d (r_id r)) r = r"
    using assms(4) k(2) by (force simp: sync_row_def)
  then have r1: "r \<in> set (pipeline_runs d1)"
    using assms(2) unfolding k(1) fire_run_trigger_def
    by (auto simp: sync_runs set_update_where intro!: image_eqI[where x = r])
  have "k \<in> set (run_jobs d1 (r_id r))" using k by (simp add: run_jobs_def frame_simps)
  moreover have "sound d1"
    using assms(1,5) db_step_sound[OF db_stepI[OF Insert_Job]] by blast
  then have "r_completed_at r2 = r_completed_at r"
    using run_refines_life[OF assms(6) _ r1 assms(7,8)] fin(2) by simp
  ultimately show ?thesis using fin k(2) r1 by simp
qed

definition ended_db :: db where
  "ended_db = (let d = the_db (demo_world [demo_job 2 0 Success]) in
     d\<lparr>pipelines := [(demo_pipeline [])\<lparr>p_id := 0\<rparr>],
       pipeline_runs := map (\<lambda>r. r\<lparr>r_status := Success, r_completed_at := Some 0\<rparr>) (pipeline_runs d)\<rparr>)"

lemma ended_db_sound: "sound ended_db"
  by (simp add: ended_db_def demo_world_def demo_job_def demo_pipeline_def empty_db_def Let_def sound_def
      jobs_inv_def keys_ok_def job_ok_def refs_ok_def locks_exclusive_def al.exclusive_def holds_lock_def
      all_runs_synced_def run_synced_def run_jobs_def)

theorem premature_success_witness:
  "\<exists>r k d1 d2 r2. pipeline_runs ended_db = [r] \<and> sql_insert_job 1 [] [] [] 5 1 0 9 ended_db = Inr (k, d1) \<and>
     sql_mark_completed (Some (j_id k)) 0 99 d1 = Inr ((), d2) \<and> pipeline_runs d2 = [r2] \<and>
     r_status r = Success \<and> j_status k = Pending \<and> r_completed_at r2 = Some 0"
proof -
  obtain r where r: "pipeline_runs ended_db = [r]" "r_id r = 1" "r_status r = Success" "r_completed_at r = Some 0"
    by (simp add: ended_db_def demo_world_def Let_def)
  obtain k d1 where k: "sql_insert_job 1 [] [] [] 5 1 0 9 ended_db = Inr (k, d1)"
    using r(1,2) by (simp add: sql_insert_job_def fits_int4_def Let_def)
  obtain d2 where d2: "sql_mark_completed (Some (j_id k)) 0 99 d1 = Inr ((), d2)"
    by (simp add: sql_mark_completed_def)
  have "db_step d1 d2" using Mark_Completed[OF d2] by (rule db_stepI)
  moreover have "map r_id (pipeline_runs d2) = [1]"
    using r(1,2) k d2 by (auto simp: sql_mark_completed_def sql_insert_job_def Let_def frame_simps split: if_splits)
  then obtain r2 where r2: "pipeline_runs d2 = [r2]" "r_id r2 = 1" by (auto simp: map_eq_Cons_conv)
  have "run_jobs ended_db 1 = [demo_job 2 0 Success]"
    by (simp add: ended_db_def demo_world_def demo_job_def run_jobs_def Let_def)
  then have "j_status k = Pending \<and> r_completed_at r2 = r_completed_at r"
    using premature_success[OF ended_db_sound, of r "[]" "[]" "[]" 5 1 0 9 k d1 d2 r2] r k r2 calculation
    by (auto simp: demo_job_def)
  with r k d2 r2 show ?thesis by auto
qed

theorem run_refines_life_witness:
  "\<exists>d1 r r'. sql_mark_failed (Some 2) 1 9 ended_db = Inr ((), d1) \<and> r \<in> set (pipeline_runs ended_db) \<and>
     r' \<in> set (pipeline_runs d1) \<and> same_run r r' \<and> r_completed_at r' = Some 0"
proof -
  obtain r where r: "pipeline_runs ended_db = [r]" "r_id r = 1" "r_completed_at r = Some 0"
    by (simp add: ended_db_def demo_world_def Let_def)
  obtain d1 where d1: "sql_mark_failed (Some 2) 1 9 ended_db = Inr ((), d1)"
    by (simp add: sql_mark_failed_def)
  then have "map r_id (pipeline_runs d1) = [1]"
    using r(1,2) by (auto simp: sql_mark_failed_def frame_simps)
  then obtain r' where r': "pipeline_runs d1 = [r']" "r_id r' = 1" by (auto simp: map_eq_Cons_conv)
  have "db_step\<^sup>*\<^sup>* ended_db d1" using db_stepI[OF Mark_Failed[OF d1]] by blast
  from run_refines_life[OF this ended_db_sound, of r r'] r r' d1 show ?thesis by auto
qed

end
