(* ===== verification/Bodies.thy ===== *)
theory Bodies
  imports HttpFacts
begin

text \<open>
  Request bodies as they arrive.  No ValidationPipe is installed (src/src/main.ts), so the
  DTO types of src/src/dto are promises of the client: the controllers of pipelines and runs
  (src/src/api/pipelines/pipelines.controller.ts, src/src/api/runs/runs.controller.ts) hand on
  whatever object the body is.  Here the body is the list of its fields; the handlers are
  those of Pipelines and Runs on such a body, and agree with them on bodies of the promised type.

  TypeORM documents that \<open>create\<close> keeps the columns of the entity, \<open>id\<close> among them, and that
  \<open>save\<close> updates the row with that id, if there is one, and inserts one otherwise.  The
  answer of a handler is the id of the row it wrote.  Which times an overwritten row gets is the
  parameter \<open>stamp\<close>; what the raw driver makes of a value bound to a jsonb column is \<open>jsonb_of\<close>.
\<close>

type_synonym fields = "(ustring \<times> json) list"

definition field :: "fields \<Rightarrow> string \<Rightarrow> json option" where
  "field fs k = js_prop (JObj fs) k"

section \<open>Pipelines\<close>

text \<open>The id an entity has; undefined and null are none.\<close>

definition own_id :: "pg_driver \<Rightarrow> (ustring \<Rightarrow> path_id) \<Rightarrow> json option \<Rightarrow> db_error + uuid option" where
  "own_id b parse v = (case v of
      None \<Rightarrow> Inr None
    | Some JNull \<Rightarrow> Inr None
    | Some x \<Rightarrow> (case uuid_param (parse (text_of b x)) of Inl e \<Rightarrow> Inl e | Inr k \<Rightarrow> Inr (Some k)))"

text \<open>A value of a jsonb column: TypeORM sends its JSON text.\<close>

fun bind_json :: "json option \<Rightarrow> db_error + json" where
  "bind_json None = Inl Not_Null_Violation"
| "bind_json (Some JNull) = Inl Not_Null_Violation"
| "bind_json (Some v) = Inr v"

text \<open>The three columns a client writes, as texts that fit.\<close>

definition columns_of ::
  "db_error + ustring \<Rightarrow> db_error + ustring \<Rightarrow> db_error + json \<Rightarrow> db_error + ustring \<times> ustring \<times> json" where
  "columns_of name repository config =
     (case name of Inl e \<Rightarrow> Inl e | Inr n \<Rightarrow>
      case repository of Inl e \<Rightarrow> Inl e | Inr r \<Rightarrow>
      case config of Inl e \<Rightarrow> Inl e | Inr c \<Rightarrow>
        if length n > 255 \<or> length r > 500 then Inl String_Too_Long else Inr (n, r, c))"

text \<open>\<open>save\<close> of an entity that no row has the id of.\<close>

definition sql_insert_entity ::
  "pg_driver \<Rightarrow> uuid option \<Rightarrow> json option \<Rightarrow> json option \<Rightarrow> json option \<Rightarrow>
     (timestamp \<times> timestamp) option \<Rightarrow> uuid stmt" where
  "sql_insert_entity b i name repository config loaded now d =
     (case columns_of (bind_text b name) (bind_text b repository) (bind_json config) of
        Inl e \<Rightarrow> Inl e
      | Inr (n, r, c) \<Rightarrow>
          let k = (case i of None \<Rightarrow> next_uuid d | Some k \<Rightarrow> k);
              (created, updated) = (case loaded of None \<Rightarrow> (now, now) | Some t \<Rightarrow> t);
              p = \<lparr>p_id = k, p_name = n, p_repository = r, p_config = c,
                p_created_at = created, p_updated_at = updated\<rparr>
          in Inr (k, d\<lparr>pipelines := pipelines d @ [p], next_uuid := max (next_uuid d) (k + 1)\<rparr>))"

text \<open>
  \<open>save\<close> of an entity over the row \<open>q\<close>: a property that is undefined, or the value the row has,
  is no change; without a change nothing is written.
\<close>

definition sql_update_entity ::
  "pg_driver \<Rightarrow> pipeline \<Rightarrow> json option \<Rightarrow> json option \<Rightarrow> json option \<Rightarrow>
     (timestamp \<Rightarrow> timestamp \<times> timestamp) \<Rightarrow> uuid stmt" where
  "sql_update_entity b q name repository config stamp now d =
     (let same_name = (name \<in> {None, Some (JStr (p_name q))});
          same_repository = (repository \<in> {None, Some (JStr (p_repository q))});
          same_config = (config \<in> {None, Some (p_config q)})
      in if same_name \<and> same_repository \<and> same_config then Inr (p_id q, d)
         else (case columns_of (if same_name then Inr (p_name q) else bind_text b name)
             (if same_repository then Inr (p_repository q) else bind_text b repository)
             (if same_config then Inr (p_config q) else bind_json config) of
             Inl e \<Rightarrow> Inl e
           | Inr (n, r, c) \<Rightarrow> Inr (p_id q, d\<lparr>pipelines := update_where (\<lambda>p. p_id p = p_id q)
               (\<lambda>p. p\<lparr>p_name := n, p_repository := r, p_config := c,
                      p_created_at := fst (stamp now), p_updated_at := snd (stamp now)\<rparr>) (pipelines d)\<rparr>)))"

text \<open>\<open>this.repo.save(this.repo.create(dto))\<close>\<close>

definition sql_save_body :: "pg_driver \<Rightarrow> (ustring \<Rightarrow> path_id) \<Rightarrow> fields \<Rightarrow> uuid stmt" where
  "sql_save_body b parse fs now d =
     (case own_id b parse (field fs ''id'') of
        Inl e \<Rightarrow> Inl e
      | Inr i \<Rightarrow>
          (case find (\<lambda>q. Some (p_id q) = i) (pipelines d) of
             None \<Rightarrow> sql_insert_entity b i (field fs ''name'') (field fs ''repository'') (field fs ''config'')
               None now d
           | Some q \<Rightarrow> sql_update_entity b q (field fs ''name'') (field fs ''repository'') (field fs ''config'')
               (\<lambda>now. (p_created_at q, now)) now d))"

definition post_pipeline_body :: "pg_driver \<Rightarrow> (ustring \<Rightarrow> path_id) \<Rightarrow> fields \<Rightarrow> uuid act" where
  "post_pipeline_body b parse fs = query (sql_save_body b parse fs)"

text \<open>\<open>Object.assign(pipeline, dto)\<close> and \<open>save\<close>: every field of the body replaces the loaded one.\<close>

definition assigned :: "fields \<Rightarrow> string \<Rightarrow> json \<Rightarrow> json option" where
  "assigned fs k loaded = (case field fs k of None \<Rightarrow> Some loaded | Some v \<Rightarrow> Some v)"

definition sql_save_assigned ::
  "pg_driver \<Rightarrow> (ustring \<Rightarrow> path_id) \<Rightarrow>
     (pipeline \<Rightarrow> pipeline \<Rightarrow> timestamp \<Rightarrow> timestamp \<times> timestamp) \<Rightarrow> pipeline \<Rightarrow> fields \<Rightarrow> uuid stmt" where
  "sql_save_assigned b parse stamp p fs now d =
     (case (case field fs ''id'' of None \<Rightarrow> Inr (Some (p_id p)) | Some v \<Rightarrow> own_id b parse (Some v)) of
        Inl e \<Rightarrow> Inl e
      | Inr i \<Rightarrow>
          let name = assigned fs ''name'' (JStr (p_name p));
              repository = assigned fs ''repository'' (JStr (p_repository p));
              config = assigned fs ''config'' (p_config p)
          in (case find (\<lambda>q. Some (p_id q) = i) (pipelines d) of
                None \<Rightarrow> sql_insert_entity b i name repository config
                  (Some (p_created_at p, p_updated_at p)) now d
              | Some q \<Rightarrow> sql_update_entity b q name repository config (stamp p q) now d))"

definition patch_pipeline_body ::
  "pg_driver \<Rightarrow> (ustring \<Rightarrow> path_id) \<Rightarrow>
     (pipeline \<Rightarrow> pipeline \<Rightarrow> timestamp \<Rightarrow> timestamp \<times> timestamp) \<Rightarrow> path_id \<Rightarrow> fields \<Rightarrow> uuid act" where
  "patch_pipeline_body b parse stamp i fs =
     seq (pipelines_findOne i) (\<lambda>found.
     case found of
       None \<Rightarrow> throw pipeline_not_found
     | Some _ \<Rightarrow>
         seq (query (sql_find_pipeline i)) (\<lambda>found.
         case found of
           None \<Rightarrow> throw (Error_Message (lit ''Pipeline not found''))
         | Some p \<Rightarrow> query (sql_save_assigned b parse stamp p fs)))"

text \<open>A row saved with the times it has gets the time of the statement.\<close>

definition stamp_ok :: "(pipeline \<Rightarrow> pipeline \<Rightarrow> timestamp \<Rightarrow> timestamp \<times> timestamp) \<Rightarrow> bool" where
  "stamp_ok stamp \<longleftrightarrow> (\<forall>p now. stamp p p now = (p_created_at p, now))"

section \<open>Runs\<close>

text \<open>\<open>findOne({ where: { id: undefined } })\<close>: TypeORM drops the condition.\<close>

definition sql_find_any_pipeline :: "pipeline option stmt" where
  "sql_find_any_pipeline now d = Inr (case pipelines d of [] \<Rightarrow> None | p # _ \<Rightarrow> Some p, d)"

definition reject :: "db_error \<Rightarrow> pipeline_run act" where
  "reject e = query (\<lambda>now d. Inl e)"

definition post_run_body ::
  "pg_driver \<Rightarrow> (ustring \<Rightarrow> path_id) \<Rightarrow> (json \<Rightarrow> json option) \<Rightarrow>
     (job_insert list \<Rightarrow> job_insert list) \<Rightarrow> fields \<Rightarrow> pipeline_run act" where
  "post_run_body b parse jsonb_of sched fs =
     (let find_pipeline = (case field fs ''pipelineId'' of
            None \<Rightarrow> query sql_find_any_pipeline
          | Some JNull \<Rightarrow> query sql_find_any_pipeline
          | Some v \<Rightarrow> pipelines_findOne (parse (text_of b v)));
          refused = (\<lambda>e. seq find_pipeline (\<lambda>found.
            case found of None \<Rightarrow> throw (Error_Message (lit ''Pipeline not found'')) | Some _ \<Rightarrow> reject e));
          triggerType = (case nullish (field fs ''triggerType'') (JStr (lit ''manual'')) of
            Some t \<Rightarrow> text_of b t | None \<Rightarrow> [])
      in case field fs ''pipelineId'' of
           None \<Rightarrow> refused Not_Null_Violation
         | Some JNull \<Rightarrow> refused Not_Null_Violation
         | Some v \<Rightarrow>
             (case field fs ''trigger_metadata'' of
                None \<Rightarrow> triggerRun b sched (parse (text_of b v)) triggerType None
              | Some JNull \<Rightarrow> triggerRun b sched (parse (text_of b v)) triggerType None
              | Some m \<Rightarrow> (case jsonb_of m of
                    None \<Rightarrow> refused Invalid_Input
                  | Some m' \<Rightarrow> triggerRun b sched (parse (text_of b v)) triggerType (Some m'))))"

text \<open>What the driver documents of objects: they are sent as their JSON text.\<close>

definition jsonb_ok :: "(json \<Rightarrow> json option) \<Rightarrow> bool" where
  "jsonb_ok f \<longleftrightarrow> (\<forall>fs. f (JObj fs) = Some (JObj fs))"

section \<open>Bodies of the promised types\<close>

definition create_fields :: "create_pipeline_dto \<Rightarrow> fields" where
  "create_fields dto = [(lit ''name'', JStr (cp_name dto)), (lit ''repository'', JStr (cp_repository dto)),
     (lit ''config'', cp_config dto)]"

definition given :: "string \<Rightarrow> json option \<Rightarrow> fields" where
  "given k v = (case v of None \<Rightarrow> [] | Some x \<Rightarrow> [(lit k, x)])"

definition update_fields :: "update_pipeline_dto \<Rightarrow> fields" where
  "update_fields dto = given ''name'' (map_option JStr (up_name dto)) @
     given ''repository'' (map_option JStr (up_repository dto)) @ given ''config'' (up_config dto)"

definition run_fields :: "ustring \<Rightarrow> ustring option \<Rightarrow> fields option \<Rightarrow> fields" where
  "run_fields pipelineId triggerType meta = [(lit ''pipelineId'', JStr pipelineId)] @
     given ''triggerType'' (map_option JStr triggerType) @ given ''trigger_metadata'' (map_option JObj meta)"

lemma field_simps:
  "field [] k = None" "field ((lit k', v) # fs) k = (if k' = k then Some v else field fs k)"
  "field (given k' x @ fs) k = (if k' = k \<and> x \<noteq> None then x else field fs k)"
  "field (given k' x) k = (if k' = k then x else None)"
  by (auto simp: field_def js_prop_def given_def split: option.split)

text \<open>\<open>answer f m\<close>: \<open>m\<close>, answering with a part of its result.\<close>

definition answer :: "('a \<Rightarrow> 'b) \<Rightarrow> 'a act \<Rightarrow> 'b act" where
  "answer f m = seq m (\<lambda>x. ret (f x))"

lemma answer_query: "answer f (query st) = query (\<lambda>now d. case st now d of Inl e \<Rightarrow> Inl e | Inr (x, d') \<Rightarrow> Inr (f x, d'))"
  by (rule ext) (auto simp: answer_def seq_def query_def ret_def split: prod.split sum.split)

lemma find_never [simp]: "find (\<lambda>x. False) xs = None"
  by (induction xs) simp_all

lemma post_typed:
  assumes "driver_ok b" "cp_config dto \<noteq> JNull"
  shows "post_pipeline_body b parse (create_fields dto) = answer p_id (post_pipeline dto)"
proof -
  have "bind_json (Some (cp_config dto)) = Inr (cp_config dto)" using assms(2) by (cases "cp_config dto") simp_all
  then have "sql_save_body b parse (create_fields dto) =
    (\<lambda>now d. case sql_insert_pipeline (cp_name dto) (cp_repository dto) (cp_config dto) now d of
       Inl e \<Rightarrow> Inl e | Inr (x, d') \<Rightarrow> Inr (p_id x, d'))"
    using assms(1) by (intro ext) (auto simp: sql_save_body_def create_fields_def field_simps own_id_def
        sql_insert_entity_def columns_of_def driver_ok_def sql_insert_pipeline_def Let_def max_def
        split: option.split)
  then show ?thesis
    by (simp add: post_pipeline_body_def post_pipeline_def pipelines_create_def answer_query)
qed

text \<open>Saving the loaded row under its own id is the statement on the loaded row.\<close>

lemma save_assigned_typed:
  assumes "driver_ok b" "stamp_ok stamp" "up_config dto \<noteq> Some JNull"
    and p: "find (\<lambda>q. p_id q = k) (pipelines d) = Some p"
    and d: "distinct (map p_id (pipelines d))" "length (p_name p) \<le> 255" "length (p_repository p) \<le> 500"
  shows "sql_save_assigned b parse stamp p (update_fields dto) now d =
    (case sql_save_pipeline (assign_dto p dto) now d of Inl e \<Rightarrow> Inl e | Inr (x, d') \<Rightarrow> Inr (p_id x, d'))"
proof -
  let ?a = "assign_dto p dto"
  have pk: "p_id p = k" "p \<in> set (pipelines d)" using p by (auto simp: find_Some_iff)
  have upd: "update_where (\<lambda>q. p_id q = k) (\<lambda>q. q\<lparr>p_name := n, p_repository := r, p_config := c,
        p_created_at := p_created_at p, p_updated_at := now\<rparr>) (pipelines d) =
      update_where (\<lambda>q. p_id q = k) (\<lambda>q. q\<lparr>p_name := n, p_repository := r, p_config := c,
        p_updated_at := now\<rparr>) (pipelines d)" for n r c
  proof -
    have "q = p" if "q \<in> set (pipelines d)" "p_id q = k" for q
      using d(1) pk that by (auto simp: distinct_map dest: inj_onD)
    moreover have "q\<lparr>p_name := n, p_repository := r, p_config := c, p_created_at := p_created_at q,
        p_updated_at := now\<rparr> = q\<lparr>p_name := n, p_repository := r, p_config := c, p_updated_at := now\<rparr>" for q :: pipeline
      by (cases q) simp
    ultimately show ?thesis unfolding update_where_def by (intro map_cong) fastforce+
  qed
  have new: "assigned (update_fields dto) ''name'' (JStr (p_name p)) = Some (JStr (p_name ?a))"
    "assigned (update_fields dto) ''repository'' (JStr (p_repository p)) = Some (JStr (p_repository ?a))"
    "assigned (update_fields dto) ''config'' (p_config p) = Some (p_config ?a)"
    "field (update_fields dto) ''id'' = None"
    by (simp_all add: assigned_def update_fields_def field_simps assign_dto_def split: option.split)
  have cfg: "p_config ?a = p_config p \<or> bind_json (Some (p_config ?a)) = Inr (p_config ?a)"
    using assms(3) by (cases "up_config dto"; cases "p_config ?a") (auto simp: assign_dto_def)
  have ids: "p_id ?a = k" "p_created_at ?a = p_created_at p" using pk by (simp_all add: assign_dto_def)
  have stamp: "stamp p p now = (p_created_at p, now)" using assms(2) by (simp add: stamp_ok_def)
  have texts: "text_of b (JStr s) = s" for s using assms(1) by (simp add: driver_ok_def)
  show ?thesis
    using p d(2,3) cfg
    by (auto simp: sql_save_assigned_def new pk ids Let_def sql_update_entity_def sql_save_pipeline_def
        texts columns_of_def stamp upd)
qed

lemma patch_typed:
  assumes "script w = []" "driver_ok b" "stamp_ok stamp" "up_config dto \<noteq> Some JNull"
    and "distinct (map p_id (pipelines (the_db w)))"
    and "\<forall>p \<in> set (pipelines (the_db w)). length (p_name p) \<le> 255 \<and> length (p_repository p) \<le> 500"
  shows "patch_pipeline_body b parse stamp i (update_fields dto) w = answer p_id (patch_pipeline i dto) w"
proof (cases i)
  case Malformed
  then show ?thesis using assms(1)
    by (simp add: patch_pipeline_body_def patch_pipeline_def answer_def pipelines_findOne_def seq_def
        query_quiet sql_find_pipeline_def uuid_param_def)
next
  case (Uuid_Param k)
  let ?ps = "pipelines (the_db w)"
  have find: "query (sql_find_pipeline i) w = (Done (find (\<lambda>p. p_id p = k) ?ps), w)"
    using assms(1) Uuid_Param by (simp add: query_quiet sql_find_pipeline_def uuid_param_def)
  show ?thesis
  proof (cases "find (\<lambda>p. p_id p = k) ?ps")
    case None
    then show ?thesis
      by (simp add: patch_pipeline_body_def patch_pipeline_def answer_def pipelines_findOne_def seq_def find throw_def)
  next
    case (Some p)
    then have "p \<in> set ?ps" by (auto simp: find_Some_iff)
    with assms(6) have fit: "length (p_name p) \<le> 255" "length (p_repository p) \<le> 500" by auto
    have "query (sql_save_assigned b parse stamp p (update_fields dto)) w =
        answer p_id (query (sql_save_pipeline (assign_dto p dto))) w"
      unfolding answer_query using assms(1) save_assigned_typed[OF assms(2-4) Some assms(5) fit]
      by (simp add: query_quiet)
    then show ?thesis
      by (simp add: patch_pipeline_body_def patch_pipeline_def pipelines_service_update_def answer_def
          pipelines_findOne_def seq_def find Some)
  qed
qed

lemma run_typed_body:
  assumes "driver_ok b" "jsonb_ok jsonb_of"
  shows "post_run_body b parse jsonb_of sched (run_fields i tt meta) =
    post_run b sched \<lparr>tr_pipelineId = parse i, tr_triggerType = tt, tr_trigger_metadata = map_option JObj meta\<rparr>"
  using assms
  by (cases tt; cases meta)
    (simp_all add: post_run_body_def run_fields_def field_simps nullish_def post_run_def driver_ok_def jsonb_ok_def)

text \<open>
  On bodies of the types the DTO classes promise, the handlers on untyped bodies do
  what the typed ones do, statement for statement: creating a pipeline, changing one, and
  triggering a run.
\<close>

theorem typed_bodies_agree:
  assumes "driver_ok b" "stamp_ok stamp" "jsonb_ok jsonb_of" "script w = []"
    and "cp_config new \<noteq> JNull" "up_config dto \<noteq> Some JNull"
    and "distinct (map p_id (pipelines (the_db w)))"
    and "\<forall>p \<in> set (pipelines (the_db w)). length (p_name p) \<le> 255 \<and> length (p_repository p) \<le> 500"
  shows "post_pipeline_body b parse (create_fields new) w = answer p_id (post_pipeline new) w \<and>
    patch_pipeline_body b parse stamp i (update_fields dto) w = answer p_id (patch_pipeline i dto) w \<and>
    post_run_body b parse jsonb_of sched (run_fields pid tt meta) w = post_run b sched
      \<lparr>tr_pipelineId = parse pid, tr_triggerType = tt, tr_trigger_metadata = map_option JObj meta\<rparr> w"
  using post_typed[OF assms(1,5)] patch_typed[OF assms(4,1,2,6-8)] run_typed_body[OF assms(1,3)] by simp

section \<open>Bodies with an id\<close>

lemma find_by_key: "distinct (map f xs) \<Longrightarrow> y \<in> set xs \<Longrightarrow> find (\<lambda>x. f x = f y) xs = Some y"
  by (induction xs) auto

lemma update_rows:
  assumes "q \<in> set (pipelines d)"
    and "name \<in> {None, Some (JStr n)}" "repository \<in> {None, Some (JStr r)}" "config \<in> {None, Some (JObj c)}"
    and "name = None \<Longrightarrow> n = p_name q" "repository = None \<Longrightarrow> r = p_repository q" "config = None \<Longrightarrow> JObj c = p_config q"
    and "driver_ok b" "length n \<le> 255" "length r \<le> 500"
  shows "\<exists>d' q'. sql_update_entity b q name repository config stamp now d = Inr (p_id q, d') \<and>
    map p_id (pipelines d') = map p_id (pipelines d) \<and> q' \<in> set (pipelines d') \<and> p_id q' = p_id q \<and>
    p_name q' = n \<and> p_repository q' = r \<and> p_config q' = JObj c \<and>
    (\<forall>p \<in> set (pipelines d). p_id p \<noteq> p_id q \<longrightarrow> p \<in> set (pipelines d'))"
proof (cases "p_name q = n \<and> p_repository q = r \<and> p_config q = JObj c")
  case True
  then have "sql_update_entity b q name repository config stamp now d = Inr (p_id q, d)"
    using assms(2-4) by (auto simp: sql_update_entity_def)
  with True assms(1) show ?thesis by blast
next
  case False
  let ?f = "\<lambda>p. p\<lparr>p_name := n, p_repository := r, p_config := JObj c,
      p_created_at := fst (stamp now), p_updated_at := snd (stamp now)\<rparr>"
  let ?d = "d\<lparr>pipelines := update_where (\<lambda>p. p_id p = p_id q) ?f (pipelines d)\<rparr>"
  have texts: "text_of b (JStr s) = s" for s using assms(8) by (simp add: driver_ok_def)
  have "sql_update_entity b q name repository config stamp now d = Inr (p_id q, ?d)"
    using assms(2-7,9,10) False by (auto simp: sql_update_entity_def columns_of_def texts Let_def)
  moreover have "?f q \<in> set (pipelines ?d)"
    using assms(1) by (auto simp: set_update_where intro!: image_eqI[where x = q])
  moreover have "p \<in> set (pipelines ?d)" if "p \<in> set (pipelines d)" "p_id p \<noteq> p_id q" for p
    using that by (auto simp: set_update_where intro!: image_eqI[where x = p])
  ultimately show ?thesis by (intro exI[of _ ?d] exI[of _ "?f q"]) (simp add: map_update_where)
qed

text \<open>
  Property C38.  The controllers hand the id of a body on to TypeORM: creating a pipeline with
  the id of another one creates nothing but overwrites that one, and a change addressed to one
  pipeline whose body names the id of another overwrites the other with the first and leaves
  the first as it was.
\<close>

theorem body_id_overwrites:
  assumes "script w = []" "driver_ok b" "distinct (map p_id (pipelines (the_db w)))"
    and "q \<in> set (pipelines (the_db w))" "parse t = Uuid_Param (p_id q)"
    and "p \<in> set (pipelines (the_db w))" "p_id p \<noteq> p_id q" "p_config p = JObj pc"
    and "length n \<le> 255" "length r \<le> 500" "length (p_name p) \<le> 255" "length (p_repository p) \<le> 500"
  shows "(\<exists>w' q'. post_pipeline_body b parse [(lit ''id'', JStr t), (lit ''name'', JStr n),
        (lit ''repository'', JStr r), (lit ''config'', JObj c)] w = (Done (p_id q), w') \<and>
      map p_id (pipelines (the_db w')) = map p_id (pipelines (the_db w)) \<and>
      q' \<in> set (pipelines (the_db w')) \<and> p_id q' = p_id q \<and> p_name q' = n \<and> p_repository q' = r \<and>
      p_config q' = JObj c) \<and>
    (\<exists>w' q'. patch_pipeline_body b parse stamp (Uuid_Param (p_id p)) [(lit ''id'', JStr t)] w =
        (Done (p_id q), w') \<and>
      map p_id (pipelines (the_db w')) = map p_id (pipelines (the_db w)) \<and> p \<in> set (pipelines (the_db w')) \<and>
      q' \<in> set (pipelines (the_db w')) \<and> p_id q' = p_id q \<and> p_name q' = p_name p \<and>
      p_repository q' = p_repository p \<and> p_config q' = p_config p)"
proof
  let ?ps = "pipelines (the_db w)"
  have found: "find (\<lambda>x. p_id x = p_id y) ?ps = Some y" if "y \<in> set ?ps" for y
    using find_by_key[OF assms(3) that] .
  have own: "own_id b parse (Some (JStr t)) = Inr (Some (p_id q))"
    using assms(2,5) by (simp add: own_id_def driver_ok_def uuid_param_def)
  let ?fs = "[(lit ''id'', JStr t), (lit ''name'', JStr n), (lit ''repository'', JStr r), (lit ''config'', JObj c)]"
  obtain d' q' where u: "sql_update_entity b q (Some (JStr n)) (Some (JStr r)) (Some (JObj c)) (Pair (p_created_at q)) (clock w) (the_db w) =
      Inr (p_id q, d')" "map p_id (pipelines d') = map p_id ?ps" "q' \<in> set (pipelines d')" "p_id q' = p_id q"
    "p_name q' = n" "p_repository q' = r" "p_config q' = JObj c"
    using update_rows[OF assms(4), where name = "Some (JStr n)" and n = n and repository = "Some (JStr r)" and r = r
        and config = "Some (JObj c)" and c = c and b = b and stamp = "Pair (p_created_at q)" and now = "clock w"]
      assms(2,9,10) by auto
  have "post_pipeline_body b parse ?fs w = (Done (p_id q), w\<lparr>the_db := d'\<rparr>)"
    using assms(1) u(1) found[OF assms(4)]
    by (simp add: post_pipeline_body_def query_quiet sql_save_body_def field_simps own)
  with u show "\<exists>w' q'. post_pipeline_body b parse ?fs w = (Done (p_id q), w') \<and>
      map p_id (pipelines (the_db w')) = map p_id ?ps \<and> q' \<in> set (pipelines (the_db w')) \<and>
      p_id q' = p_id q \<and> p_name q' = n \<and> p_repository q' = r \<and> p_config q' = JObj c"
    by (intro exI[of _ "w\<lparr>the_db := d'\<rparr>"] exI[of _ q']) simp
  obtain d2 q2 where v: "sql_update_entity b q (Some (JStr (p_name p))) (Some (JStr (p_repository p))) (Some (p_config p))
      (stamp p q) (clock w) (the_db w) = Inr (p_id q, d2)" "map p_id (pipelines d2) = map p_id ?ps" "p \<in> set (pipelines d2)"
    "q2 \<in> set (pipelines d2)" "p_id q2 = p_id q" "p_name q2 = p_name p" "p_repository q2 = p_repository p"
    "p_config q2 = p_config p"
    using update_rows[OF assms(4), where name = "Some (JStr (p_name p))" and n = "p_name p"
        and repository = "Some (JStr (p_repository p))" and r = "p_repository p" and config = "Some (JObj pc)"
        and c = pc and b = b and stamp = "stamp p q" and now = "clock w"] assms(2,6-8,11,12) by auto
  have "patch_pipeline_body b parse stamp (Uuid_Param (p_id p)) [(lit ''id'', JStr t)] w = (Done (p_id q), w\<lparr>the_db := d2\<rparr>)"
    using assms(1) v(1) found[OF assms(4)] found[OF assms(6)]
    by (simp add: patch_pipeline_body_def pipelines_findOne_def seq_def query_quiet sql_find_pipeline_def
        uuid_param_def sql_save_assigned_def field_simps assigned_def own)
  with v show "\<exists>w' q'. patch_pipeline_body b parse stamp (Uuid_Param (p_id p)) [(lit ''id'', JStr t)] w =
        (Done (p_id q), w') \<and> map p_id (pipelines (the_db w')) = map p_id ?ps \<and> p \<in> set (pipelines (the_db w')) \<and>
      q' \<in> set (pipelines (the_db w')) \<and> p_id q' = p_id q \<and> p_name q' = p_name p \<and>
      p_repository q' = p_repository p \<and> p_config q' = p_config p"
    by (intro exI[of _ "w\<lparr>the_db := d2\<rparr>"] exI[of _ q2]) simp
qed

text \<open>Two pipelines, of the API in HttpFacts.\<close>

definition two_pipelines :: world where
  "two_pipelines = (let w = demo_api (JObj []); p = hd (pipelines (the_db w)) in
     w\<lparr>the_db := (the_db w)\<lparr>pipelines := [p, p\<lparr>p_id := 4, p_name := lit ''other''\<rparr>]\<rparr>\<rparr>)"

lemma demo_typed: "stamp_ok (\<lambda>p q now. (p_created_at p, now))" "jsonb_ok Some"
  by (simp_all add: stamp_ok_def jsonb_ok_def)

theorem typed_bodies_agree_witness:
  "let new = \<lparr>cp_name = lit ''a'', cp_repository = lit ''b'', cp_config = JObj []\<rparr>;
       dto = \<lparr>up_name = Some (lit ''c''), up_repository = None, up_config = None\<rparr>;
       stamp = (\<lambda>p q now. (p_created_at p, now)); parse = parse_id demo_env in
   post_pipeline_body demo_driver parse (create_fields new) two_pipelines = answer p_id (post_pipeline new) two_pipelines \<and>
   patch_pipeline_body demo_driver parse stamp (Uuid_Param 4) (update_fields dto) two_pipelines =
     answer p_id (patch_pipeline (Uuid_Param 4) dto) two_pipelines \<and>
   post_run_body demo_driver parse Some rev (run_fields [4] None None) two_pipelines = post_run demo_driver rev
      \<lparr>tr_pipelineId = parse [4], tr_triggerType = None, tr_trigger_metadata = None\<rparr> two_pipelines"
proof -
  have "driver_ok demo_driver" using demo_env_ok(2) by (simp add: demo_env_def)
  from typed_bodies_agree[OF this demo_typed,
      where w = two_pipelines and meta = None and sched = rev and pid = "[4]" and tt = None and i = "Uuid_Param 4"
        and parse = "parse_id demo_env" and new = "\<lparr>cp_name = lit ''a'', cp_repository = lit ''b'', cp_config = JObj []\<rparr>"
        and dto = "\<lparr>up_name = Some (lit ''c''), up_repository = None, up_config = None\<rparr>"]
  show ?thesis
    unfolding Let_def by (simp add: two_pipelines_def demo_api_def demo_pipeline_def Let_def)
qed

theorem body_id_overwrites_witness:
  "(\<exists>w'. post_pipeline_body demo_driver (parse_id demo_env) [(lit ''id'', JStr [4]), (lit ''name'', JStr []),
        (lit ''repository'', JStr []), (lit ''config'', JObj [])] two_pipelines = (Done 4, w') \<and>
      map p_id (pipelines (the_db w')) = [3, 4]) \<and>
   (\<exists>w' q. patch_pipeline_body demo_driver (parse_id demo_env) (\<lambda>p q now. (p_created_at p, now)) (Uuid_Param 3)
        [(lit ''id'', JStr [4])] two_pipelines = (Done 4, w') \<and>
      q \<in> set (pipelines (the_db w')) \<and> p_id q = 4 \<and> p_name q = lit ''app'')"
proof -
  obtain p q where ps: "pipelines (the_db two_pipelines) = [p, q]" "p_id p = 3" "p_id q = 4" "p_name p = lit ''app''"
    "p_config p = JObj []" "length (p_repository p) \<le> 255"
    by (simp add: two_pipelines_def demo_api_def demo_pipeline_def Let_def)
  have d: "driver_ok demo_driver" using demo_env_ok(2) by (simp add: demo_env_def)
  have "script two_pipelines = []" by (simp add: two_pipelines_def demo_api_def Let_def)
  from body_id_overwrites[OF this d, of q "parse_id demo_env" "[4]" p "[]" "[]" "[]" "[]" "\<lambda>p q now. (p_created_at p, now)"]
  show ?thesis using ps demo_env_ok(4)[of 4] by auto
qed

section \<open>Bodies that do not fit\<close>

text \<open>A new pipeline without a name, or a run of no pipeline, is refused and changes nothing.\<close>

lemma body_without_fields_refused:
  assumes "script w = []" "field fs ''id'' = None" "field fs ''name'' = None"
    and "field fs ''pipelineId'' \<in> {None, Some JNull}"
  shows "post_pipeline_body b parse fs w = (Threw (Query_Failed Not_Null_Violation), w)"
    "\<exists>e. post_run_body b parse jsonb_of sched fs w = (Threw e, w)"
proof -
  show "post_pipeline_body b parse fs w = (Threw (Query_Failed Not_Null_Violation), w)"
    using assms(1-3) by (simp add: post_pipeline_body_def query_quiet sql_save_body_def own_id_def
        sql_insert_entity_def columns_of_def)
  show "\<exists>e. post_run_body b parse jsonb_of sched fs w = (Threw e, w)"
    using assms(1,4) by (auto simp: post_run_body_def Let_def seq_def query_quiet sql_find_any_pipeline_def
        reject_def throw_def split: list.split)
qed

text \<open>Whatever the body is, a sound database stays sound.\<close>

lemma pipelines_grow_sound:
  assumes "sound d" "d' = d\<lparr>pipelines := ps, next_uuid := n\<rparr>" "next_uuid d \<le> n"
    and "p_id ` set (pipelines d) \<subseteq> p_id ` set ps"
  shows "sound d'"
  by (rule sound_same[OF assms(1)])
    (use assms(2-4) in \<open>auto simp: locks_exclusive_def refs_ok_def intro: refs_same\<close>)

lemma insert_entity_sound:
  assumes "sql_insert_entity b i name repository config l now d = Inr (k, d')" "sound d"
  shows "sound d'"
proof -
  from assms(1) obtain p where "d' = d\<lparr>pipelines := pipelines d @ [p], next_uuid := max (next_uuid d) (k + 1)\<rparr>"
    by (auto simp: sql_insert_entity_def Let_def split: sum.splits prod.splits)
  then show ?thesis by (rule pipelines_grow_sound[OF assms(2)]) auto
qed

lemma update_entity_sound:
  assumes "sql_update_entity b q name repository config stamp now d = Inr (k, d')" "sound d"
  shows "sound d'"
proof -
  from assms(1) consider "d' = d" | f where "d' = d\<lparr>pipelines := update_where (\<lambda>p. p_id p = p_id q) f (pipelines d)\<rparr>"
      "\<And>p. p_id (f p) = p_id p"
    by (auto simp: sql_update_entity_def Let_def split: if_splits sum.splits prod.splits)
  then show ?thesis
  proof cases
    case 2
    have "d' = d\<lparr>pipelines := update_where (\<lambda>p. p_id p = p_id q) f (pipelines d), next_uuid := next_uuid d\<rparr>"
      by (simp add: 2(1))
    then show ?thesis
      by (rule pipelines_grow_sound[OF assms(2)]) (simp_all add: image_update_where 2(2))
  qed (simp add: assms(2))
qed

lemma bodies_sound:
  "sql_save_body b parse fs now d = Inr (k, d') \<Longrightarrow> sound d \<Longrightarrow> sound d'"
  "sql_save_assigned b parse stamp p fs now d = Inr (k, d') \<Longrightarrow> sound d \<Longrightarrow> sound d'"
  by (auto simp: sql_save_body_def sql_save_assigned_def Let_def
      intro: insert_entity_sound update_entity_sound split: sum.splits option.splits)

end
