(* ===== verification/OutboxSpec.thy ===== *)
theory OutboxSpec
  imports WebhookFacts
begin

text \<open>
  The outbox as an abstract data type: a delay queue, that is a multiset of entries with the
  time from which each may be served.  The locale \<open>delay_queue\<close> states what popping an entry
  promises and what follows for a consumer that pops until nothing is due; the claim
  statement on webhooks_outbox implements it, with the waiting rows as the content.
\<close>

section \<open>Interface: a delay queue\<close>

text \<open>Popping until nothing is due, at most \<open>n\<close> times.\<close>

fun pops :: "('t \<Rightarrow> 's \<Rightarrow> 'i option \<times> 's) \<Rightarrow> nat \<Rightarrow> 't \<Rightarrow> 's \<Rightarrow> 'i list" where
  "pops pop 0 now s = []"
| "pops pop (Suc n) now s = (case pop now s of
      (None, s') \<Rightarrow> []
    | (Some i, s') \<Rightarrow> i # pops pop n now s')"

locale delay_queue =
  fixes content :: "'s \<Rightarrow> ('t::linorder \<times> 'i) multiset"
    and good :: "'s \<Rightarrow> bool"
    and pop :: "'t \<Rightarrow> 's \<Rightarrow> 'i option \<times> 's"
  assumes pop_good: "good s \<Longrightarrow> good (snd (pop now s))"
    and pop_none: "good s \<Longrightarrow> pop now s = (None, s') \<Longrightarrow>
      content s' = content s \<and> (\<forall>x \<in># content s. now < fst x)"
    and pop_some: "good s \<Longrightarrow> pop now s = (Some i, s') \<Longrightarrow>
      \<exists>t. (t, i) \<in># content s \<and> t \<le> now \<and> (\<forall>x \<in># content s. t \<le> fst x) \<and>
        content s' = content s - {#(t, i)#}"
begin

lemma pops_due:
  assumes "good s" "size (content s) \<le> n"
  shows "\<exists>ts. length ts = length (pops pop n now s) \<and> sorted ts \<and>
    mset (zip ts (pops pop n now s)) = filter_mset (\<lambda>x. fst x \<le> now) (content s)"
  using assms
proof (induction n arbitrary: s)
  case 0
  then show ?case by simp
next
  case (Suc n)
  obtain got s' where p: "pop now s = (got, s')" by fastforce
  have good: "good s'" using pop_good[OF Suc.prems(1), of now] p by simp
  show ?case
  proof (cases got)
    case None
    then have "\<forall>x \<in># content s. now < fst x" using pop_none[OF Suc.prems(1)] p by simp
    then have "filter_mset (\<lambda>x. fst x \<le> now) (content s) = filter_mset (\<lambda>_. False) (content s)"
      by (intro filter_mset_cong) auto
    then show ?thesis by (simp add: p None)
  next
    case (Some i)
    then obtain t where t: "(t, i) \<in># content s" "t \<le> now" "\<forall>x \<in># content s. t \<le> fst x"
      "content s' = content s - {#(t, i)#}"
      using pop_some[OF Suc.prems(1)] p by blast
    have "size (content s') \<le> n" using Suc.prems(2) t(1,4) by (simp add: size_Diff_singleton)
    from Suc.IH[OF good this] obtain ts where ts: "length ts = length (pops pop n now s')" "sorted ts"
      "mset (zip ts (pops pop n now s')) = filter_mset (\<lambda>x. fst x \<le> now) (content s')" by blast
    have "t \<le> u" if "u \<in> set ts" for u
    proof -
      from that ts(1) obtain j where "(u, j) \<in># mset (zip ts (pops pop n now s'))"
        by (metis in_set_impl_in_set_zip1 set_mset_mset)
      then have "(u, j) \<in># content s'" unfolding ts(3) by simp
      then have "(u, j) \<in># content s" unfolding t(4) by (rule in_diffD)
      with t(3) show ?thesis by auto
    qed
    moreover have "filter_mset (\<lambda>x. fst x \<le> now) (content s) =
        add_mset (t, i) (filter_mset (\<lambda>x. fst x \<le> now) (content s'))"
      using t(1,2) unfolding t(4) by (simp add: filter_diff_mset)
    ultimately show ?thesis
      using ts by (intro exI[of _ "t # ts"]) (simp add: p Some)
  qed
qed

end

section \<open>The outbox implements it\<close>

text \<open>Waiting rows, by the time of their next attempt.\<close>

definition outbox_content :: "db \<Rightarrow> (timestamp \<times> uuid) multiset" where
  "outbox_content d = image_mset (\<lambda>h. (w_next_retry_at h, w_id h))
     (filter_mset (\<lambda>h. w_status h = Hook_Pending) (mset (webhooks_outbox d)))"

definition outbox_good :: "db \<Rightarrow> bool" where
  "outbox_good d \<longleftrightarrow> distinct (map w_id (webhooks_outbox d)) \<and> row_locks d = {}"

definition outbox_pop :: "timestamp \<Rightarrow> db \<Rightarrow> uuid option \<times> db" where
  "outbox_pop now d = (case sql_claim_next_webhook now d of
      Inl e \<Rightarrow> (None, d)
    | Inr ([], d') \<Rightarrow> (None, d')
    | Inr (h # _, d') \<Rightarrow> (Some (w_id h), d'))"

lemma mset_update_key:
  assumes "distinct (map key rows)" "r \<in> set rows"
  shows "mset (update_where (\<lambda>x. key x = key r) f rows) = add_mset (f r) (mset rows - {#r#})"
  using assms
proof (induction rows)
  case (Cons x rows)
  show ?case
  proof (cases "x = r")
    case True
    with Cons.prems(1) have "\<forall>y \<in> set rows. key y \<noteq> key r" by (auto simp: image_iff)
    then have "update_where (\<lambda>x. key x = key r) f rows = rows"
      by (intro update_where_id) auto
    with True show ?thesis by simp
  next
    case False
    with Cons.prems have "key x \<noteq> key r" "r \<in> set rows" by auto
    with Cons False show ?thesis by simp
  qed
qed simp

lemma outbox_row_split:
  assumes "h \<in> set (webhooks_outbox d)"
  shows "outbox_content d = image_mset (\<lambda>h. (w_next_retry_at h, w_id h))
     (filter_mset (\<lambda>h. w_status h = Hook_Pending) (add_mset h (mset (webhooks_outbox d) - {#h#})))"
  using assms by (simp add: outbox_content_def)

lemma outbox_update_row:
  assumes "distinct (map w_id (webhooks_outbox d))" "h \<in> set (webhooks_outbox d)"
    and "webhooks_outbox d' = update_where (\<lambda>x. w_id x = w_id h) f (webhooks_outbox d)"
  shows "outbox_content d' + (if w_status h = Hook_Pending then {#(w_next_retry_at h, w_id h)#} else {#}) =
    outbox_content d + (if w_status (f h) = Hook_Pending then {#(w_next_retry_at (f h), w_id (f h))#} else {#})"
  unfolding outbox_row_split[OF assms(2)]
  by (simp add: outbox_content_def assms(3) mset_update_key[OF assms(1,2)])

lemma outbox_claim:
  assumes "outbox_good d"
  obtains (none) "outbox_pop now d = (None, d)" "\<forall>x \<in># outbox_content d. now < fst x"
  | (one) h d' where "outbox_pop now d = (Some (w_id h), d')" "h \<in> set (webhooks_outbox d)"
      "w_status h = Hook_Pending" "w_next_retry_at h \<le> now"
      "\<forall>x \<in># outbox_content d. w_next_retry_at h \<le> fst x" "outbox_good d'"
      "outbox_content d' = outbox_content d - {#(w_next_retry_at h, w_id h)#}"
proof -
  let ?hs = "webhooks_outbox d"
  obtain got rows where c: "claim_row w_id hook_due w_next_retry_at processing_set
      (row_locks d) now ?hs = (got, rows)" by fastforce
  have d: "distinct (map w_id ?hs)" "row_locks d = {}" using assms by (simp_all add: outbox_good_def)
  from wq.claim_outcome[OF d(1) c] show thesis
  proof (elim disjE exE conjE)
    assume "got = []" "rows = ?hs" "\<forall>x \<in> set ?hs. hook_due now ?hs x \<longrightarrow> w_id x \<in> row_locks d"
    then show thesis
      by (intro none) (auto simp: outbox_pop_def sql_claim_next_webhook_def c[unfolded d(2)] d(2) outbox_content_def hook_due_def)
  next
    fix h assume h: "h \<in> set ?hs" "hook_due now ?hs h" "w_id h \<notin> row_locks d"
      and le: "\<forall>x \<in> set ?hs. hook_due now ?hs x \<longrightarrow> w_id x \<notin> row_locks d \<longrightarrow>
        w_next_retry_at h \<le> w_next_retry_at x"
      and got: "got = [processing_set now h]"
      and rows: "rows = update_where (\<lambda>x. w_id x = w_id h) (processing_set now) ?hs"
    let ?d = "d\<lparr>webhooks_outbox := rows\<rparr>"
    have st: "w_status h = Hook_Pending" "w_next_retry_at h \<le> now" using h(2) by (simp_all add: hook_due_def)
    have "outbox_content ?d + {#(w_next_retry_at h, w_id h)#} = outbox_content d"
      using outbox_update_row[OF d(1) h(1), of ?d "processing_set now"] st rows by (simp add: processing_set_def)
    then have content: "outbox_content ?d = outbox_content d - {#(w_next_retry_at h, w_id h)#}"
      by (metis add_diff_cancel_right')
    have "w_next_retry_at h \<le> w_next_retry_at x" if "x \<in> set ?hs" "w_status x = Hook_Pending" for x
      using le that st d(2) by (cases "w_next_retry_at x \<le> now") (auto simp: hook_due_def)
    then have least: "\<forall>x \<in># outbox_content d. w_next_retry_at h \<le> fst x"
      by (auto simp: outbox_content_def)
    have "outbox_pop now d = (Some (w_id h), ?d)"
      by (simp add: outbox_pop_def sql_claim_next_webhook_def c got processing_set_def)
    moreover have "outbox_good ?d"
      using d by (simp add: outbox_good_def rows hook_rows.distinct_update processing_set_def)
    ultimately show thesis using h(1) st least content by (intro one)
  qed
qed

lemma outbox_entry:
  "h \<in> set (webhooks_outbox d) \<Longrightarrow> w_status h = Hook_Pending \<Longrightarrow> (w_next_retry_at h, w_id h) \<in># outbox_content d"
  by (auto simp: outbox_content_def)

interpretation dq: delay_queue outbox_content outbox_good outbox_pop
proof
  fix d :: db and now
  assume g: "outbox_good d"
  show "outbox_good (snd (outbox_pop now d))"
    using g by (cases rule: outbox_claim[OF g, of now]) auto
  show "outbox_content d' = outbox_content d \<and> (\<forall>x \<in># outbox_content d. now < fst x)"
    if "outbox_pop now d = (None, d')" for d'
    using that by (cases rule: outbox_claim[OF g, of now]) auto
  show "\<exists>t. (t, i) \<in># outbox_content d \<and> t \<le> now \<and> (\<forall>x \<in># outbox_content d. t \<le> fst x) \<and>
      outbox_content d' = outbox_content d - {#(t, i)#}"
    if "outbox_pop now d = (Some i, d')" for d' i
    using that by (cases rule: outbox_claim[OF g, of now]) (auto simp: outbox_content_def)
qed

text \<open>
  Property C11.  The outbox implements a delay queue, with the waiting rows as its content:
  enqueueing puts one entry that is due at once, unless the event type is too long or the
  number of retries no 32-bit integer; a claim takes an entry with the earliest time
  if that time has come, and otherwise takes nothing; marking a claimed webhook as processed
  leaves the queue alone; marking it as failed puts it back behind its backoff, unless that
  was its last attempt.
\<close>

theorem outbox_refines_delay_queue:
  assumes "outbox_good d"
  shows "(case sql_enqueue_notification ty pl url m now d of
       Inl e \<Rightarrow> \<not> fits_int4 m \<or> 100 < length ty
     | Inr (h, d') \<Rightarrow> outbox_content d' = add_mset (now, w_id h) (outbox_content d)) \<and>
   (case outbox_pop now d of
       (None, d') \<Rightarrow> d' = d \<and> (\<forall>x \<in># outbox_content d. now < fst x)
     | (Some i, d') \<Rightarrow> outbox_good d' \<and> (\<exists>t \<le> now. (t, i) \<in># outbox_content d \<and>
         (\<forall>x \<in># outbox_content d. t \<le> fst x) \<and> outbox_content d' = outbox_content d - {#(t, i)#})) \<and>
   (\<forall>h \<in> set (webhooks_outbox d). w_status h = Processing \<longrightarrow>
     (case (sql_mark_webhook_processed (Some (w_id h)) now d, sql_mark_webhook_failed (Some (w_id h)) now d) of
       (Inr (_, d1), Inr (_, d2)) \<Rightarrow>
         outbox_content d1 = outbox_content d \<and>
         outbox_content d2 = (if w_retry_count h + 1 \<ge> w_max_retries h then outbox_content d
           else add_mset (now + backoff (w_retry_count h), w_id h) (outbox_content d))
     | _ \<Rightarrow> False))"
  (is "?enqueue \<and> ?claim \<and> ?marks")
proof (intro conjI)
  have ids: "distinct (map w_id (webhooks_outbox d))" using assms by (simp add: outbox_good_def)
  show ?enqueue by (simp add: sql_enqueue_notification_def outbox_content_def Let_def)
  show ?claim
    by (cases rule: outbox_claim[OF assms, of now]) (use outbox_entry in \<open>auto intro!: exI\<close>)
  have row: "(\<lambda>w. w_id x = w_id w) = (\<lambda>w. w_id w = w_id x)" for x by auto
  show ?marks
  proof (intro ballI impI)
    fix x assume x: "x \<in> set (webhooks_outbox d)" "w_status x = Processing"
    show "(case (sql_mark_webhook_processed (Some (w_id x)) now d, sql_mark_webhook_failed (Some (w_id x)) now d) of
       (Inr (_, d1), Inr (_, d2)) \<Rightarrow>
         outbox_content d1 = outbox_content d \<and>
         outbox_content d2 = (if w_retry_count x + 1 \<ge> w_max_retries x then outbox_content d
           else add_mset (now + backoff (w_retry_count x), w_id x) (outbox_content d))
     | _ \<Rightarrow> False)"
      using outbox_update_row[OF ids x(1), of "update_hook (Some (w_id x)) (processed_set now) d" "processed_set now"]
        outbox_update_row[OF ids x(1), of "update_hook (Some (w_id x)) (hook_failed_set now) d" "hook_failed_set now"] x(2)
      by (simp add: sql_mark_webhook_processed_def sql_mark_webhook_failed_def update_hook_def row
          processed_set_def hook_failed_set_def)
  qed
qed

theorem outbox_refines_delay_queue_witness:
  "outbox_content (snd (outbox_pop 5 (empty_db\<lparr>webhooks_outbox := [demo_hook 8 3, demo_hook 9 1]\<rparr>))) =
     {#(3, 8)#}"
proof -
  let ?d = "empty_db\<lparr>webhooks_outbox := [demo_hook 8 3, demo_hook 9 1]\<rparr>"
  have good: "outbox_good ?d" by (simp add: outbox_good_def demo_hook_def empty_db_def)
  have content: "outbox_content ?d = {#(3, 8), (1, 9)#}"
    by (simp add: outbox_content_def demo_hook_def empty_db_def)
  note claim = outbox_refines_delay_queue[OF good, where now = 5, THEN conjunct2, THEN conjunct1, unfolded content]
  have "outbox_content d' = {#(3, 8)#}" if "outbox_pop 5 ?d = (got, d')" for got d'
    using claim[unfolded that] by (cases got) (auto simp: add_mset_commute)
  then show ?thesis by (cases "outbox_pop 5 ?d") simp
qed

text \<open>
  Property C15.  The outbox serves what is due in the order of its time: the claims at one
  moment, one after the other until nothing is due and with no other statement between them,
  hand out exactly the webhooks whose time has come, once each, those with an earlier time
  first.  What the claims hand out here are the rows the statement returns, not what a worker
  reads from them.
\<close>

theorem outbox_served_in_order:
  assumes "distinct (map w_id (webhooks_outbox d))" "row_locks d = {}"
    and "length (webhooks_outbox d) \<le> n"
  shows "\<exists>ts. length ts = length (pops outbox_pop n now d) \<and> sorted ts \<and>
    mset (zip ts (pops outbox_pop n now d)) = image_mset (\<lambda>h. (w_next_retry_at h, w_id h))
      (filter_mset (hook_due now (webhooks_outbox d)) (mset (webhooks_outbox d)))"
proof -
  have "size (outbox_content d) \<le> n"
    using assms(3) size_filter_mset_lesseq[of _ "mset (webhooks_outbox d)"]
    by (simp add: outbox_content_def) (metis order_trans size_mset)
  moreover have "filter_mset (\<lambda>x. fst x \<le> now) (outbox_content d) =
      image_mset (\<lambda>h. (w_next_retry_at h, w_id h))
        (filter_mset (hook_due now (webhooks_outbox d)) (mset (webhooks_outbox d)))"
    by (simp add: outbox_content_def filter_mset_image_mset filter_filter_mset hook_due_def[abs_def] conj_commute)
  ultimately show ?thesis
    using dq.pops_due[of d n now] assms(1,2) by (simp add: outbox_good_def)
qed

theorem outbox_served_in_order_witness:
  "\<exists>ts :: timestamp list. sorted ts \<and> mset (zip ts (pops outbox_pop 3 5
       (empty_db\<lparr>webhooks_outbox := [demo_hook 8 3, demo_hook 9 1, demo_hook 7 6]\<rparr>))) = {#(1, 9), (3, 8)#}"
proof -
  let ?d = "empty_db\<lparr>webhooks_outbox := [demo_hook 8 3, demo_hook 9 1, demo_hook 7 6]\<rparr>"
  have d: "distinct (map w_id (webhooks_outbox ?d))" "row_locks ?d = {}" "length (webhooks_outbox ?d) \<le> 3"
    by (simp_all add: demo_hook_def empty_db_def)
  have "image_mset (\<lambda>h. (w_next_retry_at h, w_id h))
      (filter_mset (hook_due 5 (webhooks_outbox ?d)) (mset (webhooks_outbox ?d))) = {#(1, 9), (3, 8)#}"
    by (simp add: demo_hook_def empty_db_def hook_due_def add_mset_commute)
  with outbox_served_in_order[OF d, of 5] show ?thesis by (elim exE conjE) (metis (no_types))
qed

end
