(* ===== verification/Notifications.thy ===== *)
theory Notifications
  imports OutboxSpec JobTraces
begin

text \<open>
  Who fills the outbox.  The steps of the system that add no row to webhooks_outbox are enough for
  every process of the program, so that the actions of the components move along them too.
\<close>

definition silent_step :: "db \<Rightarrow> db \<Rightarrow> bool" where
  "silent_step d d' \<longleftrightarrow> db_step d d' \<and> map w_id (webhooks_outbox d') = map w_id (webhooks_outbox d)"

lemma silent_stepI:
  "sys_step d ids d' \<Longrightarrow> map w_id (webhooks_outbox d') = map w_id (webhooks_outbox d) \<Longrightarrow> silent_step d d'"
  by (auto simp: silent_step_def db_step_def)

text \<open>Every statement but the enqueueing one keeps the rows' keys.\<close>

lemma job_statement_hooks:
  "sql_claim_next_job workerId now d = Inr (got, d') \<Longrightarrow> webhooks_outbox d' = webhooks_outbox d"
  "sql_insert_job i st sn cmd p so sp now d = Inr (j, d') \<Longrightarrow> webhooks_outbox d' = webhooks_outbox d"
  "sql_insert_job_log fmt i' line lvl now d = Inr (n, d') \<Longrightarrow> webhooks_outbox d' = webhooks_outbox d"
  by (auto simp: sql_claim_next_job_def sql_insert_job_def Let_def fire_frame insert_job_log_frame
      split: prod.splits if_splits)

lemma claim_hook_keys:
  "sql_claim_next_webhook now d = Inr (hs, d') \<Longrightarrow> map w_id (webhooks_outbox d') = map w_id (webhooks_outbox d)"
  using wq.claim_keeps_idents by (auto simp: sql_claim_next_webhook_def split: prod.splits)

interpretation ns: program_steps silent_step
proof (unfold_locales, goal_cases)
  case (1 workerId now d got d')
  show ?case by (rule silent_stepI[OF Claim_Job[OF 1]]) (simp add: job_statement_hooks(1)[OF 1])
next
  case (2 i st sn cmd p so sp now d j d')
  show ?case by (rule silent_stepI[OF Insert_Job[OF 2]]) (simp add: job_statement_hooks(2)[OF 2])
next
  case (11 fmt i line lvl now d n d')
  show ?case by (rule silent_stepI[OF Insert_Log[OF 11]]) (simp add: job_statement_hooks(3)[OF 11])
next
  case (18 now d hs d')
  show ?case by (rule silent_stepI[OF Claim_Hook[OF 18] claim_hook_keys[OF 18]])
next
  case (24 d s)
  show ?case by (rule silent_stepI[OF End_Session]) simp
qed (rule silent_stepI, erule sys_step.intros,
  (auto simp: sql_update_heartbeat_def sql_mark_completed_def sql_mark_failed_def sql_reclaim_stuck_jobs_def
      sql_insert_pipeline_def sql_insert_run_def sql_install_log_trigger_def sql_save_pipeline_def
      sql_install_run_trigger_def sql_try_lock_def sql_unlock_def sql_insert_deployment_lock_def
      sql_delete_deployment_lock_def sql_delete_pipeline_def frame_simps map_update_where
      sql_mark_webhook_processed_def sql_mark_webhook_failed_def update_hook_def
      sql_create_matview_def sql_refresh_concurrently_def sql_refresh_def Let_def
    split: if_splits option.splits prod.splits sum.splits)[1])+

lemma step_hook_rows:
  assumes "sys_step d ids d'"
  shows "map w_id (webhooks_outbox d') = map w_id (webhooks_outbox d) \<or>
    (\<exists>ty pl url m now h. sql_enqueue_notification ty pl url m now d = Inr (h, d'))"
  using assms
proof cases
  case (Enqueue_Hook t pl url m now h)
  then show ?thesis by blast
qed (auto dest!: ns.statements[THEN silent_step_def[THEN iffD1]])

text \<open>What moves along silent steps keeps the rows' keys.\<close>

lemma within_silent:
  assumes "within silent_step m" "others silent_step w"
  shows "map w_id (webhooks_outbox (the_db (snd (m w)))) = map w_id (webhooks_outbox (the_db w))"
  by (rule within_invariant[OF assms prod.collapse[symmetric],
        where I = "\<lambda>d. map w_id (webhooks_outbox d) = map w_id (webhooks_outbox (the_db w))"])
    (auto simp: silent_step_def)

text \<open>
  Property C29.  Nothing in the program enqueues a notification.  Whatever commands the worker's
  loop runs and however they end, whatever a request of the API carries, at every tick of the
  reclaim loop and during the seeding, whichever connections break: if no other session adds
  a row to the outbox, there is none in it that was not there before.
\<close>

theorem nobody_enqueues:
  assumes "others silent_step w"
  shows "(let hooks = (\<lambda>v. map w_id (webhooks_outbox (the_db v))) in
    hooks (snd (runLoop n rt http shj shw workerId w)) = hooks w \<and>
    hooks (snd (post_run b sched dto w)) = hooks w \<and>
    hooks (snd (handlePush b sched body w)) = hooks w \<and>
    hooks (snd (post_pipeline c w)) = hooks w \<and> hooks (snd (patch_pipeline i u w)) = hooks w \<and>
    hooks (snd (delete_pipeline i w)) = hooks w \<and> hooks (snd (post_refresh refused w)) = hooks w \<and>
    hooks (snd (reclaim_callback v w)) = hooks w \<and> hooks (snd (seedOnModuleInit sync w)) = hooks w)"
  unfolding Let_def by (intro conjI within_silent[OF _ assms] within_intros)

theorem nobody_enqueues_witness:
  "let rt = \<lparr>rt_hashtext = (\<lambda>_. 1), rt_session = 1, rt_format = \<lparr>uuid_text = (\<lambda>_. []), time_text = (\<lambda>_. [])\<rparr>,
       rt_child = (\<lambda>_ _. [Close (Some 0)])\<rparr>
   in webhooks_outbox (the_db (snd (runLoop 9 rt (\<lambda>_ _ _. Rejects) plain_rows plain_rows [] busy_world))) = []"
proof -
  have "silent_step\<^sup>*\<^sup>* d (case sql_claim_next_job [] 8 d of Inl _ \<Rightarrow> d | Inr (_, d') \<Rightarrow> d')" for d
    by (auto intro!: r_into_rtranclp[of silent_step] ns.claim_job split: sum.split)
  moreover have "silent_step\<^sup>*\<^sup>* d (d\<lparr>row_locks := {5}\<rparr>)" for d
    by (rule r_into_rtranclp[of silent_step], rule silent_stepI[OF Rows_Locked]) simp
  ultimately have "others silent_step busy_world" by (simp add: others_def busy_world_def)
  from nobody_enqueues[OF this] show ?thesis
    by (simp add: Let_def busy_world_def initial_db_hooks)
qed

end
