(* ===== verification/Scans.thy ===== *)
theory Scans
  imports ClaimQueue
begin

text \<open>
  The subquery of the claim statement, \<^verbatim>\<open>ORDER BY ... FOR UPDATE SKIP LOCKED LIMIT 1\<close>, as it is
  executed: sort the rows that qualify, then take the first that is not locked.
\<close>

lemma first_min_sort: "first_min rank xs = (case sort_key rank xs of [] \<Rightarrow> None | x # _ \<Rightarrow> Some x)"
  by (induction xs) (auto split: list.splits)

lemma pick_row_scan:
  "pick_row ident ready rank locked c rows =
     find (\<lambda>r. ident r \<notin> locked) (sort_key rank (filter (ready c rows) rows))"
proof -
  have "find P xs = (case filter P xs of [] \<Rightarrow> None | x # _ \<Rightarrow> Some x)" for P and xs :: "'a list"
    by (induction xs) auto
  then show ?thesis by (simp add: pick_row_def first_min_sort filter_sort conj_commute)
qed

end
