(* ===== verification/JobRows.thy ===== *)
theory JobRows
  imports JobTraces Scans
begin

text \<open>
  The claim of a job below the level of statements (\<open>claimNextJob\<close> of
  src/src/queue/job-queue.service.ts): the subquery takes a snapshot of the jobs, judges both its
  conditions there, sorts, and then tries row by row.  A row that was changed since is
  judged again at its newest version, but only by its own columns: whether an earlier job of the
  run is open stays as it was in the snapshot.  The theory says when this stale condition does no
  harm, so that a claim may be taken as the atomic statement of \<open>JobQueue\<close>.
\<close>

section \<open>Claimants\<close>

text \<open>The rows of the snapshot in the order in which they are tried.\<close>

definition job_scan :: "ustring \<times> timestamp \<Rightarrow> job list \<Rightarrow> job list" where
  "job_scan c rows = sort_key claim_rank_of (filter (claimable c rows) rows)"

text \<open>
  Where a claim stands: not under way, with what the last one returned; still looking, with the
  rows of its snapshot left to try; or with a row locked: the row as the snapshot had it, and the
  version that is to be committed.
\<close>

datatype claimant =
    Resting "job option"
  | Looking ustring timestamp "job list"
  | Taking ustring timestamp job job

record job_sys =
  tables :: db
  claimants :: "nat \<Rightarrow> claimant"

definition turn :: "nat \<Rightarrow> claimant \<Rightarrow> job_sys \<Rightarrow> job_sys" where
  "turn t c st = st\<lparr>claimants := (claimants st)(t := c)\<rparr>"

fun holds :: "claimant \<Rightarrow> uuid set" where
  "holds (Taking w now s j) = {j_id j}"
| "holds _ = {}"

definition held_rows :: "job_sys \<Rightarrow> uuid set" where
  "held_rows st = (\<Union>t. holds (claimants st t))"

fun candidates :: "claimant \<Rightarrow> job set" where
  "candidates (Looking w now js) = set js"
| "candidates (Taking w now s j) = {s}"
| "candidates (Resting r) = {}"

definition open_before :: "db \<Rightarrow> job \<Rightarrow> bool" where
  "open_before d j \<longleftrightarrow> (\<exists>p \<in> set (jobs d). j_pipeline_run_id p = j_pipeline_run_id j \<and>
     earlier_step p j \<and> \<not> terminal (j_status p))"

text \<open>What is committed elsewhere opens no job before one that a claim is looking at.\<close>

definition undisturbed :: "job_sys \<Rightarrow> db \<Rightarrow> bool" where
  "undisturbed st d \<longleftrightarrow>
     (\<forall>t. \<forall>s \<in> candidates (claimants st t). open_before d s \<longrightarrow> open_before (tables st) s)"

section \<open>Steps\<close>

inductive job_row_step :: "job_sys \<Rightarrow> job_sys \<Rightarrow> bool" where
  Look: "claimants st t = Resting r \<Longrightarrow>
    job_row_step st (turn t (Looking w now (job_scan (w, now) (jobs (tables st)))) st)"
| Pass_Locked: "claimants st t = Looking w now (s # js) \<Longrightarrow> j_id s \<in> held_rows st \<Longrightarrow>
    job_row_step st (turn t (Looking w now js) st)"
| Pass_Changed: "claimants st t = Looking w now (s # js) \<Longrightarrow> j_id s \<notin> held_rows st \<Longrightarrow>
    \<forall>j \<in> set (jobs (tables st)). j_id j = j_id s \<longrightarrow> j_status j \<noteq> Pending \<Longrightarrow>
    job_row_step st (turn t (Looking w now js) st)"
| Take: "claimants st t = Looking w now (s # js) \<Longrightarrow> j_id s \<notin> held_rows st \<Longrightarrow>
    j \<in> set (jobs (tables st)) \<Longrightarrow> j_id j = j_id s \<Longrightarrow> j_status j = Pending \<Longrightarrow>
    job_row_step st (turn t (Taking w now s (claim_set (w, now) j)) st)"
| No_Job: "claimants st t = Looking w now [] \<Longrightarrow> job_row_step st (turn t (Resting None) st)"
| Commit_Take: "claimants st t = Taking w now s j' \<Longrightarrow> length w \<le> 100 \<Longrightarrow>
    job_row_step st ((turn t (Resting (Some j')) st)
      \<lparr>tables := update_jobs now (\<lambda>j. j_id j = j_id j') (\<lambda>_. j') (tables st)\<rparr>)"
| Abandon: "job_row_step st (turn t (Resting None) st)"
| Other: "db_step (tables st) d \<Longrightarrow> undisturbed st d \<Longrightarrow>
    \<forall>j \<in> set (jobs (tables st)). j_id j \<in> held_rows st \<longrightarrow> j \<in> set (jobs d) \<Longrightarrow>
    job_row_step st (st\<lparr>tables := d\<rparr>)"

inductive job_row_reach :: "job_sys \<Rightarrow> bool" where
  Start: "reachable d trace \<Longrightarrow> job_row_reach \<lparr>tables = d, claimants = (\<lambda>_. Resting None)\<rparr>"
| Next: "job_row_reach st \<Longrightarrow> job_row_step st st' \<Longrightarrow> job_row_reach st'"

section \<open>Rows keep their place\<close>

definition places_kept :: "db \<Rightarrow> db \<Rightarrow> bool" where
  "places_kept d d' \<longleftrightarrow> next_uuid d \<le> next_uuid d' \<and>
     (\<forall>j \<in> set (jobs d'). place j \<in> place ` set (jobs d) \<or> next_uuid d \<le> j_id j)"

lemma places_kept_map:
  "place ` set (jobs d') \<subseteq> place ` set (jobs d) \<Longrightarrow> next_uuid d \<le> next_uuid d' \<Longrightarrow> places_kept d d'"
  by (auto simp: places_kept_def)

lemma step_places:
  assumes "sys_step d ids d'" "jobs_inv d"
  shows "places_kept d d'"
  using assms
proof (induction rule: sys_step.induct)
  case (Claim_Job workerId now d got d')
  from jobs_invD(1)[OF Claim_Job(2)] Claim_Job(1) show ?case
    by (cases rule: claim_statement_keyed) (auto simp: frame_simps image_update_where intro!: places_kept_map)
next
  case (Insert_Job i st sn cmd p so sp now d j d')
  then have "jobs d' = jobs d @ [j]" "j_id j = next_uuid d" "next_uuid d' = next_uuid d + 1"
    by (auto simp: sql_insert_job_def Let_def frame_simps split: if_splits)
  then show ?case by (auto simp: places_kept_def)
next
  case (Delete_Pipeline pid now d k d')
  from Delete_Pipeline(1) show ?case
    by (cases rule: delete_pipeline_runs) (auto intro!: places_kept_map)
next
  case (Save_Pipeline p now d p' d')
  then show ?case
    by (intro places_kept_map) (auto simp: sql_save_pipeline_def Let_def split: if_splits option.splits)
next
  case (Insert_Log fmt i line lvl now d n d')
  then show ?case by (auto simp: insert_job_log_frame intro!: places_kept_map)
qed (auto intro!: places_kept_map
       simp: sql_update_heartbeat_def sql_mark_completed_def sql_mark_failed_def sql_reclaim_stuck_jobs_def
         frame_simps set_update_where
         sql_insert_pipeline_def sql_insert_run_def sql_install_log_trigger_def
         sql_install_run_trigger_def sql_try_lock_def sql_unlock_def sql_insert_deployment_lock_def
         sql_delete_deployment_lock_def sql_enqueue_notification_def sql_claim_next_webhook_def
         sql_mark_webhook_processed_def sql_mark_webhook_failed_def update_hook_def
         sql_create_matview_def sql_refresh_concurrently_def sql_refresh_def Let_def
       split: if_splits option.splits prod.splits)

lemma db_step_places:
  assumes "db_step d d'" "sound d"
  shows "places_kept d d'"
  using assms step_places soundD(1) by (auto simp: db_step_def)

section \<open>What a claim relies on\<close>

text \<open>
  For a row of the snapshot: it has a key, the row of that key is where it was, and no earlier job
  of its run has been opened; for a locked row also that the new version is made of the
  newest one.
\<close>

definition candidate_ok :: "db \<Rightarrow> job \<Rightarrow> bool" where
  "candidate_ok d s \<longleftrightarrow> j_id s < next_uuid d \<and> \<not> open_before d s \<and>
     (\<forall>j \<in> set (jobs d). j_id j = j_id s \<longrightarrow> place j = place s)"

fun settled :: "db \<Rightarrow> claimant \<Rightarrow> bool" where
  "settled d (Looking w now js) \<longleftrightarrow> (\<forall>s \<in> set js. candidate_ok d s)"
| "settled d (Taking w now s j') \<longleftrightarrow> candidate_ok d s \<and>
     (\<exists>j \<in> set (jobs d). j_id j = j_id s \<and> j_status j = Pending \<and> j' = claim_set (w, now) j)"
| "settled d (Resting r) \<longleftrightarrow> True"

lemma settled_candidates: "settled d c \<Longrightarrow> s \<in> candidates c \<Longrightarrow> candidate_ok d s"
  by (cases c) auto

lemma settled_locked: "settled d c \<Longrightarrow> k \<in> holds c \<Longrightarrow> \<exists>j \<in> set (jobs d). j_id j = k \<and> j_status j = Pending"
  by (cases c) auto

lemma settled_frame:
  assumes "settled d c"
    and "\<And>s. s \<in> candidates c \<Longrightarrow> candidate_ok d s \<Longrightarrow> candidate_ok d' s"
    and "\<And>j. j \<in> set (jobs d) \<Longrightarrow> j_id j \<in> holds c \<Longrightarrow> j \<in> set (jobs d')"
  shows "settled d' c"
  using assms by (cases c) auto

definition claims_ok :: "job_sys \<Rightarrow> bool" where
  "claims_ok st \<longleftrightarrow> (\<forall>t. settled (tables st) (claimants st t)) \<and>
     (\<forall>t u. t \<noteq> u \<longrightarrow> holds (claimants st t) \<inter> holds (claimants st u) = {})"

lemma claims_okD:
  assumes "claims_ok st"
  shows "settled (tables st) (claimants st t)"
    "t \<noteq> u \<Longrightarrow> holds (claimants st t) \<inter> holds (claimants st u) = {}"
  using assms unfolding claims_ok_def by blast+

lemma claims_ok_turn:
  assumes "claims_ok st" "settled (tables st) c" "holds c \<inter> held_rows st = {}"
  shows "claims_ok (turn t c st)"
proof -
  have "holds (claimants st u) \<subseteq> held_rows st" for u unfolding held_rows_def by blast
  with assms show ?thesis unfolding claims_ok_def turn_def by (auto simp: job_sys.defs)
qed

text \<open>A commit that keeps the candidates of the others and the rows they have locked.\<close>

lemma claims_ok_tables:
  assumes "claims_ok st"
    and "\<And>u s. s \<in> candidates (claimants st u) \<Longrightarrow> candidate_ok (tables st) s \<Longrightarrow> candidate_ok d s"
    and "\<And>u j. j \<in> set (jobs (tables st)) \<Longrightarrow> j_id j \<in> holds (claimants st u) \<Longrightarrow> j \<in> set (jobs d)"
  shows "claims_ok (st\<lparr>tables := d\<rparr>)"
  using settled_frame[OF claims_okD(1)[OF assms(1)] assms(2,3)] claims_okD(2)[OF assms(1)]
  unfolding claims_ok_def by simp

lemma candidate_ok_other:
  assumes "candidate_ok d s" "places_kept d d'" "open_before d' s \<longrightarrow> open_before d s"
  shows "candidate_ok d' s"
proof -
  have "place j = place s" if j: "j \<in> set (jobs d')" "j_id j = j_id s" for j
  proof -
    have "\<not> next_uuid d \<le> j_id j" using assms(1) j(2) by (simp add: candidate_ok_def)
    then obtain j0 where j0: "j0 \<in> set (jobs d)" "place j = place j0"
      using assms(2) j(1) by (auto simp: places_kept_def)
    then have "j_id j0 = j_id s" using j(2) place_eqD(1)[OF j0(2)] by simp
    with assms(1) j0 show ?thesis by (simp add: candidate_ok_def)
  qed
  with assms show ?thesis by (auto simp: candidate_ok_def places_kept_def)
qed

text \<open>The commit of a claim opens no job: the row was open before.\<close>

lemma take_opens_none:
  assumes "distinct (map j_id (jobs d))" "j \<in> set (jobs d)" "j_status j = Pending"
    and d': "d' = update_jobs now (\<lambda>x. j_id x = j_id j) (\<lambda>_. claim_set (w, now) j) d"
  shows "set (jobs d') = insert (claim_set (w, now) j) (set (jobs d) - {j})"
    "next_uuid d' = next_uuid d" "open_before d' s \<longleftrightarrow> open_before d s"
    "places_kept d d'"
proof -
  show set: "set (jobs d') = insert (claim_set (w, now) j) (set (jobs d) - {j})"
    unfolding d' frame_simps by (rule job_rows.update_key[OF assms(1,2)])
  show n: "next_uuid d' = next_uuid d" by (simp add: d' frame_simps)
  let ?P = "\<lambda>p. j_pipeline_run_id p = j_pipeline_run_id s \<and> earlier_step p s \<and> \<not> terminal (j_status p)"
  have "?P (claim_set (w, now) j) = ?P j" using assms(3) by (simp add: earlier_step_def)
  then show "open_before d' s \<longleftrightarrow> open_before d s"
    unfolding open_before_def set using assms(2) by blast
  show "places_kept d d'" using assms(2) n by (auto simp: places_kept_def set)
qed

lemma scan_ok:
  assumes "jobs_inv d" "s \<in> set (job_scan c (jobs d))"
  shows "candidate_ok d s"
proof -
  have s: "s \<in> set (jobs d)" "claimable c (jobs d) s" using assms(2) by (simp_all add: job_scan_def)
  have "j_id s < next_uuid d" using jobs_invD(2)[OF assms(1)] s(1) by (simp add: keys_ok_def)
  moreover have "\<not> open_before d s" using s(2) unfolding claimable_def open_before_def by blast
  moreover have "place j = place s" if "j \<in> set (jobs d)" "j_id j = j_id s" for j
    using job_rows.key_unique[OF jobs_invD(1)[OF assms(1)] that(1) s(1) that(2)] by simp
  ultimately show ?thesis by (simp add: candidate_ok_def)
qed

lemma job_row_step_ok:
  assumes "job_row_step st st'" "sound (tables st)" "claims_ok st"
  shows "claims_ok st'"
  using assms
proof (induction rule: job_row_step.induct)
  case (Look st t r w now)
  have "settled (tables st) (Looking w now (job_scan (w, now) (jobs (tables st))))"
    using scan_ok[OF soundD(1)[OF Look(2)]] by simp
  then show ?case by (rule claims_ok_turn[OF Look(3)]) simp
next
  case (Take st t w now s js j)
  have "settled (tables st) (Looking w now (s # js))" using claims_okD(1)[OF Take(7), of t] Take(1) by simp
  with Take(3-5) have "settled (tables st) (Taking w now s (claim_set (w, now) j))" by auto
  then show ?case by (rule claims_ok_turn[OF Take(7)]) (use Take(2,4) in simp)
next
  case (Commit_Take st t w now s j')
  let ?r = "Resting (Some j')" and ?d = "update_jobs now (\<lambda>j. j_id j = j_id j') (\<lambda>_. j') (tables st)"
  obtain j where j: "j \<in> set (jobs (tables st))" "j_status j = Pending" "j' = claim_set (w, now) j"
    using claims_okD(1)[OF Commit_Take(4), of t] Commit_Take(1) by auto
  have d: "?d = update_jobs now (\<lambda>x. j_id x = j_id j) (\<lambda>_. claim_set (w, now) j) (tables st)" by (simp add: j(3))
  note take = take_opens_none[OF jobs_invD(1)[OF soundD(1)[OF Commit_Take(3)]] j(1,2) d]
  have rest: "claims_ok (turn t ?r st)" by (rule claims_ok_turn[OF Commit_Take(4)]) simp_all
  have "claims_ok ((turn t ?r st)\<lparr>tables := ?d\<rparr>)"
  proof (rule claims_ok_tables[OF rest])
    fix u s assume "candidate_ok (tables (turn t ?r st)) s"
    then show "candidate_ok ?d s" using take(3,4) by (simp add: turn_def candidate_ok_other)
  next
    fix u x assume x: "x \<in> set (jobs (tables (turn t ?r st)))"
      "j_id x \<in> holds (claimants (turn t ?r st) u)"
    then have "u \<noteq> t" "j_id x \<in> holds (claimants st u)" by (auto simp: turn_def split: if_splits)
    with claims_okD(2)[OF Commit_Take(4), of u t] Commit_Take(1) have "x \<noteq> j" by (auto simp: j(3))
    with x(1) show "x \<in> set (jobs ?d)" by (simp add: take(1) turn_def)
  qed
  then show ?case by (simp add: turn_def)
next
  case (Other st d)
  note places = db_step_places[OF Other(1,4)]
  show ?case
  proof (rule claims_ok_tables[OF Other(5)])
    fix u s assume "s \<in> candidates (claimants st u)" "candidate_ok (tables st) s"
    then show "candidate_ok d s" using Other(2) places unfolding undisturbed_def by (blast intro: candidate_ok_other)
  next
    fix u j assume "j \<in> set (jobs (tables st))" "j_id j \<in> holds (claimants st u)"
    with Other(3) show "j \<in> set (jobs d)" unfolding held_rows_def by blast
  qed
next
  case (Pass_Locked st t w now s js)
  have "settled (tables st) (Looking w now (s # js))" using claims_okD(1)[OF Pass_Locked(4), of t] Pass_Locked(1) by simp
  then show ?case by (intro claims_ok_turn[OF Pass_Locked(4)]) simp_all
next
  case (Pass_Changed st t w now s js)
  have "settled (tables st) (Looking w now (s # js))" using claims_okD(1)[OF Pass_Changed(5), of t] Pass_Changed(1) by simp
  then show ?case by (intro claims_ok_turn[OF Pass_Changed(5)]) simp_all
qed (simp_all add: claims_ok_turn)

section \<open>Commits are statements\<close>

lemma sync_locks: "sync_pipeline_run_status now i (d\<lparr>row_locks := L\<rparr>) = (sync_pipeline_run_status now i d)\<lparr>row_locks := L\<rparr>"
proof -
  have "run_jobs (d\<lparr>row_locks := L\<rparr>) i = run_jobs d i" by (simp add: run_jobs_def)
  moreover have "(d\<lparr>row_locks := L\<rparr>)\<lparr>pipeline_runs := rs\<rparr> = (d\<lparr>pipeline_runs := rs\<rparr>)\<lparr>row_locks := L\<rparr>" for rs by simp
  ultimately show ?thesis by (simp only: sync_pipeline_run_status_def Let_def if_distrib[of "row_locks_update (\<lambda>_. L)"] db.select_convs db.update_convs simp_thms) (simp add: if_distrib)
qed

lemma update_jobs_row_locks: "update_jobs now P f (d\<lparr>row_locks := L\<rparr>) = (update_jobs now P f d)\<lparr>row_locks := L\<rparr>"
proof -
  have "fold (sync_pipeline_run_status now) is (e\<lparr>row_locks := L\<rparr>) =
      (fold (sync_pipeline_run_status now) is e)\<lparr>row_locks := L\<rparr>" for "is" e
    by (induction "is" arbitrary: e) (simp_all add: sync_locks)
  moreover have "(d\<lparr>row_locks := L\<rparr>)\<lparr>jobs := js\<rparr> = (d\<lparr>jobs := js\<rparr>)\<lparr>row_locks := L\<rparr>" for js by simp
  ultimately show ?thesis
    unfolding update_jobs_def fire_run_trigger_def by (simp only: db.select_convs db.update_convs) simp
qed

lemma update_jobs_key:
  assumes "distinct (map j_id (jobs d))" "j \<in> set (jobs d)"
  shows "update_jobs now (\<lambda>x. j_id x = j_id j) f d = update_jobs now (\<lambda>x. j_id x = j_id j) (\<lambda>_. f j) d"
proof -
  have "update_where (\<lambda>x. j_id x = j_id j) f (jobs d) = update_where (\<lambda>x. j_id x = j_id j) (\<lambda>_. f j) (jobs d)"
    using job_rows.key_unique[OF assms(1) _ assms(2)] by (intro update_where_cong_rows refl) blast
  then show ?thesis by (simp add: update_jobs_def)
qed

lemma take_commit:
  assumes "distinct (map j_id (jobs d))" "j \<in> set (jobs d)" "claimable (w, now) (jobs d) j" "length w \<le> 100"
  shows "sql_claim_next_job w now (d\<lparr>row_locks := - {j_id j}\<rparr>) = Inr ([claim_set (w, now) j],
    (update_jobs now (\<lambda>x. j_id x = j_id j) (\<lambda>_. claim_set (w, now) j) d)\<lparr>row_locks := - {j_id j}\<rparr>)"
proof -
  let ?d = "d\<lparr>row_locks := - {j_id j}\<rparr>"
  obtain got d' where c: "sql_claim_next_job w now ?d = Inr (got, d')"
    using assms(4) by (cases "sql_claim_next_job w now ?d")
      (auto simp: sql_claim_next_job_def split: prod.splits if_splits)
  have "distinct (map j_id (jobs ?d))" using assms(1) by simp
  from this c show ?thesis
  proof (cases rule: claim_statement_keyed)
    case none
    from none(3)[of j] assms(2,3) show ?thesis by simp
  next
    case (one x)
    have "x = j" using job_rows.key_unique[OF assms(1) _ assms(2), of x] one(1,3) by simp
    with one(6) have "d' = (update_jobs now (\<lambda>x. j_id x = j_id j) (claim_set (w, now)) d)\<lparr>row_locks := - {j_id j}\<rparr>"
      by (simp only: update_jobs_row_locks)
    with c one(4) \<open>x = j\<close> show ?thesis by (simp only: update_jobs_key[OF assms(1,2), of now "claim_set (w, now)"])
  qed
qed

text \<open>A statement while certain rows are locked by others.\<close>

lemma step_under_locks:
  assumes "sys_step (d\<lparr>row_locks := L\<rparr>) ids (d'\<lparr>row_locks := L\<rparr>)" "row_locks d' = row_locks d"
  shows "db_step\<^sup>*\<^sup>* d d'"
proof -
  have "d' = (d'\<lparr>row_locks := L\<rparr>)\<lparr>row_locks := row_locks d\<rparr>" using assms(2) by (cases d') simp
  then have "db_step (d'\<lparr>row_locks := L\<rparr>) d'" using db_stepI[OF Rows_Locked] by metis
  with db_stepI[OF Rows_Locked[of d L]] db_stepI[OF assms(1)] show ?thesis
    by (meson converse_rtranclp_into_rtranclp r_into_rtranclp)
qed

lemmas take_steps = step_under_locks[OF Claim_Job[OF take_commit]]

lemma taking_ok:
  assumes "claims_ok st" "claimants st t = Taking w now s j'"
  obtains j where "j \<in> set (jobs (tables st))" "j' = claim_set (w, now) j"
    "claimable (w, now) (jobs (tables st)) j" "\<not> open_before (tables st) j"
proof -
  have "settled (tables st) (Taking w now s j')" using claims_okD(1)[OF assms(1), of t] assms(2) by simp
  then obtain j where j: "candidate_ok (tables st) s" "j \<in> set (jobs (tables st))" "j_id j = j_id s"
    "j_status j = Pending" "j' = claim_set (w, now) j" by auto
  have "place j = place s" using j(1-3) by (simp add: candidate_ok_def)
  note p = place_eqD(2,3)[OF this]
  have free: "\<not> open_before (tables st) j" using j(1) by (simp add: candidate_ok_def open_before_def p)
  then have "claimable (w, now) (jobs (tables st)) j" using j(4) unfolding claimable_def open_before_def by blast
  with j free show thesis by (intro that)
qed

lemma job_row_step_statements:
  assumes "job_row_step st st'" "sound (tables st)" "claims_ok st"
  shows "db_step\<^sup>*\<^sup>* (tables st) (tables st')"
  using assms
proof (induction rule: job_row_step.induct)
  case (Commit_Take st t w now s j')
  from Commit_Take(4,1) obtain j where j: "j \<in> set (jobs (tables st))" "j' = claim_set (w, now) j"
    "claimable (w, now) (jobs (tables st)) j" by (rule taking_ok)
  have "j_id j' = j_id j" by (simp add: j(2))
  with take_steps[OF jobs_invD(1)[OF soundD(1)[OF Commit_Take(3)]] j(1,3) Commit_Take(2)] j(2)
  show ?case by (simp add: frame_simps)
qed (simp_all add: turn_def r_into_rtranclp)

lemma reachable_steps: "db_step\<^sup>*\<^sup>* d d' \<Longrightarrow> reachable d trace \<Longrightarrow> \<exists>trace'. reachable d' trace'"
proof (induction rule: rtranclp_induct)
  case (step d' d'')
  then obtain ids trace' where "sys_step d' ids d''" "reachable d' trace'" by (auto simp: db_step_def)
  then have "reachable d'' (trace' @ ids)" by (intro reachable.Step)
  then show ?case by blast
qed blast

lemma job_row_reach_inv: "job_row_reach st \<Longrightarrow> claims_ok st \<and> (\<exists>trace. reachable (tables st) trace)"
proof (induction rule: job_row_reach.induct)
  case (Start d trace)
  then show ?case by (auto simp: claims_ok_def)
next
  case (Next st st')
  then obtain trace where r: "claims_ok st" "reachable (tables st) trace" by blast
  note s = reachable_sound[OF r(2)]
  show ?case using job_row_step_ok[OF Next(2) s r(1)] reachable_steps[OF job_row_step_statements[OF Next(2) s r(1)] r(2)]
    by blast
qed

text \<open>
  Property C4.  Row by row, with stale snapshots, rows passed over and workers that die
  in the middle, the claims of jobs go through databases only that are reachable by whole
  statements, as long as nobody opens an earlier job of a run while a claim looks at a later
  one; and a job about to be taken has no open job before it and is locked by no one else.
\<close>

theorem job_rows_refine:
  assumes "job_row_reach st"
  shows "(\<exists>trace. reachable (tables st) trace) \<and>
    (\<forall>t w now s j. claimants st t = Taking w now s j \<longrightarrow>
       \<not> open_before (tables st) j \<and> (\<forall>u. j_id j \<in> holds (claimants st u) \<longrightarrow> u = t))"
proof (intro conjI allI impI)
  have ok: "claims_ok st" using job_row_reach_inv[OF assms] by (rule conjunct1)
  show "\<exists>trace. reachable (tables st) trace" using job_row_reach_inv[OF assms] by (rule conjunct2)
  fix t w now s j assume t: "claimants st t = Taking w now s j"
  from ok t show "\<not> open_before (tables st) j"
    by (rule taking_ok) (auto simp: open_before_def earlier_step_def)
  fix u assume "j_id j \<in> holds (claimants st u)"
  with claims_okD(2)[OF ok, of u t] t show "u = t" by auto
qed

section \<open>A claim that is left alone\<close>

lemma turn_simps [simp]: "turn t c (turn t c' st) = turn t c st" "claimants (turn t c st) t = c"
  "tables (turn t c st) = tables st"
  by (simp_all add: turn_def)

lemma held_turn: "holds (claimants st t) = {} \<Longrightarrow> holds c = {} \<Longrightarrow> held_rows (turn t c st) = held_rows st"
  by (fastforce simp: held_rows_def turn_def split: if_splits)

lemma look_steps:
  assumes "holds (claimants st t) = {}" "set js \<subseteq> set (jobs (tables st))" "\<forall>j \<in> set js. j_status j = Pending"
  shows "job_row_step\<^sup>*\<^sup>* (turn t (Looking w now js) st)
    (turn t (case find (\<lambda>j. j_id j \<notin> held_rows st) js of
       None \<Rightarrow> Resting None | Some j \<Rightarrow> Taking w now j (claim_set (w, now) j)) st)"
  using assms(2,3)
proof (induction js)
  case Nil
  show ?case using No_Job[of "turn t (Looking w now []) st" t w now] by (simp add: r_into_rtranclp)
next
  case (Cons j js)
  let ?st = "turn t (Looking w now (j # js)) st"
  have held: "held_rows ?st = held_rows st" by (rule held_turn[OF assms(1)]) simp
  show ?case
  proof (cases "j_id j \<in> held_rows st")
    case True
    then have "job_row_step ?st (turn t (Looking w now js) st)"
      using Pass_Locked[of ?st t w now j js] by (simp add: held)
    with Cons True show ?thesis by (simp add: converse_rtranclp_into_rtranclp)
  next
    case False
    with Cons.prems have "job_row_step ?st (turn t (Taking w now j (claim_set (w, now) j)) st)"
      using Take[of ?st t w now j js j] by (simp add: held)
    with False show ?thesis by (simp add: r_into_rtranclp)
  qed
qed

text \<open>
  A claim of a job during which nothing else happens does what the statement does
  when the rows locked are those that the other claims have locked: it returns the same job,
  or none, and leaves the same rows and the same run behind.
\<close>

theorem job_claim_alone_is_statement:
  assumes "jobs_inv (tables st)" "claimants st t = Resting r" "length w \<le> 100"
    and "sql_claim_next_job w now ((tables st)\<lparr>row_locks := held_rows st\<rparr>) = Inr (got, d)"
  shows "job_row_step\<^sup>*\<^sup>* st ((turn t (Resting (case got of [] \<Rightarrow> None | j # _ \<Rightarrow> Some j)) st)
    \<lparr>tables := d\<lparr>row_locks := row_locks (tables st)\<rparr>\<rparr>)"
proof -
  let ?rows = "jobs (tables st)" and ?L = "held_rows st" and ?c = "(w, now)"
  have keys: "distinct (map j_id ?rows)" by (rule jobs_invD(1)[OF assms(1)])
  have scan: "set (job_scan ?c ?rows) \<subseteq> set ?rows" "\<forall>j \<in> set (job_scan ?c ?rows). j_status j = Pending"
    by (auto simp: job_scan_def claimable_def)
  have "job_row_step st (turn t (Looking w now (job_scan ?c ?rows)) st)" by (rule Look[OF assms(2)])
  then have steps: "job_row_step\<^sup>*\<^sup>* st (turn t (case find (\<lambda>j. j_id j \<notin> ?L) (job_scan ?c ?rows) of
      None \<Rightarrow> Resting None | Some j \<Rightarrow> Taking w now j (claim_set ?c j)) st)"
    using look_steps[OF _ scan, of t w now] assms(2) by (simp add: converse_rtranclp_into_rtranclp)
  have pick: "pick_row j_id claimable claim_rank_of ?L ?c ?rows = find (\<lambda>j. j_id j \<notin> ?L) (job_scan ?c ?rows)"
    by (simp add: pick_row_scan job_scan_def)
  have locks: "e\<lparr>row_locks := L, row_locks := row_locks e\<rparr> = e" for e :: db and L by simp
  from claim_statement[OF assms(4)] show ?thesis
  proof (elim disjE exE conjE)
    assume "pick_row j_id claimable claim_rank_of (row_locks ((tables st)\<lparr>row_locks := ?L\<rparr>)) ?c
        (jobs ((tables st)\<lparr>row_locks := ?L\<rparr>)) = None"
      and g: "got = []" "d = (tables st)\<lparr>row_locks := ?L\<rparr>"
    then have "find (\<lambda>j. j_id j \<notin> ?L) (job_scan ?c ?rows) = None" by (simp add: pick)
    with steps g show ?thesis by (simp add: turn_def)
  next
    fix j assume "pick_row j_id claimable claim_rank_of (row_locks ((tables st)\<lparr>row_locks := ?L\<rparr>)) ?c
        (jobs ((tables st)\<lparr>row_locks := ?L\<rparr>)) = Some j"
      and g: "got = map (claim_set ?c) (filter (\<lambda>x. j_id x = j_id j) (jobs ((tables st)\<lparr>row_locks := ?L\<rparr>)))"
        "d = update_jobs now (\<lambda>x. j_id x = j_id j) (claim_set ?c) ((tables st)\<lparr>row_locks := ?L\<rparr>)"
    then have p: "find (\<lambda>j. j_id j \<notin> ?L) (job_scan ?c ?rows) = Some j" by (simp add: pick)
    then have j: "j \<in> set ?rows" using scan(1) by (auto simp: find_Some_iff)
    let ?j = "claim_set ?c j"
    let ?d = "update_jobs now (\<lambda>x. j_id x = j_id j) (\<lambda>_. ?j) (tables st)"
    have got: "got = [?j]" using job_rows.filter_key[OF keys j] g(1) by simp
    have "d = ?d\<lparr>row_locks := ?L\<rparr>"
      unfolding g(2) update_jobs_row_locks update_jobs_key[OF keys j, of now "claim_set ?c"] ..
    then have "d\<lparr>row_locks := row_locks (tables st)\<rparr> = ?d" using locks[of ?d ?L] by (simp add: frame_simps)
    moreover have "job_row_step (turn t (Taking w now j ?j) st) ((turn t (Resting (Some ?j)) st)\<lparr>tables := ?d\<rparr>)"
      using Commit_Take[of "turn t (Taking w now j ?j) st" t w now j ?j] assms(3) by simp
    ultimately show ?thesis using steps p got by (simp add: rtranclp.rtrancl_into_rtrancl)
  qed
qed

section \<open>One job and one claim\<close>

lemma claim_demo:
  obtains d j where "reachable d []" "jobs d = [j]" "j_status j = Pending" "row_locks d = {}"
proof -
  obtain d where d: "reachable d []" "demo_state 0 d" using demo_start by blast
  then obtain j where "jobs d = [j]" by (auto simp: demo_state_def)
  with d show thesis by (intro that[of d j]) (simp_all add: demo_state_def)
qed

lemma scan_one: "jobs d = [j] \<Longrightarrow> j_status j = Pending \<Longrightarrow> job_scan c (jobs d) = [j]"
  by (simp add: job_scan_def claimable_def earlier_step_def)

theorem job_rows_refine_witness:
  "\<exists>st j. job_row_reach st \<and> claimants st 0 = Taking (lit ''w'') 9 j (claim_set (lit ''w'', 9) j) \<and>
     \<not> open_before (tables st) (claim_set (lit ''w'', 9) j) \<and> (\<exists>trace. reachable (tables st) trace)"
proof -
  obtain d j where d: "reachable d []" "jobs d = [j]" "j_status j = Pending" by (rule claim_demo)
  let ?st = "\<lparr>tables = d, claimants = (\<lambda>_. Resting None)\<rparr>" and ?j = "claim_set (lit ''w'', 9) j"
  have "job_row_step ?st (turn 0 (Looking (lit ''w'') 9 [j]) ?st)"
    using Look[of ?st 0 None "lit ''w''" 9] scan_one[OF d(2,3), of "(lit ''w'', 9)"] by simp
  moreover have "job_row_step (turn 0 (Looking (lit ''w'') 9 [j]) ?st) (turn 0 (Taking (lit ''w'') 9 j ?j) ?st)"
    using Take[of "turn 0 (Looking (lit ''w'') 9 [j]) ?st" 0 "lit ''w''" 9 j "[]" j] d(2,3)
    by (simp add: held_turn held_rows_def[of ?st])
  ultimately have r: "job_row_reach (turn 0 (Taking (lit ''w'') 9 j ?j) ?st)"
    using job_row_reach.Start[OF d(1)] job_row_reach.Next by blast
  from job_rows_refine[OF r] have "\<not> open_before (tables (turn 0 (Taking (lit ''w'') 9 j ?j) ?st)) ?j"
    "\<exists>trace. reachable (tables (turn 0 (Taking (lit ''w'') 9 j ?j) ?st)) trace"
    using turn_simps(2) by blast+
  with r show ?thesis by (metis turn_simps(2))
qed

theorem job_claim_alone_is_statement_witness:
  "\<exists>d j d'. reachable d [] \<and> jobs d = [j] \<and> j_status j = Pending \<and>
     (let st = \<lparr>tables = d, claimants = (\<lambda>_. Resting None)\<rparr> in
      job_row_step\<^sup>*\<^sup>* st ((turn 0 (Resting (Some (claim_set (lit ''w'', 9) j))) st)\<lparr>tables := d'\<rparr>))"
proof -
  obtain d j where d: "reachable d []" "jobs d = [j]" "j_status j = Pending" "row_locks d = {}" by (rule claim_demo)
  let ?st = "\<lparr>tables = d, claimants = (\<lambda>_. Resting None)\<rparr>"
  have "claimable (lit ''w'', 9) (jobs d) j" using d(2,3) by (simp add: claimable_def earlier_step_def)
  moreover have "d\<lparr>row_locks := held_rows ?st\<rparr> = d" using d(4) by (simp add: held_rows_def)
  ultimately obtain d' where c: "sql_claim_next_job (lit ''w'') 9 (d\<lparr>row_locks := held_rows ?st\<rparr>) =
      Inr ([claim_set (lit ''w'', 9) j], d')"
    using d(2,4) by (simp add: sql_claim_next_job_def claim_row_def pick_row_def)
  have "job_row_step\<^sup>*\<^sup>* ?st ((turn 0 (Resting (Some (claim_set (lit ''w'', 9) j))) ?st)
      \<lparr>tables := d'\<lparr>row_locks := row_locks (tables ?st)\<rparr>\<rparr>)"
    using job_claim_alone_is_statement[of ?st 0 None "lit ''w''" 9 "[claim_set (lit ''w'', 9) j]" d'] c
      soundD(1)[OF reachable_sound[OF d(1)]] by simp
  with d(1-3) show ?thesis unfolding Let_def by blast
qed

end
