(* ===== verification/OutboxRows.thy ===== *)
theory OutboxRows
  imports Notifications JobRows
begin

text \<open>
  The outbox below the level of statements (src/src/queue/webhook-queue.service.ts): the
  couriers are the calls of \<open>processOneWebhook\<close> under way in any number of workers.  The
  subquery of the claim statement takes a snapshot, sorts it, and then tries one row after the
  other: SKIP LOCKED passes over a row another transaction has locked, and a row that was changed
  since the snapshot is judged again at its newest version.  What a transaction writes is seen by
  the others when it commits; between any two steps anything may happen elsewhere, and a
  process may die.  The theory shows that claims and marks may all the same be taken as the
  atomic statements of \<open>WebhookQueue\<close>, and that no webhook is ever in two couriers' hands.

  After its claim a courier holds the row the statement returned, and may mark it.  A worker does
  so if the driver hands on the rows; if it hands on the pair of rows and count, the worker does
  not know the row's id and never marks it, so that the couriers here can do all it can do and more.
\<close>

section \<open>Couriers\<close>

text \<open>The rows a claim finds in its snapshot, in the order in which it tries them.\<close>

definition scan_order :: "timestamp \<Rightarrow> webhook_outbox list \<Rightarrow> uuid list" where
  "scan_order now rows = map w_id (sort_key w_next_retry_at (filter (hook_due now rows) rows))"

text \<open>
  Where a call of \<open>processOneWebhook\<close> stands: in the claim statement with the rows it has still to
  try, or with the new version of the row it has locked; after it, in the try block or in
  the catch block; in a mark statement, with the new version (the flag: of the try block).
\<close>

datatype courier =
    Idle
  | Scanning timestamp "uuid list"
  | Claiming webhook_outbox
  | Sending webhook_outbox
  | Failing webhook_outbox
  | Marking bool webhook_outbox webhook_outbox

record outbox_sys =
  store :: db
  couriers :: "nat \<Rightarrow> courier"

definition go :: "nat \<Rightarrow> courier \<Rightarrow> outbox_sys \<Rightarrow> outbox_sys" where
  "go t c st = st\<lparr>couriers := (couriers st)(t := c)\<rparr>"

fun row_lock :: "courier \<Rightarrow> uuid set" where
  "row_lock (Claiming h) = {w_id h}"
| "row_lock (Marking b h h') = {w_id h'}"
| "row_lock _ = {}"

definition locked_hooks :: "outbox_sys \<Rightarrow> uuid set" where
  "locked_hooks st = (\<Union>t. row_lock (couriers st t))"

definition write_hook :: "webhook_outbox \<Rightarrow> db \<Rightarrow> db" where
  "write_hook h' d = d\<lparr>webhooks_outbox :=
     update_where (\<lambda>h. w_id h = w_id h') (\<lambda>_. h') (webhooks_outbox d)\<rparr>"

section \<open>Steps\<close>

inductive row_step :: "outbox_sys \<Rightarrow> outbox_sys \<Rightarrow> bool" where
  Snapshot: "couriers st t = Idle \<Longrightarrow>
    row_step st (go t (Scanning now (scan_order now (webhooks_outbox (store st)))) st)"
| Skip_Locked: "couriers st t = Scanning now (k # ks) \<Longrightarrow> k \<in> locked_hooks st \<Longrightarrow>
    row_step st (go t (Scanning now ks) st)"
| Skip_Changed: "couriers st t = Scanning now (k # ks) \<Longrightarrow> k \<notin> locked_hooks st \<Longrightarrow>
    \<forall>h \<in> set (webhooks_outbox (store st)). w_id h = k \<longrightarrow> \<not> hook_due now (webhooks_outbox (store st)) h \<Longrightarrow>
    row_step st (go t (Scanning now ks) st)"
| Lock_Row: "couriers st t = Scanning now (w_id h # ks) \<Longrightarrow> w_id h \<notin> locked_hooks st \<Longrightarrow>
    h \<in> set (webhooks_outbox (store st)) \<Longrightarrow> hook_due now (webhooks_outbox (store st)) h \<Longrightarrow>
    row_step st (go t (Claiming (processing_set now h)) st)"
| Nothing_Found: "couriers st t = Scanning now [] \<Longrightarrow> row_step st (go t Idle st)"
| Commit_Claim: "couriers st t = Claiming h \<Longrightarrow>
    row_step st ((go t (Sending h) st)\<lparr>store := write_hook h (store st)\<rparr>)"
| Delivery_Failed: "couriers st t = Sending h \<Longrightarrow> row_step st (go t (Failing h) st)"
| Mark_Processed: "couriers st t = Sending h \<Longrightarrow> h0 \<in> set (webhooks_outbox (store st)) \<Longrightarrow>
    w_id h0 = w_id h \<Longrightarrow> w_id h \<notin> locked_hooks st \<Longrightarrow>
    row_step st (go t (Marking True h (processed_set now h0)) st)"
| Mark_Failed: "couriers st t = Failing h \<Longrightarrow> h0 \<in> set (webhooks_outbox (store st)) \<Longrightarrow>
    w_id h0 = w_id h \<Longrightarrow> w_id h \<notin> locked_hooks st \<Longrightarrow>
    row_step st (go t (Marking False h (hook_failed_set now h0)) st)"
| Commit_Mark: "couriers st t = Marking b h h' \<Longrightarrow>
    row_step st ((go t Idle st)\<lparr>store := write_hook h' (store st)\<rparr>)"
| Mark_Error: "couriers st t = Marking True h h' \<Longrightarrow> row_step st (go t (Failing h) st)"
| Reply_Lost: "couriers st t = Marking True h h' \<Longrightarrow>
    row_step st ((go t (Failing h) st)\<lparr>store := write_hook h' (store st)\<rparr>)"
| Give_Up: "row_step st (go t Idle st)"
| Enqueue: "sql_enqueue_notification ty pl url m now (store st) = Inr (h, d') \<Longrightarrow>
    row_step st (st\<lparr>store := d'\<rparr>)"
| Elsewhere: "db_step (store st) d' \<Longrightarrow> webhooks_outbox d' = webhooks_outbox (store st) \<Longrightarrow>
    row_step st (st\<lparr>store := d'\<rparr>)"

inductive row_reach :: "outbox_sys \<Rightarrow> bool" where
  Start: "reachable d trace \<Longrightarrow> row_reach \<lparr>store = d, couriers = (\<lambda>_. Idle)\<rparr>"
| Next: "row_reach st \<Longrightarrow> row_step st st' \<Longrightarrow> row_reach st'"

text \<open>The webhook a courier has taken and not yet given back.\<close>

fun in_hand :: "courier \<Rightarrow> uuid option" where
  "in_hand (Claiming h) = Some (w_id h)"
| "in_hand (Sending h) = Some (w_id h)"
| "in_hand (Failing h) = Some (w_id h)"
| "in_hand (Marking b h h') = Some (w_id h)"
| "in_hand _ = None"

section \<open>Keys of the outbox\<close>

definition hook_keys :: "db \<Rightarrow> bool" where
  "hook_keys d \<longleftrightarrow> distinct (map w_id (webhooks_outbox d)) \<and>
     (\<forall>h \<in> set (webhooks_outbox d). w_id h < next_uuid d)"

lemma hook_keys_map:
  "hook_keys d \<longleftrightarrow> distinct (map w_id (webhooks_outbox d)) \<and>
     (\<forall>k \<in> set (map w_id (webhooks_outbox d)). k < next_uuid d)"
  by (simp add: hook_keys_def)

lemma hook_keys_same:
  "map w_id (webhooks_outbox d') = map w_id (webhooks_outbox d) \<Longrightarrow> next_uuid d \<le> next_uuid d' \<Longrightarrow>
     hook_keys d \<Longrightarrow> hook_keys d'"
  unfolding hook_keys_map by (auto intro: less_le_trans)

lemma hook_keys_enqueue:
  assumes "sql_enqueue_notification ty pl url m now d = Inr (h, d')" "hook_keys d"
  shows "hook_keys d'" "set (webhooks_outbox d) \<subseteq> set (webhooks_outbox d')"
proof -
  have "webhooks_outbox d' = webhooks_outbox d @ [h]" "w_id h = next_uuid d" "next_uuid d' = next_uuid d + 1"
    using assms(1) by (auto simp: sql_enqueue_notification_def Let_def split: if_splits)
  then show "hook_keys d'" "set (webhooks_outbox d) \<subseteq> set (webhooks_outbox d')"
    using assms(2) by (fastforce simp: hook_keys_def)+
qed

lemma claim_next_uuid: "sql_claim_next_job workerId now d = Inr (got, d') \<Longrightarrow> next_uuid d' = next_uuid d"
  by (cases "claim_row j_id claimable claim_rank_of claim_set (row_locks d) (workerId, now) (jobs d)")
    (auto simp: sql_claim_next_job_def fire_frame split: if_splits)

lemma step_next_uuid:
  assumes "sys_step d ids d'" "jobs_inv d"
  shows "next_uuid d \<le> next_uuid d'"
  using step_rows_evolve[OF assms] claim_next_uuid by (force simp: rows_evolve_def)

lemma db_step_next_uuid: "db_step d d' \<Longrightarrow> sound d \<Longrightarrow> next_uuid d \<le> next_uuid d'"
  using step_next_uuid soundD(1) by (auto simp: db_step_def)

lemma write_hook_rows:
  assumes "hook_keys d" "h0 \<in> set (webhooks_outbox d)" "w_id h' = w_id h0"
  shows "set (webhooks_outbox (write_hook h' d)) = insert h' (set (webhooks_outbox d) - {h0})"
    "hook_keys (write_hook h' d)"
proof -
  have "distinct (map w_id (webhooks_outbox d))" using assms(1) by (simp add: hook_keys_def)
  from hook_rows.update_key[OF this assms(2), of "\<lambda>_. h'"]
  show "set (webhooks_outbox (write_hook h' d)) = insert h' (set (webhooks_outbox d) - {h0})"
    by (simp add: write_hook_def assms(3))
  have "map w_id (webhooks_outbox (write_hook h' d)) = map w_id (webhooks_outbox d)"
    by (simp add: write_hook_def update_where_def)
  then show "hook_keys (write_hook h' d)"
    by (rule hook_keys_same[OF _ _ assms(1)]) (simp add: write_hook_def)
qed

section \<open>What a courier relies on\<close>

definition not_waiting :: "db \<Rightarrow> uuid \<Rightarrow> bool" where
  "not_waiting d k \<longleftrightarrow> (\<exists>h \<in> set (webhooks_outbox d). w_id h = k \<and> w_status h \<noteq> Hook_Pending)"

fun fits :: "db \<Rightarrow> courier \<Rightarrow> bool" where
  "fits d (Claiming h) \<longleftrightarrow> (\<exists>h0 \<in> set (webhooks_outbox d). \<exists>now.
     hook_due now [] h0 \<and> h = processing_set now h0)"
| "fits d (Sending h) \<longleftrightarrow> not_waiting d (w_id h)"
| "fits d (Failing h) \<longleftrightarrow> not_waiting d (w_id h)"
| "fits d (Marking b h h') \<longleftrightarrow> (\<exists>h0 \<in> set (webhooks_outbox d). \<exists>now.
     w_id h0 = w_id h \<and> w_status h0 \<noteq> Hook_Pending \<and>
     h' = (if b then processed_set now h0 else hook_failed_set now h0))"
| "fits d _ \<longleftrightarrow> True"

lemma hook_due_rows: "hook_due now rows h = hook_due now [] h"
  by (simp add: hook_due_def)

lemma fits_frame:
  assumes "fits d c"
    and keep: "\<And>h. h \<in> set (webhooks_outbox d) \<Longrightarrow> in_hand c = Some (w_id h) \<Longrightarrow> h \<in> set (webhooks_outbox d')"
  shows "fits d' c"
proof (cases c)
  case (Marking b h h')
  with assms(1) obtain h0 now where "h0 \<in> set (webhooks_outbox d)" "w_id h0 = w_id h"
    "w_status h0 \<noteq> Hook_Pending" "h' = (if b then processed_set now h0 else hook_failed_set now h0)"
    by auto
  then show ?thesis using keep[of h0] unfolding Marking fits.simps by (intro bexI[of _ h0] exI[of _ now]) simp_all
qed (use assms in \<open>auto simp: not_waiting_def\<close>)

lemma lock_in_hand: "fits d c \<Longrightarrow> k \<in> row_lock c \<Longrightarrow> in_hand c = Some k"
  by (cases c) (auto split: if_splits)

definition couriers_ok :: "outbox_sys \<Rightarrow> bool" where
  "couriers_ok st \<longleftrightarrow> hook_keys (store st) \<and> (\<forall>t. fits (store st) (couriers st t)) \<and>
     (\<forall>t u k. t \<noteq> u \<longrightarrow> in_hand (couriers st t) = Some k \<longrightarrow> in_hand (couriers st u) \<noteq> Some k)"

lemma couriers_okD:
  assumes "couriers_ok st"
  shows "hook_keys (store st)" "fits (store st) (couriers st t)"
    "t \<noteq> u \<Longrightarrow> in_hand (couriers st t) = Some k \<Longrightarrow> in_hand (couriers st u) \<noteq> Some k"
  using assms unfolding couriers_ok_def by blast+

lemma couriers_ok_go:
  assumes "couriers_ok st" "fits (store st) c"
    and "\<And>u k. u \<noteq> t \<Longrightarrow> in_hand c = Some k \<Longrightarrow> in_hand (couriers st u) \<noteq> Some k"
  shows "couriers_ok (go t c st)"
  using assms unfolding couriers_ok_def go_def by (simp add: outbox_sys.defs) metis

text \<open>A step that keeps what the courier has in hand, or gives it back.\<close>

lemma couriers_ok_keep:
  assumes "couriers_ok st" "fits (store st) c" "in_hand c \<in> {None, in_hand (couriers st t)}"
  shows "couriers_ok (go t c st)"
  by (rule couriers_ok_go[OF assms(1,2)]) (use assms(3) couriers_okD(3)[OF assms(1)] in fastforce)

text \<open>The commit of a row that the courier has in hand.\<close>

lemma couriers_ok_write:
  assumes "couriers_ok st" "h0 \<in> set (webhooks_outbox (store st))" "w_id h' = w_id h0"
    and "in_hand (couriers st t) = Some (w_id h0)" "in_hand c \<in> {None, Some (w_id h0)}"
    and "c = Idle \<or> w_status h' \<noteq> Hook_Pending \<and> c \<in> Sending ` {h. w_id h = w_id h0} \<union> Failing ` {h. w_id h = w_id h0}"
  shows "couriers_ok ((go t c st)\<lparr>store := write_hook h' (store st)\<rparr>)"
proof -
  note rows = write_hook_rows[OF couriers_okD(1)[OF assms(1)] assms(2,3)]
  have c: "fits (write_hook h' (store st)) c"
    using assms(3,6) by (auto simp: not_waiting_def rows(1))
  have u: "fits (write_hook h' (store st)) (couriers st u)" if "u \<noteq> t" for u
    by (rule fits_frame[OF couriers_okD(2)[OF assms(1)]])
      (use couriers_okD(3)[OF assms(1) that] assms(4) in \<open>auto simp: rows(1)\<close>)
  let ?st = "(go t c st)\<lparr>store := write_hook h' (store st)\<rparr>"
  have apart: "in_hand (couriers ?st u) \<noteq> Some k"
    if "v \<noteq> u" "in_hand (couriers ?st v) = Some k" for u v k
  proof -
    have "in_hand (couriers st v) = Some k" using that assms(4,5) by (auto simp: go_def split: if_splits)
    from couriers_okD(3)[OF assms(1) that(1) this] show ?thesis
      using assms(4,5) by (auto simp: go_def split: if_splits)
  qed
  have "fits (store ?st) (couriers ?st u)" for u using c u[of u] by (simp add: go_def)
  with apart rows(2) show ?thesis unfolding couriers_ok_def by auto
qed

text \<open>What another process commits.\<close>

lemma couriers_ok_store:
  assumes "couriers_ok st" "hook_keys d" "set (webhooks_outbox (store st)) \<subseteq> set (webhooks_outbox d)"
  shows "couriers_ok (st\<lparr>store := d\<rparr>)"
  using fits_frame[OF couriers_okD(2)[OF assms(1)], of _ d] assms couriers_okD(3)[OF assms(1)]
  unfolding couriers_ok_def by auto

lemma couriers_ok_elsewhere:
  assumes "couriers_ok st" "sound (store st)" "db_step (store st) d"
    and "webhooks_outbox d = webhooks_outbox (store st)"
  shows "couriers_ok (st\<lparr>store := d\<rparr>)"
  by (rule couriers_ok_store[OF assms(1)])
    (use assms(4) hook_keys_same[OF _ db_step_next_uuid[OF assms(3,2)] couriers_okD(1)[OF assms(1)]] in simp_all)

text \<open>A row is locked when no courier has it, or has it without having written it.\<close>

lemma free_row:
  assumes "couriers_ok st" "h \<in> set (webhooks_outbox (store st))" "w_status h = Hook_Pending"
    and "w_id h \<notin> locked_hooks st"
  shows "in_hand (couriers st u) \<noteq> Some (w_id h)"
proof
  assume hand: "in_hand (couriers st u) = Some (w_id h)"
  have same: "h0 = h" if "h0 \<in> set (webhooks_outbox (store st))" "w_id h0 = w_id h" for h0
    using hook_rows.key_unique[OF _ that(1) assms(2)] that(2) couriers_okD(1)[OF assms(1)]
    by (simp add: hook_keys_def)
  have "row_lock (couriers st u) \<subseteq> locked_hooks st" unfolding locked_hooks_def by blast
  with assms(4) have "w_id h \<notin> row_lock (couriers st u)" by blast
  with couriers_okD(2)[OF assms(1), of u] hand assms(3) same show False
    by (cases "couriers st u") (auto simp: not_waiting_def)
qed

lemma not_waiting_row:
  assumes "couriers_ok st" "h0 \<in> set (webhooks_outbox (store st))"
  shows "not_waiting (store st) (w_id h0) \<longleftrightarrow> w_status h0 \<noteq> Hook_Pending"
proof -
  have "distinct (map w_id (webhooks_outbox (store st)))"
    using couriers_okD(1)[OF assms(1)] by (simp add: hook_keys_def)
  from hook_rows.key_ex[OF this assms(2)] show ?thesis unfolding not_waiting_def .
qed

lemma marking_ok:
  assumes "couriers_ok st" "couriers st t = Marking b h h'"
  obtains h0 now where "h0 \<in> set (webhooks_outbox (store st))" "w_id h0 = w_id h" "w_id h' = w_id h0"
    "w_status h0 \<noteq> Hook_Pending" "h' = (if b then processed_set now h0 else hook_failed_set now h0)"
proof -
  have "fits (store st) (Marking b h h')" using couriers_okD(2)[OF assms(1), of t] assms(2) by simp
  then obtain h0 now where m: "h0 \<in> set (webhooks_outbox (store st))" "w_id h0 = w_id h"
    "w_status h0 \<noteq> Hook_Pending" "h' = (if b then processed_set now h0 else hook_failed_set now h0)"
    by auto
  moreover have "w_id h' = w_id h0" using m(4) by simp
  ultimately show thesis by (intro that)
qed

lemma row_step_ok:
  assumes "row_step st st'" "sound (store st)" "couriers_ok st"
  shows "couriers_ok st'"
  using assms
proof (induction rule: row_step.induct)
  case (Lock_Row st t now h ks)
  have "w_status h = Hook_Pending" using Lock_Row(4) by (simp add: hook_due_def)
  note free = free_row[OF Lock_Row(6,3) this Lock_Row(2)]
  have "hook_due now [] h" using Lock_Row(4) hook_due_rows by blast
  with Lock_Row(3) free show ?case by (intro couriers_ok_go[OF Lock_Row(6)]) auto
next
  case (Commit_Claim st t h)
  from couriers_okD(2)[OF Commit_Claim(3), of t] Commit_Claim(1) obtain h0 now where
    h0: "h0 \<in> set (webhooks_outbox (store st))" "h = processing_set now h0" by auto
  then show ?case using Commit_Claim(1)
    by (intro couriers_ok_write[OF Commit_Claim(3) h0(1)]) (simp_all add: processing_set_def)
next
  case (Mark_Processed st t h h0)
  have "not_waiting (store st) (w_id h0)"
    using couriers_okD(2)[OF Mark_Processed(6), of t] Mark_Processed(1,3) by simp
  then have "w_status h0 \<noteq> Hook_Pending" using not_waiting_row[OF Mark_Processed(6,2)] by blast
  with Mark_Processed(1-3) show ?case by (intro couriers_ok_keep[OF Mark_Processed(6)]) auto
next
  case (Enqueue ty pl url m now st h d')
  then show ?case using hook_keys_enqueue couriers_okD(1) by (intro couriers_ok_store) blast+
next
  case (Elsewhere st d')
  then show ?case by (intro couriers_ok_elsewhere)
next
  case (Commit_Mark st t b h h')
  from Commit_Mark(3,1) obtain h0 where h0: "h0 \<in> set (webhooks_outbox (store st))" "w_id h0 = w_id h"
    "w_id h' = w_id h0" by (rule marking_ok)
  show ?case by (rule couriers_ok_write[OF Commit_Mark(3) h0(1,3)]) (use Commit_Mark(1) h0(2) in simp_all)
next
  case (Mark_Failed st t h h0)
  have "not_waiting (store st) (w_id h0)"
    using couriers_okD(2)[OF Mark_Failed(6), of t] Mark_Failed(1,3) by simp
  then have "w_status h0 \<noteq> Hook_Pending" using not_waiting_row[OF Mark_Failed(6,2)] by blast
  with Mark_Failed(1-3) show ?case by (intro couriers_ok_keep[OF Mark_Failed(6)]) auto
next
  case (Reply_Lost st t h h')
  from Reply_Lost(3,1) obtain h0 now where h0: "h0 \<in> set (webhooks_outbox (store st))" "w_id h0 = w_id h"
    "w_id h' = w_id h0" "h' = (if True then processed_set now h0 else hook_failed_set now h0)"
    by (rule marking_ok)
  show ?case by (rule couriers_ok_write[OF Reply_Lost(3) h0(1,3)])
    (use Reply_Lost(1) h0 in \<open>simp_all add: processed_set_def\<close>)
next
  case (Delivery_Failed st t h)
  have "not_waiting (store st) (w_id h)" using couriers_okD(2)[OF Delivery_Failed(3), of t] Delivery_Failed(1) by simp
  with Delivery_Failed(1) show ?case by (intro couriers_ok_keep[OF Delivery_Failed(3)]) simp_all
next
  case (Mark_Error st t h h')
  have "not_waiting (store st) (w_id h)"
    using couriers_okD(2)[OF Mark_Error(3), of t] Mark_Error(1) by (auto simp: not_waiting_def)
  with Mark_Error(1) show ?case by (intro couriers_ok_keep[OF Mark_Error(3)]) simp_all
qed (simp_all add: couriers_ok_keep)

section \<open>Commits are statements\<close>

lemma write_hook_update:
  assumes "hook_keys d" "h0 \<in> set (webhooks_outbox d)" "w_id (f h0) = w_id h0"
  shows "d\<lparr>webhooks_outbox := update_where (\<lambda>x. w_id x = w_id h0) f (webhooks_outbox d)\<rparr> = write_hook (f h0) d"
proof -
  have "update_where (\<lambda>x. w_id x = w_id h0) f (webhooks_outbox d) =
      update_where (\<lambda>x. w_id x = w_id h0) (\<lambda>_. f h0) (webhooks_outbox d)"
    using assms(1) hook_rows.key_unique[OF _ _ assms(2)] unfolding hook_keys_def
    by (intro update_where_cong_rows refl) blast
  then show ?thesis by (simp add: write_hook_def assms(3))
qed

text \<open>The statement claims the row that was found, if all others are taken to be locked.\<close>

lemma claim_commit:
  assumes "hook_keys d" "h0 \<in> set (webhooks_outbox d)" "hook_due now [] h0"
  shows "sql_claim_next_webhook now (d\<lparr>row_locks := - {w_id h0}\<rparr>) =
    Inr ([processing_set now h0], (write_hook (processing_set now h0) d)\<lparr>row_locks := - {w_id h0}\<rparr>)"
proof -
  let ?rows = "webhooks_outbox d"
  have keys: "distinct (map w_id ?rows)" using assms(1) by (simp add: hook_keys_def)
  have due: "hook_due now ?rows h0" using assms(3) hook_due_rows by blast
  obtain got rows where c: "claim_row w_id hook_due w_next_retry_at processing_set (- {w_id h0}) now ?rows =
    (got, rows)" by fastforce
  from wq.claim_outcome[OF keys c] due assms(2) obtain h where h: "h \<in> set ?rows" "w_id h \<notin> - {w_id h0}"
    "got = [processing_set now h]" "rows = update_where (\<lambda>x. w_id x = w_id h) (processing_set now) ?rows" by auto
  have "h = h0" using hook_rows.key_unique[OF keys h(1) assms(2)] h(2) by simp
  with h have "got = [processing_set now h0]"
    "rows = update_where (\<lambda>x. w_id x = w_id h0) (processing_set now) ?rows" by simp_all
  moreover have "update_where (\<lambda>x. w_id x = w_id h0) (processing_set now) ?rows =
      webhooks_outbox (write_hook (processing_set now h0) d)"
    using arg_cong[OF write_hook_update[OF assms(1,2), of "processing_set now"], of webhooks_outbox] by simp
  ultimately show ?thesis using c by (simp add: sql_claim_next_webhook_def write_hook_def)
qed

lemma mark_commit:
  assumes "hook_keys d" "h0 \<in> set (webhooks_outbox d)"
  shows "sql_mark_webhook_processed (Some (w_id h0)) now d = Inr ((), write_hook (processed_set now h0) d)"
    "sql_mark_webhook_failed (Some (w_id h0)) now d = Inr ((), write_hook (hook_failed_set now h0) d)"
proof -
  have row: "(\<lambda>w. Some (w_id h0) = Some (w_id w)) = (\<lambda>w. w_id w = w_id h0)" by auto
  note w = write_hook_update[OF assms]
  show "sql_mark_webhook_processed (Some (w_id h0)) now d = Inr ((), write_hook (processed_set now h0) d)"
    "sql_mark_webhook_failed (Some (w_id h0)) now d = Inr ((), write_hook (hook_failed_set now h0) d)"
    by (simp_all only: sql_mark_webhook_processed_def sql_mark_webhook_failed_def update_hook_def row w hook_set_ids)
qed

lemma claim_steps:
  assumes "hook_keys d" "h0 \<in> set (webhooks_outbox d)" "hook_due now [] h0"
  shows "db_step\<^sup>*\<^sup>* d (write_hook (processing_set now h0) d)"
  by (rule step_under_locks[OF Claim_Hook[OF claim_commit[OF assms]]]) (simp add: write_hook_def)

lemma mark_steps:
  assumes "hook_keys d" "h0 \<in> set (webhooks_outbox d)"
  shows "db_step\<^sup>*\<^sup>* d (write_hook (if b then processed_set now h0 else hook_failed_set now h0) d)"
  using db_stepI[OF Hook_Done[OF mark_commit(1)[OF assms]]] db_stepI[OF Hook_Again[OF mark_commit(2)[OF assms]]]
  by (simp add: r_into_rtranclp)

lemma row_step_statements:
  assumes "row_step st st'" "couriers_ok st"
  shows "db_step\<^sup>*\<^sup>* (store st) (store st')"
  using assms
proof (induction rule: row_step.induct)
  case (Commit_Claim st t h)
  from couriers_okD(2)[OF Commit_Claim(2), of t] Commit_Claim(1) obtain h0 now where
    "h0 \<in> set (webhooks_outbox (store st))" "hook_due now [] h0" "h = processing_set now h0" by auto
  with claim_steps[OF couriers_okD(1)[OF Commit_Claim(2)]] show ?case by (simp add: go_def)
next
  case (Commit_Mark st t b h h')
  from Commit_Mark(2,1) show ?case
    by (rule marking_ok) (simp add: mark_steps[OF couriers_okD(1)[OF Commit_Mark(2)]])
next
  case (Reply_Lost st t h h')
  from Reply_Lost(2,1) show ?case
    by (rule marking_ok) (use mark_steps[OF couriers_okD(1)[OF Reply_Lost(2)], where b = True] in simp)
next
  case (Enqueue ty pl url m now st h d')
  then show ?case using db_stepI[OF Enqueue_Hook[OF Enqueue(1)]] by (simp add: r_into_rtranclp)
qed (simp_all add: go_def r_into_rtranclp)

section \<open>Reachable states\<close>

lemma reachable_hook_keys: "reachable d trace \<Longrightarrow> hook_keys d"
proof (induction rule: reachable.induct)
  case (Initial now)
  then show ?case by (simp add: hook_keys_def initial_db_hooks)
next
  case (Step d trace ids d')
  note mono = step_next_uuid[OF Step(2) soundD(1)[OF reachable_sound[OF Step(1)]]]
  from step_hook_rows[OF Step(2)] show ?case
    using hook_keys_same[OF _ mono Step(3)] hook_keys_enqueue(1)[OF _ Step(3)] by blast
qed

lemma row_reach_inv: "row_reach st \<Longrightarrow> couriers_ok st \<and> (\<exists>trace. reachable (store st) trace)"
proof (induction rule: row_reach.induct)
  case (Start d trace)
  then show ?case using reachable_hook_keys by (auto simp: couriers_ok_def)
next
  case (Next st st')
  then obtain trace where r: "couriers_ok st" "reachable (store st) trace" by blast
  show ?case using row_step_ok[OF Next(2) reachable_sound[OF r(2)] r(1)]
      reachable_steps[OF row_step_statements[OF Next(2) r(1)] r(2)] by blast
qed

text \<open>
  Property C12.  Row by row and with couriers that die at any point, the outbox goes through
  databases only that are reachable by whole statements, so that what is shown of those holds
  for it too.
\<close>

theorem outbox_rows_refine:
  assumes "row_reach st"
  shows "\<exists>trace. reachable (store st) trace"
  using row_reach_inv[OF assms] by (rule conjunct2)

text \<open>
  Property C13.  No webhook is in the hands of two couriers at the same time, from the
  moment a claim locks its row until the mark is committed, whatever the interleaving; and a row
  that a courier has claimed is not waiting, so that no other claim finds it.
\<close>

theorem outbox_courier_exclusive:
  assumes "row_reach st" "in_hand (couriers st t) = Some k"
  shows "(\<forall>u. in_hand (couriers st u) = Some k \<longrightarrow> u = t) \<and>
    (\<forall>h \<in> set (webhooks_outbox (store st)). w_id h = k \<longrightarrow> w_status h = Hook_Pending \<longrightarrow> k \<in> locked_hooks st)"
proof -
  have ok: "couriers_ok st" using row_reach_inv[OF assms(1)] by (rule conjunct1)
  have "u = t" if "in_hand (couriers st u) = Some k" for u using couriers_okD(3)[OF ok, of t u k] assms(2) that by blast
  moreover have "k \<in> locked_hooks st"
    if "h \<in> set (webhooks_outbox (store st))" "w_id h = k" "w_status h = Hook_Pending" for h
    using free_row[OF ok that(1,3)] assms(2) that(2) by blast
  ultimately show ?thesis by blast
qed

section \<open>A claim that is left alone\<close>

lemma locked_go: "row_lock (couriers st t) = {} \<Longrightarrow> row_lock c = {} \<Longrightarrow> locked_hooks (go t c st) = locked_hooks st"
  by (fastforce simp: locked_hooks_def go_def split: if_splits)

lemma go_simps [simp]: "go t c (go t c' st) = go t c st" "couriers (go t c st) t = c" "store (go t c st) = store st"
  by (simp_all add: go_def)

lemma scan_steps:
  assumes "row_lock (couriers st t) = {}" "set hs \<subseteq> set (webhooks_outbox (store st))"
    and "\<forall>h \<in> set hs. hook_due now [] h"
  shows "row_step\<^sup>*\<^sup>* (go t (Scanning now (map w_id hs)) st)
    (go t (case find (\<lambda>h. w_id h \<notin> locked_hooks st) hs of
       None \<Rightarrow> Idle | Some h \<Rightarrow> Claiming (processing_set now h)) st)"
  using assms(2,3)
proof (induction hs)
  case Nil
  show ?case using Nothing_Found[of "go t (Scanning now []) st" t now] by (simp add: r_into_rtranclp)
next
  case (Cons h hs)
  let ?st = "go t (Scanning now (w_id h # map w_id hs)) st"
  have locked: "locked_hooks ?st = locked_hooks st" by (rule locked_go[OF assms(1)]) simp
  show ?case
  proof (cases "w_id h \<in> locked_hooks st")
    case True
    then have "row_step ?st (go t (Scanning now (map w_id hs)) st)"
      using Skip_Locked[of ?st t now "w_id h" "map w_id hs"] by (simp add: locked)
    with Cons True show ?thesis by (simp add: converse_rtranclp_into_rtranclp)
  next
    case False
    have "hook_due now (webhooks_outbox (store st)) h" using Cons.prems(2) hook_due_rows by auto
    with Cons.prems(1) False have "row_step ?st (go t (Claiming (processing_set now h)) st)"
      using Lock_Row[of ?st t now h "map w_id hs"] by (simp add: locked)
    with False show ?thesis by (simp add: r_into_rtranclp)
  qed
qed

text \<open>
  A claim during which nothing else happens does what the statement does when the
  rows locked are those that the other couriers have locked: it finds the same webhook, or
  none, and leaves the same rows behind.
\<close>

theorem claim_alone_is_statement:
  assumes "hook_keys (store st)" "couriers st t = Idle"
    and "sql_claim_next_webhook now ((store st)\<lparr>row_locks := locked_hooks st\<rparr>) = Inr (got, d)"
  shows "row_step\<^sup>*\<^sup>* st ((go t (case got of [] \<Rightarrow> Idle | h # _ \<Rightarrow> Sending h) st)
    \<lparr>store := d\<lparr>row_locks := row_locks (store st)\<rparr>\<rparr>)"
proof -
  let ?rows = "webhooks_outbox (store st)" and ?L = "locked_hooks st"
  define hs where "hs = sort_key w_next_retry_at (filter (hook_due now ?rows) ?rows)"
  have keys: "distinct (map w_id ?rows)" using assms(1) by (simp add: hook_keys_def)
  have hs: "set hs \<subseteq> set ?rows" "\<forall>h \<in> set hs. hook_due now [] h"
    using hook_due_rows[of now ?rows] by (auto simp: hs_def)
  have "row_step st (go t (Scanning now (map w_id hs)) st)"
    using Snapshot[OF assms(2), of now] by (simp add: scan_order_def hs_def)
  then have scan: "row_step\<^sup>*\<^sup>* st (go t (case find (\<lambda>h. w_id h \<notin> ?L) hs of
      None \<Rightarrow> Idle | Some h \<Rightarrow> Claiming (processing_set now h)) st)"
    using scan_steps[OF _ hs, of t] assms(2) by (simp add: converse_rtranclp_into_rtranclp)
  have pick: "pick_row w_id hook_due w_next_retry_at ?L now ?rows = find (\<lambda>h. w_id h \<notin> ?L) hs"
    by (simp add: pick_row_scan hs_def)
  show ?thesis
  proof (cases "find (\<lambda>h. w_id h \<notin> ?L) hs")
    case None
    with pick assms(3) have "got = []" "d = (store st)\<lparr>row_locks := ?L\<rparr>"
      by (auto simp: sql_claim_next_webhook_def claim_row_def)
    with scan None show ?thesis by (simp add: go_def)
  next
    case (Some h)
    with hs(1) have h: "h \<in> set ?rows" by (auto simp: find_Some_iff)
    let ?h = "processing_set now h"
    have "filter (\<lambda>x. w_id x = w_id h) ?rows = [h]" by (rule hook_rows.filter_key[OF keys h])
    with pick assms(3) Some have "got = [?h]"
      "d = (store st)\<lparr>webhooks_outbox := update_where (\<lambda>x. w_id x = w_id h) (processing_set now) ?rows,
        row_locks := ?L\<rparr>"
      by (auto simp: sql_claim_next_webhook_def claim_row_def)
    moreover have "(store st)\<lparr>webhooks_outbox := update_where (\<lambda>x. w_id x = w_id h) (processing_set now) ?rows\<rparr> =
        write_hook ?h (store st)"
      by (rule write_hook_update[OF assms(1) h]) simp
    ultimately have "got = [?h]" "d\<lparr>row_locks := row_locks (store st)\<rparr> = write_hook ?h (store st)"
      by (simp_all add: write_hook_def)
    moreover have "row_step (go t (Claiming ?h) st) ((go t (Sending ?h) st)\<lparr>store := write_hook ?h (store st)\<rparr>)"
      using Commit_Claim[of "go t (Claiming ?h) st" t ?h] by simp
    ultimately show ?thesis using scan Some by (simp add: rtranclp.rtrancl_into_rtrancl)
  qed
qed

theorem claim_alone_is_statement_witness:
  "let d = empty_db\<lparr>webhooks_outbox := [demo_hook 0 3], next_uuid := 5\<rparr>;
       st = \<lparr>store = d, couriers = (\<lambda>_. Idle)\<rparr>
   in row_step\<^sup>*\<^sup>* st ((go 0 (Sending (processing_set 4 (demo_hook 0 3))) st)
        \<lparr>store := d\<lparr>webhooks_outbox := [processing_set 4 (demo_hook 0 3)]\<rparr>\<rparr>)"
proof -
  let ?h = "demo_hook 0 3"
  let ?d = "empty_db\<lparr>webhooks_outbox := [?h], next_uuid := 5\<rparr>"
  let ?st = "\<lparr>store = ?d, couriers = (\<lambda>_. Idle)\<rparr>"
  have "sql_claim_next_webhook 4 (?d\<lparr>row_locks := locked_hooks ?st\<rparr>) =
      Inr ([processing_set 4 ?h], ?d\<lparr>row_locks := locked_hooks ?st, webhooks_outbox := [processing_set 4 ?h]\<rparr>)"
    by (simp add: sql_claim_next_webhook_def claim_row_def pick_row_def locked_hooks_def hook_due_def demo_hook_def)
  with claim_alone_is_statement[of ?st 0 4 "[processing_set 4 ?h]"] show ?thesis
    by (simp add: Let_def hook_keys_def demo_hook_def empty_db_def)
qed

text \<open>A webhook that has been enqueued and is in the hands of a courier.\<close>

lemma courier_demo:
  obtains st k where "row_reach st" "in_hand (couriers st 0) = Some k"
proof -
  obtain h d where e: "sql_enqueue_notification [] [] [] 5 7 (initial_db 7) = Inr (h, d)"
    by (simp add: sql_enqueue_notification_def fits_int4_def Let_def)
  then have d: "webhooks_outbox d = [h]" "hook_due 7 [] h"
    by (auto simp: sql_enqueue_notification_def fits_int4_def Let_def initial_db_hooks hook_due_def)
  let ?st = "\<lparr>store = d, couriers = (\<lambda>_. Idle)\<rparr>"
  have r: "row_reach ?st"
    using row_reach.Next[OF row_reach.Start[OF Initial[of 7]] Enqueue[of "[]" "[]" "[]" 5 7]] e by simp
  have "row_step ?st (go 0 (Scanning 7 [w_id h]) ?st)"
    using Snapshot[of ?st 0 7] d by (simp add: scan_order_def hook_due_def)
  moreover have "row_step (go 0 (Scanning 7 [w_id h]) ?st) (go 0 (Claiming (processing_set 7 h)) ?st)"
    using Lock_Row[of "go 0 (Scanning 7 [w_id h]) ?st" 0 7 h "[]"] d
    by (simp add: locked_go locked_hooks_def[of ?st] hook_due_def)
  ultimately have "row_reach (go 0 (Claiming (processing_set 7 h)) ?st)" using r row_reach.Next by blast
  then show thesis by (rule that) simp
qed

theorem outbox_rows_refine_witness:
  "\<exists>st k trace. row_reach st \<and> in_hand (couriers st 0) = Some k \<and> reachable (store st) trace"
proof -
  obtain st k where "row_reach st" "in_hand (couriers st 0) = Some k" by (rule courier_demo)
  with outbox_rows_refine[of st] show ?thesis by blast
qed

theorem outbox_courier_exclusive_witness:
  "\<exists>st k. row_reach st \<and> in_hand (couriers st 0) = Some k \<and> in_hand (couriers st 1) \<noteq> Some k"
proof -
  obtain st k where st: "row_reach st" "in_hand (couriers st 0) = Some k" by (rule courier_demo)
  with outbox_courier_exclusive[OF st] have "in_hand (couriers st 1) \<noteq> Some k" by auto
  with st show ?thesis by blast
qed

section \<open>A reply that is lost\<close>

text \<open>Nothing happens elsewhere; the clock and the fate of the statement.\<close>

definition calm :: "fate \<Rightarrow> timestamp \<Rightarrow> env_event" where
  "calm f t = \<lparr>ev_other = id, ev_now = t, ev_fate = f, ev_abort = False\<rparr>"

text \<open>
  The try block of \<open>processOneWebhook\<close> covers the mark as well: when the receiver
  has accepted a webhook and the mark is committed, but its reply is lost, the catch block
  puts the processed row back into the queue, and the webhook will be delivered again.  This
  needs a driver that hands on the rows themselves: with TypeORM's pair of rows and count no
  webhook gets as far as being marked.
\<close>

theorem lost_reply_redelivers:
  assumes "script w = [calm Delivered t1, calm Delivered t2, calm Lost_Reply t3, calm Delivered t4]"
    and "distinct (map w_id (webhooks_outbox (the_db w)))"
    and "pick_row w_id hook_due w_next_retry_at (row_locks (the_db w)) t1 (webhooks_outbox (the_db w)) = Some h"
    and "http t2 (Some (w_webhook_url h)) (request_body (mapRowToOutboxItem (Row h))) = Response s" "res_ok s"
    and "w_retry_count h + 1 < w_max_retries h"
  shows "\<exists>w' h'. processOneWebhook plain_rows http w = (Done True, w') \<and>
    h' \<in> set (webhooks_outbox (the_db w')) \<and> w_id h' = w_id h \<and> w_processed_at h' = Some t3 \<and>
    (\<forall>now. hook_due now (webhooks_outbox (the_db w')) h' \<longleftrightarrow> t4 + backoff (w_retry_count h) \<le> now)"
proof -
  let ?rows = "webhooks_outbox (the_db w)"
  note h = pick_row_Some(1)[OF assms(3)]
  have "filter (\<lambda>x. w_id x = w_id h) ?rows = [h]" by (rule hook_rows.filter_key[OF assms(2) h])
  with assms(3) have c: "claim_row w_id hook_due w_next_retry_at processing_set (row_locks (the_db w)) t1 ?rows =
    ([processing_set t1 h], update_where (\<lambda>x. w_id x = w_id h) (processing_set t1) ?rows)"
    by (simp add: claim_row_def)
  let ?f = "\<lambda>x. hook_failed_set t4 (processed_set t3 (processing_set t1 x))"
  have "\<exists>w'. processOneWebhook plain_rows http w = (Done True, w') \<and>
      webhooks_outbox (the_db w') = update_where (\<lambda>x. w_id x = w_id h) ?f ?rows"
    using assms(1,4,5)
    by (simp add: processOneWebhook_def claimNextWebhook_def seq_def query_def elapse_def calm_def ret_def
        sql_claim_next_webhook_def c plain_rows_def try_catch_def fetch_def item_after_claim throw_def
        markWebhookProcessed_def markWebhookFailed_def sql_mark_webhook_processed_def
        sql_mark_webhook_failed_def update_hook_twice del: mapRowToOutboxItem.simps)
  then obtain w' where w': "processOneWebhook plain_rows http w = (Done True, w')"
    "webhooks_outbox (the_db w') = update_where (\<lambda>x. w_id x = w_id h) ?f ?rows" by blast
  have "?f h \<in> set (webhooks_outbox (the_db w'))" unfolding w'(2) set_update_where using h by force
  moreover have "hook_due now rows (?f h) \<longleftrightarrow> t4 + backoff (w_retry_count h) \<le> now" for now rows
    using assms(6) by (simp add: hook_due_def hook_failed_set_def processed_set_def processing_set_def)
  ultimately show ?thesis using w'(1)
    by (intro exI[of _ w'] exI[of _ "?f h"]) (simp add: hook_failed_set_def processed_set_def processing_set_def)
qed

theorem lost_reply_redelivers_witness:
  "\<exists>w' h'. processOneWebhook plain_rows (\<lambda>_ _ _. Response 200)
     \<lparr>the_db = empty_db\<lparr>webhooks_outbox := [demo_hook 8 1]\<rparr>, clock = 0, aborted = False, clients = {},
       script = [calm Delivered 5, calm Delivered 6, calm Lost_Reply 7, calm Delivered 8]\<rparr> = (Done True, w') \<and>
   h' \<in> set (webhooks_outbox (the_db w')) \<and> w_processed_at h' = Some 7 \<and>
   hook_due (8 + seconds 2) (webhooks_outbox (the_db w')) h'"
proof -
  let ?w = "\<lparr>the_db = empty_db\<lparr>webhooks_outbox := [demo_hook 8 1]\<rparr>, clock = 0, aborted = False, clients = {},
       script = [calm Delivered 5, calm Delivered 6, calm Lost_Reply 7, calm Delivered 8]\<rparr>"
  have "\<exists>w' h'. processOneWebhook plain_rows (\<lambda>_ _ _. Response 200) ?w = (Done True, w') \<and>
    h' \<in> set (webhooks_outbox (the_db w')) \<and> w_id h' = 8 \<and> w_processed_at h' = Some 7 \<and>
    (\<forall>now. hook_due now (webhooks_outbox (the_db w')) h' \<longleftrightarrow> 8 + seconds 2 \<le> now)"
    using lost_reply_redelivers[of ?w 5 6 7 8 "demo_hook 8 1" "\<lambda>_ _ _. Response 200" 200]
    by (simp add: pick_row_def hook_due_def demo_hook_def empty_db_def res_ok_def backoff_def)
  then show ?thesis by (metis order_refl)
qed

end
