(* ===== verification/Overtaking.thy ===== *)
theory Overtaking
  imports JobTraces
begin

text \<open>
  What the ORDER BY of the claim means across runs: stage_order comes before priority, so that the
  first stage of a run triggered later goes before the second stage of a run in progress, and
  nothing bounds how often.
\<close>

text \<open>The job that the next claim hands out, when no row is locked.\<close>

definition next_claim :: "db \<Rightarrow> job option" where
  "next_claim d = pick_row j_id claimable claim_rank_of {} ([], 0) (jobs d)"

lemma claimable_context: "claimable c rows = claimable c' rows"
  by (rule ext) (simp add: claimable_def)

lemma next_claim_pick:
  "pick_row j_id claimable claim_rank_of {} c rows = pick_row j_id claimable claim_rank_of {} c' rows"
  using claimable_context[of c rows c'] by (simp add: pick_row_def)

lemma first_min_append_less:
  "\<forall>r \<in> set rs. rank x < rank r \<Longrightarrow> first_min rank (rs @ [x]) = Some x"
  by (induction rs) auto

text \<open>A job of another run decides nothing about the jobs that are there.\<close>

lemma claimable_append:
  assumes "j_pipeline_run_id x \<noteq> j_pipeline_run_id y"
  shows "claimable c (rows @ [x]) y = claimable c rows y"
  using assms by (auto simp: claimable_def)

lemma filter_claimable_append:
  assumes "\<forall>y \<in> set rows. j_pipeline_run_id y \<noteq> j_pipeline_run_id x"
  shows "filter (claimable c (rows @ [x])) (rows @ [x]) =
    filter (claimable c rows) rows @ (if j_status x = Pending then [x] else [])"
proof -
  have "filter (claimable c (rows @ [x])) rows = filter (claimable c rows) rows"
    by (rule filter_cong) (use assms in \<open>auto simp: claimable_append\<close>)
  moreover have "claimable c (rows @ [x]) x = (j_status x = Pending)"
    using assms by (auto simp: claimable_def)
  ultimately show ?thesis by simp
qed

text \<open>A fresh job of the first step of a new run overtakes a job of a later stage.\<close>

lemma fresh_job_first:
  assumes "pick_row j_id claimable claim_rank_of {} c rows = Some j"
    and "\<forall>y \<in> set rows. j_pipeline_run_id y \<noteq> j_pipeline_run_id x"
    and "j_status x = Pending" "j_stage_order x < j_stage_order j"
  shows "pick_row j_id claimable claim_rank_of {} c (rows @ [x]) = Some x"
proof -
  have "claim_rank_of x < claim_rank_of y" if "y \<in> set rows" "claimable c rows y" for y
  proof -
    have "claim_rank_of j \<le> claim_rank_of y"
      by (rule pick_row_Some(4)[OF assms(1) that]) simp
    moreover have "claim_rank_of x < claim_rank_of j"
      using assms(4) by (simp add: claim_rank_of_def less_claim_rank_def)
    ultimately show ?thesis by (rule less_le_trans[rotated])
  qed
  then show ?thesis
    using assms(3) by (simp add: pick_row_def filter_claimable_append[OF assms(2)] first_min_append_less del: filter_append)
qed

lemma finished_job_ignored:
  assumes "\<forall>y \<in> set rows. j_pipeline_run_id y \<noteq> j_pipeline_run_id x" "j_status x = Success"
  shows "pick_row j_id claimable claim_rank_of {} c (rows @ [x]) = pick_row j_id claimable claim_rank_of {} c rows"
  using assms(2) by (simp add: pick_row_def filter_claimable_append[OF assms(1)] del: filter_append)

text \<open>One round: a run is triggered, its first job is claimed before \<open>j\<close>, and finishes.\<close>

lemma overtaking_round:
  assumes "reachable d trace" "row_locks d = {}" "next_claim d = Some j" "0 < j_stage_order j"
    and "fits_int4 p"
  obtains d' x where "reachable d' (trace @ [j_id x])" "row_locks d' = {}" "next_claim d' = Some j"
    "jobs d' = jobs d @ [x]" "j_priority x = p" "j_created_at x = now" "j_status x = Success"
proof -
  note inv = soundD[OF reachable_sound[OF assms(1)]]
  note keys = jobs_invD(2)[OF inv(1), unfolded keys_ok_def]
  note pick = assms(3)[unfolded next_claim_def]
  from pick_row_Some(1)[OF pick] keys inv(2) have "pipelines d \<noteq> []" by (force simp: refs_ok_def)
  then obtain pl where pl: "pl \<in> p_id ` set (pipelines d)" by (cases "pipelines d") auto
  obtain r d1 where r: "sql_insert_run pl [] JNull now d = Inr (r, d1)" "jobs d1 = jobs d"
    "r_id r = next_uuid d" "r \<in> set (pipeline_runs d1)" "row_locks d1 = {}" "next_uuid d1 = next_uuid d + 1"
    using pl assms(2) by (simp add: sql_insert_run_def Let_def)
  have rid: "next_uuid d \<in> r_id ` set (pipeline_runs d1)" using r(3,4) by force
  obtain x d2 where x: "sql_insert_job (next_uuid d) [] [] [] p 0 0 now d1 = Inr (x, d2)"
    "jobs d2 = jobs d @ [x]" "j_pipeline_run_id x = next_uuid d" "j_status x = Pending"
    "j_stage_order x = 0" "j_priority x = p" "j_created_at x = now" "j_id x = next_uuid d + 1" "row_locks d2 = {}"
    using r rid assms(5) by (simp add: sql_insert_job_def Let_def frame_simps fits_int4_def)
  have others: "\<forall>y \<in> set (jobs d). j_pipeline_run_id y \<noteq> j_pipeline_run_id x" "\<forall>y \<in> set (jobs d). j_id y \<noteq> j_id x"
    using keys x(3,8) by fastforce+
  let ?c = "([], now) :: ustring \<times> timestamp"
  let ?x = "claim_set ?c x"
  have old: "update_where (\<lambda>z. j_id z = j_id x) f (jobs d @ xs) = jobs d @ update_where (\<lambda>z. j_id z = j_id x) f xs"
    and hit: "filter (\<lambda>z. j_id z = j_id x) (jobs d) = []" for f xs
    using others(2) update_where_id[of "jobs d" "\<lambda>z. j_id z = j_id x" f] by (auto simp: update_where_def filter_empty_conv)
  have "pick_row j_id claimable claim_rank_of {} ?c (jobs d2) = Some x"
    unfolding x(2) by (rule fresh_job_first[OF pick[THEN trans[OF next_claim_pick]] others(1) x(4)])
      (use assms(4) x(5) in simp)
  then obtain d3 where c: "sql_claim_next_job [] now d2 = Inr ([?x], d3)" "jobs d3 = jobs d @ [?x]" "row_locks d3 = {}"
    using old x(2,9) by (auto simp: sql_claim_next_job_def claim_row_def frame_simps hit)
  let ?y = "completed_set 0 now ?x"
  obtain d4 where m: "sql_mark_completed (Some (j_id x)) 0 now d3 = Inr ((), d4)" "jobs d4 = jobs d @ [?y]" "row_locks d4 = {}"
    using old c(2,3) by (auto simp: sql_mark_completed_def frame_simps is_row_def eq_commute[of "j_id x"])
  have "reachable d1 trace" using Step[OF assms(1) Insert_Run[OF r(1)]] by simp
  then have "reachable d2 trace" using Step[OF _ Insert_Job[OF x(1)]] by fastforce
  then have "reachable d3 (trace @ [j_id x])" using Step[OF _ Claim_Job[OF c(1)]] by fastforce
  then have "reachable d4 (trace @ [j_id ?y])" using Step[OF _ Mark_Completed[OF m(1)]] by (fastforce simp: completed_set_def)
  moreover have "next_claim d4 = Some j"
    unfolding next_claim_def m(2) using finished_job_ignored[of "jobs d" ?y] others(1) pick
    by (simp add: completed_set_def)
  ultimately show thesis
    using that[of d4 ?y] m(2,3) x(6,7) by (simp add: completed_set_def claim_set.simps)
qed

text \<open>
  Property C34.  The order of claims does not keep a run in progress moving.  Let \<open>j\<close> be the job
  of a later stage that the next claim would hand out, whatever its priority.  For every \<open>n\<close> the
  system can go on so that \<open>n\<close> more jobs, each of a run triggered afterwards and of any
  priority \<open>p\<close>, however low, are claimed and finished, while \<open>j\<close> is where it was: next in line.
\<close>

theorem later_runs_overtake:
  assumes "reachable d trace" "row_locks d = {}" "next_claim d = Some j" "0 < j_stage_order j"
    and "fits_int4 p"
  shows "\<exists>d' xs. length xs = n \<and> reachable d' (trace @ map j_id xs) \<and> jobs d' = jobs d @ xs \<and>
    (\<forall>x \<in> set xs. j_priority x = p \<and> j_created_at x = now \<and> j_status x = Success) \<and>
    row_locks d' = {} \<and> next_claim d' = Some j"
proof (induction n)
  case 0
  show ?case using assms(1-3) by (intro exI[of _ d] exI[of _ "[]"]) simp
next
  case (Suc n)
  then obtain d' xs where 1: "length xs = n" "reachable d' (trace @ map j_id xs)" "jobs d' = jobs d @ xs"
    "\<forall>x \<in> set xs. j_priority x = p \<and> j_created_at x = now \<and> j_status x = Success"
    "row_locks d' = {}" "next_claim d' = Some j"
    by blast
  obtain d2 x where "reachable d2 ((trace @ map j_id xs) @ [j_id x])" "row_locks d2 = {}" "next_claim d2 = Some j"
    "jobs d2 = jobs d' @ [x]" "j_priority x = p" "j_created_at x = now" "j_status x = Success"
    by (rule overtaking_round[OF 1(2,5,6) assms(4,5)])
  with 1 show ?case by (intro exI[of _ d2] exI[of _ "xs @ [x]"]) auto
qed

theorem later_runs_overtake_witness:
  "\<exists>d j. reachable d [] \<and> next_claim d = Some j \<and> j_priority j = 9 \<and>
     (\<exists>d' xs. length xs = 50 \<and> reachable d' (map j_id xs) \<and> jobs d' = jobs d @ xs \<and>
        (\<forall>x \<in> set xs. j_priority x = 1) \<and>
        next_claim d' = Some j)"
proof -
  have p: "1 \<in> p_id ` set (pipelines (initial_db 0))"
    using initial_db_fields(10)[of 0] by (metis list.set_intros(1) set_map)
  obtain r d1 where r: "sql_insert_run 1 [] JNull 0 (initial_db 0) = Inr (r, d1)" "r_id r = 4"
    "pipeline_runs d1 = [r]" "jobs d1 = []" "row_locks d1 = {}"
    using p by (simp add: sql_insert_run_def initial_db_fields Let_def)
  obtain j d2 where j: "sql_insert_job 4 [] [] [] 9 1 0 0 d1 = Inr (j, d2)" "next_claim d2 = Some j"
    "j_priority j = 9" "j_stage_order j = 1" "row_locks d2 = {}"
    using r by (simp add: sql_insert_job_def fits_int4_def frame_simps Let_def next_claim_def pick_row_def
        claimable_def)
  have "reachable d1 []" using Step[OF Initial Insert_Run[OF r(1)]] by simp
  from Step[OF this Insert_Job[OF j(1)]] have d2: "reachable d2 []" by simp
  have stage: "0 < j_stage_order j" and fits: "fits_int4 1" by (simp_all add: j(4) fits_int4_def)
  obtain d' xs where "length xs = 50" "reachable d' (map j_id xs)" "jobs d' = jobs d2 @ xs" "\<forall>x \<in> set xs. j_priority x = 1"
    "next_claim d' = Some j"
    using later_runs_overtake[OF d2 j(5,2) stage fits, of 50 0] by auto
  with d2 j(2,3) show ?thesis by blast
qed

end
