(* ===== verification/QueueWork.thy ===== *)
theory QueueWork
  imports JobTraces JobOrder
begin

text \<open>
  The end of the work: any number of workers that claim jobs and report how each ended, and a
  reclaimer beside them, come to rest after a bounded number of steps, and when nothing is
  left to do every job and every run has ended.
\<close>

section \<open>Steps that move a job\<close>

text \<open>
  A claim that hands out a row; the mark that \<open>settle_job\<close> sends for a running job, success on
  exit code 0 and failure otherwise; a reclaim that finds a stuck job.
\<close>

inductive work_step :: "db \<Rightarrow> db \<Rightarrow> bool" where
  Work_Claim: "sql_claim_next_job workerId now d = Inr (got, d') \<Longrightarrow> got \<noteq> [] \<Longrightarrow> work_step d d'"
| Work_Completed: "j \<in> set (jobs d) \<Longrightarrow> j_status j = Running \<Longrightarrow>
     sql_mark_completed (Some (j_id j)) 0 now d = Inr (u, d') \<Longrightarrow> work_step d d'"
| Work_Failed: "j \<in> set (jobs d) \<Longrightarrow> j_status j = Running \<Longrightarrow> code \<noteq> 0 \<Longrightarrow>
     sql_mark_failed (Some (j_id j)) code now d = Inr (u, d') \<Longrightarrow> work_step d d'"
| Work_Reclaim: "j \<in> set (jobs d) \<Longrightarrow> stuck t now j \<Longrightarrow>
     sql_reclaim_stuck_jobs t now d = Inr (u, d') \<Longrightarrow> work_step d d'"

lemma work_sys: "work_step d d' \<Longrightarrow> \<exists>ids. sys_step d ids d'"
  by (induction rule: work_step.induct) (blast intro: sys_step.intros)+

text \<open>How many steps a job can still take.\<close>

definition steps_left :: "job \<Rightarrow> nat" where
  "steps_left j = (case j_status j of
     Pending \<Rightarrow> nat (2 * (4 - j_retry_count j))
   | Running \<Rightarrow> nat (2 * (4 - j_retry_count j) - 1)
   | _ \<Rightarrow> 0)"

lemma steps_left_less:
  assumes "job_ok j"
  shows "j_status j = Pending \<Longrightarrow> steps_left (claim_set c j) < steps_left j"
    and "j_status j = Running \<Longrightarrow> steps_left (completed_set e now j) < steps_left j"
    and "j_status j = Running \<Longrightarrow> steps_left (failed_set e j) < steps_left j"
    and "stuck t now j \<Longrightarrow> steps_left (reclaim_set j) < steps_left j"
  using assms
  by (cases c; auto simp: steps_left_def job_ok_def claim_set.simps completed_set_def failed_set_def
      reclaim_set_def stuck_def)+

lemma steps_left_le: "job_ok j \<Longrightarrow> steps_left j \<le> 8"
  by (auto simp: steps_left_def job_ok_def split: run_status.splits)

lemma sum_update_less:
  fixes g :: "'r \<Rightarrow> nat"
  assumes "\<And>r. r \<in> set rows \<Longrightarrow> P r \<Longrightarrow> g (f r) < g r" "r \<in> set rows" "P r"
  shows "sum_list (map g (update_where P f rows)) < sum_list (map g rows)"
proof -
  have le: "sum_list (map g (update_where P f rs)) \<le> sum_list (map g rs)" if "set rs \<subseteq> set rows" for rs
    using that
  proof (induction rs)
    case (Cons a rs)
    then have "(if P a then g (f a) else g a) \<le> g a" using assms(1)[of a] by auto
    moreover have "sum_list (map g (update_where P f rs)) \<le> sum_list (map g rs)" using Cons by simp
    ultimately show ?case by (auto intro: add_mono)
  qed simp
  obtain xs ys where rows: "rows = xs @ r # ys" using assms(2) by (meson split_list)
  have "sum_list (map g (update_where P f xs)) \<le> sum_list (map g xs)"
    "sum_list (map g (update_where P f ys)) \<le> sum_list (map g ys)"
    by (rule le; auto simp: rows)+
  with assms(1)[OF assms(2,3)] assms(3) show ?thesis by (simp add: rows update_where_def)
qed

text \<open>Every step sets some rows, each to one with fewer steps left.\<close>

lemma work_step_update:
  assumes "work_step d d'" "jobs_inv d"
  obtains P f j where "jobs d' = update_where P f (jobs d)" "j \<in> set (jobs d)" "P j"
    "\<And>j. j \<in> set (jobs d) \<Longrightarrow> P j \<Longrightarrow> steps_left (f j) < steps_left j" "\<And>j. place (f j) = place j"
    "row_locks d' = row_locks d"
  using assms
proof (cases rule: work_step.cases)
  case (Work_Claim workerId now got)
  note ids = jobs_invD(1)[OF assms(2)]
  from ids Work_Claim(1) show thesis
  proof (cases rule: claim_statement_keyed)
    case none
    with Work_Claim(2) show thesis by simp
  next
    case (one j)
    have same: "x = j" if "x \<in> set (jobs d)" "j_id x = j_id j" for x
      using job_rows.key_unique[OF ids that(1) one(1) that(2)] .
    show thesis
      by (rule that[of "\<lambda>x. j_id x = j_id j" "claim_set (workerId, now)" j])
        (use one(1,2) same steps_left_less(1)[OF jobs_invD(3)[OF assms(2) one(1)]]
          in \<open>auto simp: one(6) frame_simps claimable_def\<close>)
  qed
next
  case (Work_Completed j now u)
  have same: "x = j" if "x \<in> set (jobs d)" "j_id x = j_id j" for x
    using job_rows.key_unique[OF jobs_invD(1)[OF assms(2)] that(1) Work_Completed(1) that(2)] .
  show thesis
    by (rule that[of "\<lambda>x. is_row (Some (j_id j)) (j_id x)" "completed_set 0 now" j])
      (use Work_Completed same steps_left_less(2)[OF jobs_invD(3)[OF assms(2) Work_Completed(1)]]
        in \<open>auto simp: sql_mark_completed_def frame_simps is_row_def\<close>)
next
  case (Work_Failed j code now u)
  have same: "x = j" if "x \<in> set (jobs d)" "j_id x = j_id j" for x
    using job_rows.key_unique[OF jobs_invD(1)[OF assms(2)] that(1) Work_Failed(1) that(2)] .
  show thesis
    by (rule that[of "\<lambda>x. is_row (Some (j_id j)) (j_id x)" "failed_set code" j])
      (use Work_Failed same steps_left_less(3)[OF jobs_invD(3)[OF assms(2) Work_Failed(1)]]
        in \<open>auto simp: sql_mark_failed_def frame_simps is_row_def\<close>)
next
  case (Work_Reclaim j t now u)
  show thesis
    by (rule that[of "stuck t now" reclaim_set j])
      (use Work_Reclaim steps_left_less(4)[OF jobs_invD(3)[OF assms(2)]]
        in \<open>auto simp: sql_reclaim_stuck_jobs_def frame_simps\<close>)
qed

lemma work_step_keeps:
  assumes "work_step d d'" "sound d"
  shows "sound d'" "row_locks d' = row_locks d" "map place (jobs d') = map place (jobs d)"
    "sum_list (map steps_left (jobs d')) < sum_list (map steps_left (jobs d))"
proof -
  show "sound d'" using work_sys[OF assms(1)] sys_step_sound assms(2) by blast
  from assms(1) soundD(1)[OF assms(2)]
  obtain P f j where u: "jobs d' = update_where P f (jobs d)" "j \<in> set (jobs d)" "P j"
    "\<And>j. j \<in> set (jobs d) \<Longrightarrow> P j \<Longrightarrow> steps_left (f j) < steps_left j" "\<And>j. place (f j) = place j"
    "row_locks d' = row_locks d"
    by (rule work_step_update) blast
  show "row_locks d' = row_locks d" by (rule u(6))
  show "map place (jobs d') = map place (jobs d)" unfolding u(1) by (rule map_update_where) (rule u(5))
  show "sum_list (map steps_left (jobs d')) < sum_list (map steps_left (jobs d))"
    unfolding u(1) using u(2-4) by (intro sum_update_less[where r = j]) simp_all
qed

lemma work_steps_keep:
  assumes "(work_step ^^ n) d d'" "sound d"
  shows "sound d' \<and> row_locks d' = row_locks d \<and> map place (jobs d') = map place (jobs d) \<and>
    n + sum_list (map steps_left (jobs d')) \<le> sum_list (map steps_left (jobs d))"
  using assms
proof (induction n arbitrary: d')
  case (Suc n)
  then obtain d1 where d1: "(work_step ^^ n) d d1" "work_step d1 d'" by auto
  note IH = Suc.IH[OF d1(1) Suc.prems(2)]
  from work_step_keeps[OF d1(2)] IH show ?case by auto
qed simp

section \<open>Something to do\<close>

text \<open>As long as a job is open, some step is possible: nobody waits for anybody.\<close>

lemma work_possible:
  assumes "sound d" "row_locks d = {}" "j \<in> set (jobs d)" "\<not> terminal (j_status j)"
  shows "\<exists>d'. work_step d d'"
proof (cases "\<exists>x \<in> set (jobs d). j_status x = Running")
  case True
  then obtain x where x: "x \<in> set (jobs d)" "j_status x = Running" by blast
  obtain d' where "sql_mark_completed (Some (j_id x)) 0 0 d = Inr ((), d')"
    by (simp add: sql_mark_completed_def)
  from Work_Completed[OF x this] show ?thesis by blast
next
  case False
  note inv = soundD(1)[OF assms(1)]
  have "j_status j = Pending" using assms(3,4) False by (cases "j_status j") auto
  with ex_claimable[OF jobs_invD(3)[OF inv] assms(3), of "([], 0)"] False
  obtain m where m: "m \<in> set (jobs d)" "claimable ([], 0) (jobs d) m" by auto
  obtain got d' where s: "sql_claim_next_job [] 0 d = Inr (got, d')"
    using claim_done[of "[]" 0 d] by (cases "sql_claim_next_job [] 0 d") auto
  from jobs_invD(1)[OF inv] s have "got \<noteq> []"
    by (cases rule: claim_statement_keyed) (use m assms(2) in auto)
  from Work_Claim[OF s this] show ?thesis by blast
qed

lemma work_impossible:
  assumes "jobs_inv d" "\<forall>j \<in> set (jobs d). terminal (j_status j)"
  shows "\<not> work_step d d'"
proof
  assume "work_step d d'"
  then show False
    by (rule work_step_update[OF _ assms(1)])
      (use assms(2) in \<open>force simp: steps_left_def terminal_def split: run_status.splits\<close>)
qed

text \<open>
  Property C5.  The work ends and nothing is left over.  From any sound database in which no
  statement holds rows, with jobs already running or not, any number of workers that claim
  jobs and report each running job by its exit code, with reclaims in between, in any
  interleaving, take at most eight steps per job; the jobs stay the same; a further step is
  possible exactly as long as some job is open, so nothing is stuck before; and when none is
  left, every job has succeeded or failed and every run with jobs is complete, failed when one
  of its jobs failed and successful otherwise.
\<close>

theorem work_ends:
  assumes "(work_step ^^ n) d d'" "sound d" "row_locks d = {}"
  shows "n \<le> 8 * length (jobs d) \<and> map j_id (jobs d') = map j_id (jobs d) \<and>
    ((\<exists>d''. work_step d' d'') \<longleftrightarrow> (\<exists>j \<in> set (jobs d'). \<not> terminal (j_status j))) \<and>
    (\<not> (\<exists>d''. work_step d' d'') \<longrightarrow>
      (\<forall>j \<in> set (jobs d'). j_status j = Success \<or> j_status j = Failed) \<and>
      (\<forall>r \<in> set (pipeline_runs d'). run_jobs d' (r_id r) \<noteq> [] \<longrightarrow>
         r_completed_at r \<noteq> None \<and>
         r_status r = (if \<exists>j \<in> set (run_jobs d' (r_id r)). j_status j = Failed then Failed else Success)))"
proof -
  note k = work_steps_keep[OF assms(1,2)]
  have s: "sound d'" "row_locks d' = {}" using k assms(3) by simp_all
  have "map fst (map place (jobs d')) = map fst (map place (jobs d))" using k by simp
  then have ids: "map j_id (jobs d') = map j_id (jobs d)" by (simp add: place_def comp_def)
  have "sum_list (map steps_left (jobs d)) \<le> sum_list (map (\<lambda>_. 8) (jobs d))"
    by (rule sum_list_mono) (use jobs_invD(3)[OF soundD(1)[OF assms(2)]] steps_left_le in blast)
  then have bound: "n \<le> 8 * length (jobs d)" using k by (simp add: sum_list_triv)
  have possible: "(\<exists>d''. work_step d' d'') \<longleftrightarrow> (\<exists>j \<in> set (jobs d'). \<not> terminal (j_status j))"
    using work_possible[OF s] work_impossible[OF soundD(1)[OF s(1)]] by blast
  have "(\<forall>j \<in> set (jobs d'). j_status j = Success \<or> j_status j = Failed) \<and>
      (\<forall>r \<in> set (pipeline_runs d'). run_jobs d' (r_id r) \<noteq> [] \<longrightarrow> r_completed_at r \<noteq> None \<and>
         r_status r = (if \<exists>j \<in> set (run_jobs d' (r_id r)). j_status j = Failed then Failed else Success))"
    if all: "\<forall>j \<in> set (jobs d'). terminal (j_status j)"
  proof (intro conjI ballI)
    fix j assume "j \<in> set (jobs d')"
    with all jobs_invD(3)[OF soundD(1)[OF s(1)]] show "j_status j = Success \<or> j_status j = Failed"
      by (fastforce simp: terminal_def job_ok_def split: run_status.splits)
  next
    have "\<forall>j \<in> set (run_jobs d' i). terminal (j_status j)" for i using all by (simp add: run_jobs_def)
    with soundD(5)[OF s(1)] show "run_jobs d' (r_id r) \<noteq> [] \<longrightarrow> r_completed_at r \<noteq> None \<and>
         r_status r = (if \<exists>j \<in> set (run_jobs d' (r_id r)). j_status j = Failed then Failed else Success)"
      if "r \<in> set (pipeline_runs d')" for r
      using that by (simp add: all_runs_synced_def run_synced_def)
  qed
  with bound ids possible show ?thesis by blast
qed

definition small_db :: "job list \<Rightarrow> db" where
  "small_db js = (the_db (demo_world js))\<lparr>pipelines :=
     [\<lparr>p_id = 0, p_name = [], p_repository = [], p_config = JNull, p_created_at = 0, p_updated_at = 0\<rparr>]\<rparr>"

lemma small_sound: "sound (small_db [demo_job 2 0 Pending])"
  by (simp add: small_db_def demo_world_def demo_job_def sound_def jobs_inv_def keys_ok_def job_ok_def
      empty_db_def refs_ok_def locks_exclusive_def al.exclusive_def holds_lock_def all_runs_synced_def
      run_synced_def run_jobs_def)

text \<open>One job, claimed and completed: the two steps there are.\<close>

theorem work_ends_witness:
  "\<exists>d'. (work_step ^^ 2) (small_db [demo_job 2 0 Pending]) d' \<and> \<not> (\<exists>d''. work_step d' d'') \<and>
     (\<forall>j \<in> set (jobs d'). j_status j = Success \<or> j_status j = Failed)"
proof -
  let ?d = "small_db [demo_job 2 0 Pending]"
  obtain j where j: "j = demo_job 2 0 Pending" "j_id j = 2" "j_status j = Pending"
    by (simp add: demo_job_def)
  have l: "row_locks ?d = {}" "jobs ?d = [j]"
    by (simp_all add: small_db_def demo_world_def empty_db_def j(1))
  let ?d1 = "update_jobs 8 (\<lambda>x. j_id x = 2) (claim_set ([], 8)) ?d"
  let ?d2 = "update_jobs 9 (\<lambda>x. is_row (Some 2) (j_id x)) (completed_set 0 9) ?d1"
  have "sql_claim_next_job [] 8 ?d = Inr ([claim_set ([], 8) j], ?d1)"
    using j(2,3) l by (simp add: sql_claim_next_job_def claim_row_def pick_row_def claimable_def update_jobs_def)
  then have 1: "work_step ?d ?d1" by (rule Work_Claim) simp
  have d1: "jobs ?d1 = [claim_set ([], 8) j]" by (simp add: frame_simps l j(2))
  have 2: "work_step ?d1 ?d2"
    by (rule Work_Completed[where j = "claim_set ([], 8) j" and now = 9 and u = "()"])
      (simp_all add: d1 sql_mark_completed_def j(2))
  have "(work_step ^^ 2) ?d ?d2" using 1 2 by (auto simp: numeral_2_eq_2)
  moreover have "\<forall>j \<in> set (jobs ?d2). terminal (j_status j)" by (simp add: frame_simps l is_row_def j(2))
  ultimately show ?thesis using work_ends[of 2 ?d ?d2] small_sound l(1) by blast
qed

end
