(* ===== verification/TriggerRace.thy ===== *)
theory TriggerRace
  imports TriggerFacts JobOrder
begin

text \<open>
  What a worker that is faster than the inserts of \<open>triggerRun\<close>
  (src/src/api/runs/runs.service.ts) does to the order of a run: the inserts are concurrent
  statements, each committed by itself, and a claim between two of them sees only the first.
\<close>

section \<open>Statements with events before them\<close>

text \<open>At time \<open>t\<close> others commit \<open>f\<close>, and nothing else happens.\<close>

definition quiet_event :: "timestamp \<Rightarrow> (db \<Rightarrow> db) \<Rightarrow> env_event" where
  "quiet_event t f = \<lparr>ev_other = f, ev_now = t, ev_fate = Delivered, ev_abort = False\<rparr>"

definition commit :: "timestamp \<Rightarrow> 'a stmt \<Rightarrow> db \<Rightarrow> db" where
  "commit t st d = (case st t d of Inl _ \<Rightarrow> d | Inr (_, d') \<Rightarrow> d')"

text \<open>The world in which the statement after such an event runs.\<close>

definition after_event :: "timestamp \<Rightarrow> (db \<Rightarrow> db) \<Rightarrow> world \<Rightarrow> world" where
  "after_event t f w = w\<lparr>the_db := f (the_db w), clock := t, script := []\<rparr>"

lemma after_event_simps [simp]:
  "the_db (after_event t f w) = f (the_db w)" "clock (after_event t f w) = t" "script (after_event t f w) = []"
  by (simp_all add: after_event_def)

lemma query_event:
  assumes "script w = quiet_event t f # es" "query st (after_event t f w) = (x, w')"
  shows "query st w = (x, w'\<lparr>script := es\<rparr>)"
  using assms
  by (auto simp: query_def elapse_def quiet_event_def after_event_def split: sum.splits prod.splits)

lemma insert_job_event:
  assumes "script w = quiet_event t f # es" "insert_job_of b i a (after_event t f w) = (x, w')"
  shows "insert_job_of b i a w = (x, w'\<lparr>script := es\<rparr>)"
  using assms unfolding insert_job_of_def insertNewJob_def by (rule query_event)

lemma insert_job_script: "script w = [] \<Longrightarrow> insert_job_of b i a w = (x, w') \<Longrightarrow> script w' = []"
  by (auto simp: insert_job_of_def insertNewJob_def query_quiet split: sum.splits prod.splits)

lemma run_inserts_event:
  assumes "script w = [quiet_event t f]"
  shows "run_inserts b i (a # as) w = run_inserts b i (a # as) (after_event t f w)"
proof -
  obtain x w' where x: "insert_job_of b i a (after_event t f w) = (x, w')" by fastforce
  have "script w' = []" using insert_job_script[OF _ x] by simp
  then have "insert_job_of b i a w = (x, w')" using insert_job_event[OF assms x] by simp
  with x show ?thesis by (simp add: seq_def)
qed

section \<open>A claim between two inserts\<close>

lemma claim_new_job:
  assumes "distinct (map j_id (jobs d))" "row_locks d = {}" "jobs d = old @ [j]" "j_status j = Pending"
    and "\<forall>x \<in> set old. j_status x \<noteq> Pending \<and> j_pipeline_run_id x \<noteq> j_pipeline_run_id j"
    and "length v \<le> 100"
  shows "claim_set (v, t) j \<in> set (jobs (commit t (sql_claim_next_job v) d)) \<and>
    map run_origin (pipeline_runs (commit t (sql_claim_next_job v) d)) = map run_origin (pipeline_runs d)"
proof -
  obtain got d' where s: "sql_claim_next_job v t d = Inr (got, d')"
    using claim_done[of v t d] assms(6) by (cases "sql_claim_next_job v t d") auto
  have c: "claimable (v, t) (jobs d) j" using assms(3-5) by (auto simp: claimable_def)
  from assms(1) s show ?thesis
  proof (cases rule: claim_statement_keyed)
    case none
    with c assms(2,3) show ?thesis by auto
  next
    case (one x)
    then have "x = j" using assms(3,5) by (auto simp: claimable_def)
    moreover have "map run_origin (pipeline_runs d') = map run_origin (pipeline_runs d)"
      by (simp add: one(6) update_jobs_def fire_keeps_origins)
    ultimately show ?thesis by (simp add: commit_def s one(7))
  qed
qed

text \<open>
  Property C33.  The jobs of a triggered run are inserted by concurrent statements, and a worker
  does not wait for all of them.  Take any pipeline, any order in which its inserts reach the
  database with one that is accepted first, and a queue in which no job waits; let any worker
  claim before the second insert.  Then the job of the first insert runs in the end, and every
  job of an accepted later insert that belongs before it in the pipeline still waits: a deploy
  runs before the tests it should wait for are even queued.
\<close>

theorem trigger_race_breaks_order:
  assumes "script w = map (\<lambda>t. quiet_event t id) [t_a, t_b, t_c, t_d] @ [quiet_event t_e (commit t_e (sql_claim_next_job v))]"
    and "distinct (map p_id (pipelines (the_db w)))" "p \<in> set (pipelines (the_db w))" "length tt \<le> 50"
    and "keys_ok (the_db w)" "\<forall>j \<in> set (jobs (the_db w)). j_status j \<noteq> Pending"
    and "row_locks (the_db w) = {}" "length v \<le> 100"
    and "config_inserts (p_config p) = (ins, threw)" "sched ins = a # c # as"
    and "accepted b a" "a' \<in> set (c # as)" "accepted b a'"
    and "ji_stage_order a' < ji_stage_order a \<or>
      ji_stage_order a' = ji_stage_order a \<and> ji_step_order a' < ji_step_order a"
  shows "\<exists>x w' j k. triggerRun b sched (Uuid_Param (p_id p)) tt m w = (x, w') \<and>
    {j, k} \<subseteq> set (jobs (the_db w')) \<and> j_pipeline_run_id k = j_pipeline_run_id j \<and>
    j_status j = Running \<and> insert_spec b a = Some (job_spec_of j) \<and>
    j_status k = Pending \<and> insert_spec b a' = Some (job_spec_of k) \<and> earlier_step k j"
proof -
  let ?claim = "commit t_e (sql_claim_next_job v)"
  let ?d = "the_db w"
  have fresh: "\<forall>r \<in> set (pipeline_runs ?d). r_id r \<noteq> next_uuid ?d"
    using assms(5) by (auto simp: keys_ok_def)
  define meta where "meta = (case m of None \<Rightarrow> JObj [] | Some JNull \<Rightarrow> JObj [] | Some v \<Rightarrow> v)"
  obtain r where r: "r_id r = next_uuid ?d" and run: "sql_insert_run (p_id p) tt meta t_b ?d =
      Inr (r, ?d\<lparr>pipeline_runs := pipeline_runs ?d @ [r], next_uuid := next_uuid ?d + 1\<rparr>)"
    using assms(3,4) by (auto simp: sql_insert_run_def Let_def)
  let ?d1 = "?d\<lparr>pipeline_runs := pipeline_runs ?d @ [r], next_uuid := next_uuid ?d + 1\<rparr>"
  let ?last = "[quiet_event t_d id, quiet_event t_e ?claim]"
  let ?w1 = "w\<lparr>the_db := ?d, clock := t_a, script := map (\<lambda>t. quiet_event t id) [t_b, t_c] @ ?last\<rparr>"
  let ?w2 = "w\<lparr>the_db := ?d1, clock := t_b, script := quiet_event t_c id # ?last\<rparr>"
  let ?w3 = "w\<lparr>the_db := ?d1, clock := t_c, script := ?last\<rparr>"
  have 1: "pipelines_findOne (Uuid_Param (p_id p)) w = (Done (Some p), ?w1)"
    unfolding pipelines_findOne_def
    by (rule query_event[of w t_a id _ _ _ "after_event t_a id w", THEN trans])
      (use assms(1-3) in \<open>simp_all add: query_quiet sql_find_pipeline_def uuid_param_def pipeline_rows.find_key after_event_def\<close>)
  have 2: "createPipelineRun (p_id p) tt m ?w1 = (Done r, ?w2)"
  proof -
    have "query (sql_insert_run (p_id p) tt meta) (after_event t_b id ?w1) =
        (Done r, (after_event t_b id ?w1)\<lparr>the_db := ?d1\<rparr>)"
      using run by (simp add: query_quiet)
    from query_event[OF _ this] show ?thesis
      unfolding createPipelineRun_def meta_def[symmetric] by (cases w) (simp add: after_event_def)
  qed
  have "find (\<lambda>x. r_id x = r_id r) (pipeline_runs ?d) = None"
    using fresh r by (auto simp: find_None_iff)
  then have f: "find (\<lambda>x. r_id x = r_id r) (pipeline_runs ?d @ [r]) = Some r"
    by (simp add: find_append_None)
  have 3: "runs_findOne (Uuid_Param (r_id r)) ?w2 = (Done (Some r), ?w3)"
    unfolding runs_findOne_def
    by (rule query_event[of ?w2 t_c id _ _ _ "after_event t_c id ?w2", THEN trans])
      (use f in \<open>simp_all add: query_quiet sql_find_run_def uuid_param_def after_event_def\<close>)
  obtain w1 w2 where first: "pipelines_findOne (Uuid_Param (p_id p)) w = (Done (Some p), w1)"
    "createPipelineRun (p_id p) tt m w1 = (Done r, w2)"
    "runs_findOne (Uuid_Param (r_id r)) w2 = (Done (Some r), ?w3)"
    using 1 2 3 by blast
  have trig: "triggerRun b sched (Uuid_Param (p_id p)) tt m w =
      seq (run_inserts b (r_id r) (a # c # as)) (\<lambda>failed. if threw then throw Type_Error
        else (case failed of Some e \<Rightarrow> throw e | None \<Rightarrow> ret r)) ?w3"
    by (simp add: triggerRun_def seq_def[of "pipelines_findOne x" for x]
        seq_def[of "createPipelineRun x y z" for x y z] seq_def[of "runs_findOne x" for x] first
        assms(9,10) del: run_inserts.simps)
  let ?wa = "after_event t_d id ?w3"
  obtain s where s: "insert_spec b a = Some s" "spec_fits s"
    using assms(11) by (auto simp: accepted_def split: option.splits)
  have "r_id r \<in> r_id ` set (pipeline_runs (the_db ?wa))" by simp
  from s _ this obtain j d' where j: "insert_job_of b (r_id r) a ?wa = (Done j, ?wa\<lparr>the_db := d'\<rparr>)"
    "jobs d' = jobs (the_db ?wa) @ [j]" "job_spec_of j = s" "j_status j = Pending" "j_pipeline_run_id j = r_id r"
    "j_id j = next_uuid (the_db ?wa)"
    "map run_origin (pipeline_runs d') = map run_origin (pipeline_runs (the_db ?wa))"
    "row_locks d' = row_locks (the_db ?wa)"
    by (rule insert_job_quiet) (simp, blast)
  let ?w4 = "?wa\<lparr>the_db := d', script := [quiet_event t_e ?claim]\<rparr>"
  have a: "insert_job_of b (r_id r) a ?w3 = (Done j, ?w4)"
    using insert_job_event[OF _ j(1), of "[quiet_event t_e ?claim]"] by simp
  let ?w5 = "after_event t_e ?claim ?w4"
  have "run_inserts b (r_id r) (c # as) ?w4 = run_inserts b (r_id r) (c # as) ?w5"
    by (rule run_inserts_event) simp
  with a have runs: "run_inserts b (r_id r) (a # c # as) ?w3 =
      seq (run_inserts b (r_id r) (c # as)) (\<lambda>rest. ret (case None of None \<Rightarrow> rest | Some e \<Rightarrow> Some e)) ?w5"
    by (simp add: seq_def del: run_inserts.simps(2)) (simp add: seq_def)
  have old: "\<forall>x \<in> set (jobs ?d). j_status x \<noteq> Pending \<and> j_pipeline_run_id x \<noteq> j_pipeline_run_id j"
    using assms(5,6) fresh by (force simp: keys_ok_def j(5) r)
  have "distinct (map j_id (jobs d'))" "row_locks d' = {}" "jobs d' = jobs ?d @ [j]"
    using assms(5,7) j(2,6,8) by (auto simp: keys_ok_def)
  from claim_new_job[OF this j(4) old assms(8), of t_e]
  have claimed: "claim_set (v, t_e) j \<in> set (jobs (the_db ?w5))"
    "map run_origin (pipeline_runs (the_db ?w5)) = map run_origin (pipeline_runs d')" by simp_all
  have "map r_id (pipeline_runs (the_db ?w5)) = map r_id (pipeline_runs (the_db ?wa))"
    using origin_ids[OF claimed(2)] origin_ids[OF j(7)] by simp
  then have "r_id r \<in> r_id ` set (pipeline_runs (the_db ?w5))" by (metis \<open>r_id r \<in> r_id ` set (pipeline_runs (the_db ?wa))\<close> set_map)
  from run_inserts_any[OF _ this, of b "c # as"] obtain new w' failed where
    n: "run_inserts b (r_id r) (c # as) ?w5 = (Done failed, w')" "jobs (the_db w') = jobs (the_db ?w5) @ new"
    "map (\<lambda>j. Some (job_spec_of j)) new = map (insert_spec b) (filter (accepted b) (c # as))"
    "\<forall>j \<in> set new. j_status j = Pending \<and> j_pipeline_run_id j = r_id r"
    by auto
  have "insert_spec b a' \<in> set (map (insert_spec b) (filter (accepted b) (c # as)))" using assms(12,13) by auto
  then obtain k where k: "k \<in> set new" "insert_spec b a' = Some (job_spec_of k)" unfolding n(3)[symmetric] by auto
  have order: "j_stage_order x = int (ji_stage_order y) \<and> j_step_order x = int (ji_step_order y)"
    if "insert_spec b y = Some (job_spec_of x)" for x y
    using that by (auto simp: insert_spec_def job_spec_of_def split: sum.splits)
  have "earlier_step k (claim_set (v, t_e) j)"
    using order[OF k(2)] order[of a j] s(1) j(3) assms(14) by (auto simp: earlier_step_def)
  moreover have "{claim_set (v, t_e) j, k} \<subseteq> set (jobs (the_db w'))" using claimed(1) k(1) by (simp add: n(2))
  moreover have "insert_spec b a = Some (job_spec_of (claim_set (v, t_e) j))"
    using s(1) j(3) by (simp add: job_spec_of_def claim_set.simps)
  moreover have "run_inserts b (r_id r) (a # c # as) ?w3 = (Done failed, w')"
    unfolding runs seq_def n(1) by (simp add: ret_def)
  then have "\<exists>x. triggerRun b sched (Uuid_Param (p_id p)) tt m w = (x, w')"
    unfolding trig seq_def by (simp add: ret_def throw_def split: option.split)
  moreover have "j_pipeline_run_id k = j_pipeline_run_id (claim_set (v, t_e) j)" "j_status k = Pending"
    "j_status (claim_set (v, t_e) j) = Running"
    using n(4) k(1) j(5) by simp_all
  ultimately show ?thesis using k(2) by blast
qed

text \<open>Two stages, tests and a deploy; the insert of the deploy arrives first.\<close>

definition two_stages :: json where
  "two_stages = JObj [(lit ''stages'', JArr
     [JObj [(lit ''name'', JStr (lit ''test'')), (lit ''steps'', JArr [JObj
        [(lit ''name'', JStr (lit ''unit'')), (lit ''command'', JStr (lit ''make test''))]])],
      JObj [(lit ''name'', JStr (lit ''deploy'')), (lit ''steps'', JArr [JObj
        [(lit ''name'', JStr (lit ''ship'')), (lit ''command'', JStr (lit ''make ship''))]])]])]"

lemma two_stages_inserts:
  "\<exists>a1 a2. config_inserts two_stages = ([a1, a2], False) \<and> accepted demo_driver a1 \<and> accepted demo_driver a2 \<and>
     insert_spec demo_driver a1 = Some (lit ''test'', 0, lit ''unit'', 0, lit ''make test'', 5) \<and>
     insert_spec demo_driver a2 = Some (lit ''deploy'', 1, lit ''ship'', 0, lit ''make ship'', 5) \<and>
     ji_stage_order a1 < ji_stage_order a2"
  by (simp add: two_stages_def config_inserts_def accepted_def insert_spec_def demo_driver_def nullish_def
      spec_fits_def fits_int4_def)

definition race_world :: world where
  "race_world = (demo_api two_stages)\<lparr>script := map (\<lambda>t. quiet_event t id) [7, 8, 9, 10] @
     [quiet_event 11 (commit 11 (sql_claim_next_job (lit ''w'')))]\<rparr>"

theorem trigger_race_breaks_order_witness:
  "\<exists>x w' j k. triggerRun demo_driver rev (Uuid_Param 3) (lit ''manual'') None race_world = (x, w') \<and>
     {j, k} \<subseteq> set (jobs (the_db w')) \<and> (j_stage j, j_status j) = (lit ''deploy'', Running) \<and>
     (j_stage k, j_status k) = (lit ''test'', Pending)"
proof -
  obtain a1 a2 where ins: "config_inserts two_stages = ([a1, a2], False)" "accepted demo_driver a1"
    "accepted demo_driver a2" "insert_spec demo_driver a1 = Some (lit ''test'', 0, lit ''unit'', 0, lit ''make test'', 5)"
    "insert_spec demo_driver a2 = Some (lit ''deploy'', 1, lit ''ship'', 0, lit ''make ship'', 5)"
    "ji_stage_order a1 < ji_stage_order a2"
    using two_stages_inserts by blast
  let ?p = "(demo_pipeline [])\<lparr>p_config := two_stages\<rparr>"
  have w: "script race_world = map (\<lambda>t. quiet_event t id) [7, 8, 9, 10] @
      [quiet_event 11 (commit 11 (sql_claim_next_job (lit ''w'')))]"
    "distinct (map p_id (pipelines (the_db race_world)))" "?p \<in> set (pipelines (the_db race_world))"
    "length (lit ''manual'') \<le> 50" "keys_ok (the_db race_world)"
    "\<forall>j \<in> set (jobs (the_db race_world)). j_status j \<noteq> Pending" "row_locks (the_db race_world) = {}"
    "length (lit ''w'') \<le> 100" "p_id ?p = 3"
    by (simp_all add: race_world_def demo_api_def empty_db_def keys_ok_def demo_pipeline_def)
  have c: "config_inserts (p_config ?p) = ([a1, a2], False)" "rev [a1, a2] = a2 # a1 # []" using ins(1) by simp_all
  obtain x w' j k where "triggerRun demo_driver rev (Uuid_Param (p_id ?p)) (lit ''manual'') None race_world = (x, w')"
    "{j, k} \<subseteq> set (jobs (the_db w'))" "j_status j = Running" "insert_spec demo_driver a2 = Some (job_spec_of j)"
    "j_status k = Pending" "insert_spec demo_driver a1 = Some (job_spec_of k)"
    using trigger_race_breaks_order[where w = race_world and p = ?p and t_a = 7 and t_b = 8 and t_c = 9 and t_d = 10
        and t_e = 11 and v = "lit ''w''" and tt = "lit ''manual''" and sched = rev and b = demo_driver
        and as = "[]" and m = None, OF w(1-8) c ins(3) _ ins(2)] ins(6)
    by (auto simp del: insert_subset)
  then show ?thesis using ins(4,5) w(9) by (auto simp: job_spec_of_def simp del: insert_subset)
qed

end
