(* ===== verification/Tables.thy ===== *)
theory Tables
  imports OutboxRows
begin

text \<open>
  The tables as wholes: in every database that whole statements can reach, the keys the program's
  statements rely on are unique, every job row is well formed for its status, and no row dangles.
\<close>

section \<open>Keys of logs and lock rows\<close>

definition row_keys :: "db \<Rightarrow> bool" where
  "row_keys d \<longleftrightarrow> distinct (map l_id (job_logs d)) \<and> (\<forall>l \<in> set (job_logs d). l_id l < next_log_id d) \<and>
     distinct (map dl_environment (deployment_locks d))"

lemma row_keys_same:
  "job_logs d' = job_logs d \<Longrightarrow> deployment_locks d' = deployment_locks d \<Longrightarrow>
     next_log_id d' = next_log_id d \<Longrightarrow> row_keys d' = row_keys d"
  by (simp add: row_keys_def)

lemma replaced_environments:
  "dl_environment row = e \<Longrightarrow>
     map dl_environment (update_where (\<lambda>l. dl_environment l = e) (\<lambda>_. row) ls) = map dl_environment ls"
  by (induction ls) auto

lemma step_row_keys: "sys_step d ids d' \<Longrightarrow> row_keys d \<Longrightarrow> row_keys d'"
proof (induction rule: sys_step.induct)
  case (Claim_Job workerId now d got d')
  from claim_statement[OF Claim_Job(1)] Claim_Job(2) show ?case
    by (auto simp: row_keys_def update_jobs_def frame_simps)
next
  case (Insert_Log fmt i line lvl now d n d')
  then obtain l where "job_logs d' = job_logs d @ [l]" "l_id l = next_log_id d" "next_log_id d' = next_log_id d + 1"
    "deployment_locks d' = deployment_locks d"
    by (auto simp: sql_insert_job_log_def pg_notify_def Let_def split: if_splits)
  with Insert_Log(2) show ?case by (force simp: row_keys_def)
next
  case (Delete_Pipeline pid now d k d')
  then show ?case
    by (auto simp: sql_delete_pipeline_def Let_def row_keys_def delete_where_def distinct_map_filter
        split: if_splits sum.splits)
next
  case (Insert_Lock_Row env i now d u d')
  then show ?case
    by (auto simp: sql_insert_deployment_lock_def Let_def row_keys_def replaced_environments split: if_splits)
next
  case (Delete_Lock_Row env now d u d')
  then show ?case
    by (auto simp: sql_delete_deployment_lock_def row_keys_def delete_where_def distinct_map_filter)
qed (auto simp: sql_insert_job_def sql_update_heartbeat_def sql_mark_completed_def sql_mark_failed_def
       sql_reclaim_stuck_jobs_def update_jobs_def frame_simps sql_insert_pipeline_def sql_save_pipeline_def
       sql_insert_run_def sql_install_log_trigger_def sql_install_run_trigger_def sql_try_lock_def sql_unlock_def
       sql_enqueue_notification_def sql_claim_next_webhook_def sql_mark_webhook_processed_def
       sql_mark_webhook_failed_def update_hook_def sql_create_matview_def sql_refresh_concurrently_def
       sql_refresh_def Let_def row_keys_def
     split: if_splits option.splits prod.splits)

lemma reachable_row_keys: "reachable d trace \<Longrightarrow> row_keys d"
  by (induction rule: reachable.induct) (auto simp: row_keys_def[of "initial_db _"] initial_db_fields intro: step_row_keys)

text \<open>
  Property C1.  In every database that whole statements of any processes lead to, in any order,
  including statements whose process died and marks that arrive late: the keys of runs, jobs,
  logs, lock rows and webhooks are unique; every job row is well formed for its status (a running
  job has a worker, a heartbeat and a start, a waiting one has no worker and retries within the
  limit, a failed one has no worker, an exit code and its retries used up, a succeeded one has an
  exit code and an end, and none is cancelled); every run has its pipeline, every job its run,
  every log its job and every lock row its run, so the cascade of a deletion is complete; and no
  advisory lock is held by two sessions.
\<close>

theorem reachable_tables_sound:
  assumes "reachable d trace"
  shows "distinct (map r_id (pipeline_runs d)) \<and> distinct (map j_id (jobs d)) \<and> distinct (map l_id (job_logs d)) \<and>
    distinct (map dl_environment (deployment_locks d)) \<and> distinct (map w_id (webhooks_outbox d)) \<and>
    (\<forall>j \<in> set (jobs d). job_ok j \<and> j_pipeline_run_id j \<in> r_id ` set (pipeline_runs d)) \<and>
    refs_ok d \<and> locks_exclusive d"
  using soundD[OF reachable_sound[OF assms]] reachable_row_keys[OF assms] reachable_hook_keys[OF assms]
  by (auto simp: jobs_inv_def keys_ok_def row_keys_def hook_keys_def)

theorem reachable_tables_sound_witness:
  "\<exists>d j. reachable d [5, 5, 5, 5] \<and> j \<in> set (jobs d) \<and> job_ok j \<and> refs_ok d \<and> locks_exclusive d"
proof -
  obtain d0 where 0: "reachable d0 []" "demo_state 0 d0" using demo_start by blast
  obtain d1 where 1: "reachable d1 [5]" "demo_state 1 d1" using demo_cycle[OF 0] by auto
  obtain d2 where 2: "reachable d2 [5, 5]" "demo_state 2 d2"
    using demo_cycle[OF 1] by (auto simp: numeral_2_eq_2)
  obtain d3 where 3: "reachable d3 [5, 5, 5]" "demo_state 3 d3"
    using demo_cycle[OF 2] by (auto simp: numeral_3_eq_3)
  obtain d j where d: "reachable d [5, 5, 5, 5]" "jobs d = [j]" using demo_claim[OF 3] by auto
  with reachable_tables_sound[OF d(1)] show ?thesis by auto
qed

end
