(* ===== verification/Spec2Isabelle.thy ===== *)
theory Spec2Isabelle
  imports JobBoard Columns StreamFacts Deploys LoadTests
    IsolationFacts Wiring RunHistory Bodies OutboxRows Overtaking QueueWork TriggerRace Tables
begin

text \<open>
  A verification development for the pipeline orchestrator: a NestJS application that keeps
  pipelines, their runs, the jobs of a run, deploy locks and outgoing webhooks in Postgres, and
  whose workers take jobs from the table \<^verbatim>\<open>jobs\<close> as from a queue.

  \<^bold>\<open>The program.\<close>  A request of the API (or a push of a git host) triggers a pipeline: it
  inserts a run and one job per step of the pipeline's configuration.  Every worker runs a loop
  that claims the next job with one UPDATE \<dots> FOR UPDATE SKIP LOCKED \<dots> RETURNING statement,
  executes its command in a shell, writes the lines it prints to job_logs, and marks the job
  completed or failed; while the command runs it renews the job's heartbeat, and a reclaim loop
  gives jobs with an old heartbeat back to the queue.  A deploy job additionally holds an
  advisory lock for its environment.  With no job to run, a worker drains the outbox of
  webhooks.  A trigger on jobs keeps the status of the runs, a trigger on job_logs notifies the
  processes that stream logs, a materialized view feeds the dashboard.

  \<^bold>\<open>How it is modelled.\<close>  \<open>Schema\<close> has one record per entity of src/src/database/entities and
  the record \<open>db\<close> of all tables together with what Postgres keeps beside them: advisory locks,
  rows locked by statements of other sessions, installed triggers, sent notifications, the
  materialized view, the counters behind generated ids.  A statement is a function of NOW() and
  the database into an error or a result and a new database (\<open>'a stmt\<close>); it is atomic.  An async
  function is an action on a \<open>world\<close> (\<open>Effects\<close>): \<open>seq\<close> is await, \<open>try_catch\<close> and \<open>try_finally\<close> are
  what they are called, and a world's \<open>script\<close> lists what happens around each of its statements:
  what the other processes commit, what the clock shows, whether the connection breaks before
  or after the commit, whether the process is asked to stop.  A theorem over all scripts is one
  over all interleavings at the granularity of statements; a theorem with \<open>script w = []\<close> is
  about a stretch in which nothing interferes and NOW() stands still.  Outcomes are a value, a
  thrown error or \<open>Hangs\<close>.

  \<^bold>\<open>Theories and the files they model\<close> (under src/src, but for the load scripts).
    \<^item> \<open>Prelude\<close>, \<open>ClaimQueue\<close>, \<open>Scans\<close>: tables as lists of rows, strings as lists of code points, and
      the interfaces both queues are built on, as locales: \<open>keyed_rows\<close> (a primary key),
      \<open>retry_counter\<close> (a bounded number of retries) and \<open>claim_queue\<close> (the claim statement).
    \<^item> \<open>Schema\<close>, \<open>Effects\<close>: database/entities, and how asynchronous code runs.
    \<^item> \<open>RunStatus\<close>: the trigger function of database/database-seed.service.ts and its contract
      \<open>run_synced\<close>; \<open>Isolation\<close>, \<open>IsolationFacts\<close>: the same function and the UPDATEs that fire it as
      transactions of READ COMMITTED, row by row and SELECT by SELECT.
    \<^item> \<open>JobQueue\<close>, \<open>JobFacts\<close>: queue/job-queue.service.ts, one statement and one method each;
      the interpretations \<open>jq\<close>, \<open>jr\<close> of the locales and the invariant \<open>jobs_inv\<close>; \<open>JobRows\<close>: its claim
      row by row, over a snapshot that grows old.
    \<^item> \<open>WebhookQueue\<close>: queue/webhook-queue.service.ts, with the interpretations \<open>wq\<close>, \<open>wr\<close>;
      \<open>OutboxRows\<close>: any number of its couriers row by row.
    \<^item> \<open>DeploymentLock\<close>: locks/deployment-lock.service.ts over Postgres' advisory locks, whose
      contract is the locale \<open>advisory_locks\<close>, interpreted as \<open>al\<close>; \<open>Deploys\<close>: the deploys of any
      number of workers as one step relation over sessions whose connections may break.
    \<^item> \<open>LineBuffer\<close>, \<open>DeployEnv\<close>, \<open>JobExecutor\<close>: worker/job-executor.service.ts.
    \<^item> \<open>LogStream\<close>, \<open>LogService\<close>: streaming/log-stream.service.ts, the writing side with the
      trigger on job_logs and the listening side with its handlers, restarts, subscribers and
      shutdown; streaming/sse.controller.ts.
    \<^item> \<open>Heartbeat\<close>: worker/heartbeat.service.ts.
    \<^item> \<open>Worker\<close>: worker/job-claimer.service.ts and worker/worker.service.ts.
    \<^item> \<open>Lifecycle\<close>: start and shutdown of the worker's loop and of the lock service's pool.
    \<^item> \<open>Pipelines\<close>, \<open>Runs\<close>, \<open>GitWebhook\<close>, \<open>Dashboard\<close>: the services and controllers under api.
    \<^item> \<open>Http\<close>: the routes of all controllers as app.module.ts gathers them, and requests with
      their statuses; \<open>Bodies\<close>: the same handlers on bodies that are any JSON object.
    \<^item> \<open>Wiring\<close>: every *.module.ts and constructor, database/database.module.ts and main.ts: what
      the container gives each class, and how a process starts.
    \<^item> \<open>Seed\<close>: the rest of database/database-seed.service.ts and database/seed.
    \<^item> \<open>LoadTests\<close>: load-testing/scripts, as clients of \<open>Http\<close>.

  \<^bold>\<open>What is proved\<close> (the properties C1 to C40 stand in the theories named).
    \<^item> \<open>System\<close>: \<open>sys_step\<close> is one committed statement of any process, \<open>reachable\<close> what they lead to
      in any order.  The locale \<open>program_steps\<close> says what a relation must contain for every action of
      the program to move along it; by its interpretation \<open>ps\<close> an invariant of \<open>sys_step\<close> holds
      throughout the worker's loop and every request.  \<open>Tables\<close>: keys, references, job rows and
      locks of every reachable database (C1).  \<open>Columns\<close>: its rows fit their columns.
    \<^item> \<open>QueueWork\<close>: the work of any number of workers on a queue ends after at most eight steps per
      job, and with every job and run at an end (C5).
    \<^item> \<open>JobBoard\<close>: the abstract specification of the job queue, a board of cards that wait, are
      taken or done; every statement of the system is a move on it (C2).
    \<^item> \<open>RunHistory\<close>: the abstract specification of a run, an automaton over its status and times,
      along which every run moves over whole traces (C10); and what workers that are faster than
      the inserts of a triggered run do to its end.  \<open>TriggerRace\<close>: what they do to its order (C33).
    \<^item> When the statements may be taken as atomic.  \<open>Isolation\<close>, \<open>IsolationFacts\<close>: runs stay in
      step with their jobs under all interleavings inside the trigger as long as no two
      transactions change jobs of one run at once (C3), and a transaction alone does what the
      statement does (C14); without that, two marks strand a run (C37).  \<open>JobRows\<close>: a claim
      judges an earlier open job by its snapshot only, which is harmless as long as nobody opens
      one meanwhile (C4).  \<open>OutboxRows\<close>: the couriers of the outbox need no such
      condition (C12), no webhook is in two hands at once (C13), and a mark whose
      reply is lost may deliver it twice.
    \<^item> \<open>OutboxSpec\<close>: the abstract specification of the outbox, a queue with due times over a
      multiset, as the locale \<open>delay_queue\<close>, and the outbox as a refinement of it, by the
      interpretation \<open>dq\<close> (C11, and the order of service, C15).  \<open>Notifications\<close>: a second interpretation of \<open>program_steps\<close>,
      by which nothing in the program fills the outbox (C29).
    \<^item> \<open>JobOrder\<close>: what a claim takes, in which order, and what the method answers for every shape
      of the result, no double claims, no stall, the conditions under which one job of a run runs
      at a time, and how a late mark of a worker that lost its job breaks that (C6, C16, C17, C36).
      \<open>Overtaking\<close>: the first stages of later runs go before the later stages of a run in
      progress, without a bound (C34).
    \<^item> \<open>JobTraces\<close>: a bound on the attempts of every job, over all traces (C7), and the job that
      no reclaim takes back (C8).
    \<^item> \<open>ExecFacts\<close>: the release and the leak of deploy locks, and that the output of a command is
      logged completely.
    \<^item> \<open>Deploys\<close>: mutual exclusion of interleaved deploys, that executing a job moves along their
      steps, and what a broken connection does to the exclusion (C19, C20, C40).
    \<^item> \<open>WorkerFacts\<close>: whatever the shape of the result, a round settles the job in hand by its exit
      code (C18); errors do not end the loop; with the pair of rows and count it runs nothing (C39).
    \<^item> \<open>Lifecycle\<close>: nothing a worker took stays taken after its loop (C21), and what shutting it
      down waits for.
    \<^item> \<open>Heartbeat\<close>: a job that beats is left alone, one that has stopped is taken back within 45
      seconds (C22, C23).
    \<^item> \<open>WebhookFacts\<close>: one round of the outbox for every shape of the result (C27), the schedule of
      its retries, when draining ends and when it does not (C28), and what is lost.
    \<^item> \<open>TriggerFacts\<close>: triggering, pushes for every stored configuration (C24, C25), deletion (C9),
      seeding, and the environment variables of a configuration, which reach nothing.
    \<^item> \<open>LogService\<close>, \<open>StreamFacts\<close>: what subscribers are sent (C35), up to the output of a command
      on both channels seen live, but for the lines the database refuses (C26); that the listener is
      not lost (C30), and how restarts and shutdown go wrong.
    \<^item> \<open>Http\<close>, \<open>HttpFacts\<close>: routes, statuses, the life of a pipeline (C31); \<open>Bodies\<close>: the typed
      handlers are right about bodies of the promised types, and what an id in a body
      does (C38); \<open>LoadTests\<close>: what a load leaves behind.
    \<^item> \<open>Wiring\<close>: every class gets what it asks for, services with state exist once, and what
      a process that has started does, by its environment (C32).

  \<^bold>\<open>Bounds.\<close>  The loops that may run for ever (\<open>runLoop\<close>, \<open>drain_outbox\<close>, \<open>claimNextOrWait\<close>)
  take a number of rounds, and \<open>Hangs\<close> means that they have not returned within it.  Nothing
  about results rests on it: C21 and C28 hold for every number, \<open>drain_terminates\<close> shows that with
  rows as they are one round more than there are webhooks drains the outbox, and C5 counts steps
  without any bound given to it.  The timestamps are microseconds, exact; uuids are fresh numbers.

  \<^bold>\<open>Parameters\<close>, for code outside src: the shape of the answer to an UPDATE \<dots> RETURNING (TypeORM;
  \<open>plain_rows\<close> is what the source expects, \<open>rows_and_count\<close> what TypeORM 0.3 documents; the properties
  hold for every shape or are about the documented one, and \<open>plain_rows\<close> stands in examples and in
  the theorems outside the list that name it), what the
  driver binds a JSON value to (\<open>pg_driver\<close>), hashtext, the pool's choice of a connection and how
  connections break, how Postgres prints uuids and timestamps (\<open>pg_format\<close>) and reads an id
  (\<open>parse_id\<close>), the receiver of a webhook (\<open>net\<close>), the events of a child process (\<open>rt_child\<close>), the
  order in which concurrent inserts arrive (\<open>sched\<close>), the statuses Nest answers with (\<open>nest\<close>).
  The hypotheses on them are \<open>driver_ok\<close>, \<open>format_ok\<close>, \<open>commands_end\<close>, \<open>nest_ok\<close>, that \<open>sched\<close>
  permutes, that different jobs have different texts, and that an id that was printed is read
  back; for \<open>Wiring\<close> the container (the locale \<open>injector\<close>) and the order in which it initialises
  services, for \<open>Bodies\<close> the times of an overwritten row (\<open>stamp_ok\<close>) and jsonb values
  (\<open>jsonb_ok\<close>).

  \<^bold>\<open>Limits.\<close>  Statements are atomic, but in \<open>Isolation\<close>, \<open>JobRows\<close> and \<open>OutboxRows\<close>, which say for
  the statements on jobs and on the outbox when they may be taken so; a worker's actions
  run over whole statements, and key locks of foreign keys are not modelled.  JSON numbers
  are integers; JSON texts contain no U+0000 (Postgres refuses it in jsonb and in text).  Retry
  counters and the exponent of the backoff are unbounded integers.  A varchar value that is too long
  is always an error (Postgres cuts off what is too long if it is only spaces).  An insert of a log
  line that fails takes no number from the sequence of job_logs (in Postgres it does, which leaves
  gaps in the ids).  \<open>bootstrap\<close> initialises the services one after the other in any order, where
  Nest starts some of them together, and that it has no shutdown hooks is read off main.ts.  An
  UPDATE of jobs and its trigger are one step but in \<open>Isolation\<close>; what rests on the status of runs
  being right (C5, C10) is about whole statements in this sense.  The log inserts of a command, which the code does not await,
  run in the order of issue.  A heartbeat fires where the event list of the child says so.
  \<open>startListening\<close> is one event, from the connection to LISTEN.

  \<^bold>\<open>Not modelled:\<close> the Swagger page, bodies that are arrays and the fields created_at, updated_at
  and runs of a body, the options and thresholds of the load scripts, and the tests.

  Of the source, what is left are these; what could still be refined is the granularity of the
  remaining statements, and the shutdown of whole processes, which Nest never starts here.
\<close>

end
